(* ===== verification/HetSim_Prelude.thy ===== *)
theory HetSim_Prelude
  imports Main "HOL-Library.Word" "HOL-Library.Product_Lexorder"
begin

text \<open>
  The shared vocabulary of the development: the machine types of
  \<^verbatim>\<open>gem5/src/base/types.hh\<close>, the outcomes a C++ call can have besides
  returning (a failed \<^verbatim>\<open>assert\<close>, \<^verbatim>\<open>panic\<close>, \<^verbatim>\<open>fatal\<close>, \<^verbatim>\<open>exit\<close>, a thrown
  exception, undefined behaviour, a loop that never ends), the sequencing of
  calls that may have such an outcome, and the generic facts about words,
  lists and results the component theories use.
\<close>

unbundle bit_operations_syntax

named_theorems res_simps \<open>evaluation of sequenced calls\<close>
named_theorems flag_simps \<open>reading flags after they were set or cleared\<close>

subsection \<open>Machine types\<close>

type_synonym u8 = "8 word"
type_synonym u16 = "16 word"
type_synonym u32 = "32 word"
type_synonym u64 = "64 word"

type_synonym Tick = u64
type_synonym Addr = u64

subsection \<open>Outcomes of a call\<close>

datatype fault =
    AssertFail string
  | Panic string
  | Fatal string
  | ExitWith nat
  | Thrown string
  | Undefined string
  | NoReturn

type_synonym 'a res = "fault + 'a"

definition rbind :: "'a res \<Rightarrow> ('a \<Rightarrow> 'b res) \<Rightarrow> 'b res" where
  "rbind m f = (case m of Inl e \<Rightarrow> Inl e | Inr x \<Rightarrow> f x)"

definition require :: "bool \<Rightarrow> fault \<Rightarrow> 'a res \<Rightarrow> 'a res" where
  "require c e m = (if c then m else Inl e)"

definition of_loop :: "'a option \<Rightarrow> 'a res" where
  "of_loop r = (case r of None \<Rightarrow> Inl NoReturn | Some x \<Rightarrow> Inr x)"

declare rbind_def [code_unfold] require_def [code_unfold]

text \<open>Evaluation reads a pair pattern strictly: the body is not unfolded before its pair is known.\<close>

lemma case_prod_let [code_unfold]: "case_prod f = (\<lambda>p. Let p (\<lambda>x. f (fst x) (snd x)))"
  by (auto simp: fun_eq_iff Let_def)

lemma rbind_simps [simp, res_simps]:
  "rbind (Inl e) f = Inl e"
  "rbind (Inr x) f = f x"
  by (simp_all add: rbind_def)

lemma require_simps [simp, res_simps]:
  "require True e m = m"
  "require False e m = Inl e"
  by (simp_all add: require_def)

lemma of_loop_simps [simp, res_simps]:
  "of_loop None = Inl NoReturn"
  "of_loop (Some x) = Inr x"
  by (simp_all add: of_loop_def)

lemma rbind_eq_Inr [simp]: "rbind m f = Inr y \<longleftrightarrow> (\<exists>x. m = Inr x \<and> f x = Inr y)"
  by (cases m) auto

lemma require_eq_Inr [simp]: "require c e m = Inr y \<longleftrightarrow> c \<and> m = Inr y"
  by (cases c) auto

lemma of_loop_eq_Inr [simp]: "of_loop r = Inr y \<longleftrightarrow> r = Some y"
  by (cases r) auto

lemma rbind_assoc: "rbind (rbind m f) g = rbind m (\<lambda>x. rbind (f x) g)"
  by (cases m) auto

lemma rbind_cong [fundef_cong]:
  "m = m' \<Longrightarrow> (\<And>x. m' = Inr x \<Longrightarrow> f x = f' x) \<Longrightarrow> rbind m f = rbind m' f'"
  by (cases m') auto

subsection \<open>Words\<close>

lemma unat_add_no_wrap:
  "unat a + unat b < 2 ^ LENGTH('a) \<Longrightarrow> unat (a + b) = unat a + unat b"
  for a b :: "'a::len word"
  by (simp add: unat_word_ariths)

lemma unat_mult_no_wrap:
  "unat a * unat b < 2 ^ LENGTH('a) \<Longrightarrow> unat (a * b) = unat a * unat b"
  for a b :: "'a::len word"
  by (simp add: unat_word_ariths)

subsection \<open>Lists\<close>

lemma remove1_eq_filter: "distinct xs \<Longrightarrow> remove1 x xs = filter (\<lambda>y. y \<noteq> x) xs"
  by (simp add: distinct_remove1_removeAll removeAll_filter_not_eq) (metis)

lemma concat_filter_nonempty: "concat (filter (\<lambda>b. b \<noteq> []) bs) = concat bs"
  by (induction bs) auto

end
