(* ===== verification/Event_Queue.thy ===== *)
theory Event_Queue
  imports HetSim_Prelude "HOL-Library.Multiset"
begin

text \<open>
  The simulator's event queue: \<^verbatim>\<open>gem5/src/sim/eventq.hh\<close>,
  \<^verbatim>\<open>gem5/src/sim/eventq.cc\<close> and \<^verbatim>\<open>gem5/src/sim/eventq_impl.hh\<close>.

  An \<^verbatim>\<open>Event *\<close> is an element of a type \<open>'e\<close> of event objects; the memory that
  holds the objects is the field \<open>ev\<close> of the queue's record, so that the two link
  fields \<^verbatim>\<open>nextBin\<close> and \<^verbatim>\<open>nextInBin\<close> are pointers as in the source (a list of
  stacks, with \<^verbatim>\<open>nextBin\<close> meaningful in the top element of a stack only).  The
  record is extensible: the state of a client of the queue extends it.
\<close>

subsection \<open>Flags\<close>

definition flag_isSet :: "u16 \<Rightarrow> u16 \<Rightarrow> bool" where
  "flag_isSet f m \<longleftrightarrow> f AND m \<noteq> 0"

definition flag_clear :: "u16 \<Rightarrow> u16 \<Rightarrow> u16" where
  "flag_clear f m = f AND NOT m"

definition flag_set :: "u16 \<Rightarrow> u16 \<Rightarrow> u16" where
  "flag_set f m = f OR m"

definition Squashed :: u16 where "Squashed = 0x0001"
definition Scheduled :: u16 where "Scheduled = 0x0002"
definition Managed :: u16 where "Managed = 0x0004"
definition IsExitEvent :: u16 where "IsExitEvent = 0x0010"
definition IsMainQueue :: u16 where "IsMainQueue = 0x0020"
definition Initialized :: u16 where "Initialized = 0x7a40"
definition InitMask :: u16 where "InitMask = 0xffc0"

subsection \<open>Events and the queue\<close>

record 'e event =
  nextBin :: "'e option"
  nextInBin :: "'e option"
  ewhen :: Tick
  epriority :: u8
  eflags :: u16

record 'e eventq =
  head :: "'e option"
  curTick :: Tick
  async_queue :: "'e list"
  ev :: "'e \<Rightarrow> 'e event"
  inParallelMode :: bool
  onCurQueue :: bool
  freed :: "'e list"

definition ev_less :: "'e event \<Rightarrow> 'e event \<Rightarrow> bool" where
  "ev_less l r \<longleftrightarrow> ewhen l < ewhen r \<or>
     (ewhen l = ewhen r \<and> sint (epriority l) < sint (epriority r))"

definition ev_le :: "'e event \<Rightarrow> 'e event \<Rightarrow> bool" where
  "ev_le l r \<longleftrightarrow> ewhen l < ewhen r \<or>
     (ewhen l = ewhen r \<and> sint (epriority l) \<le> sint (epriority r))"

definition ev_eq :: "'e event \<Rightarrow> 'e event \<Rightarrow> bool" where
  "ev_eq l r \<longleftrightarrow> ewhen l = ewhen r \<and> sint (epriority l) = sint (epriority r)"

definition scheduled :: "('e, 'a) eventq_scheme \<Rightarrow> 'e \<Rightarrow> bool" where
  "scheduled q e \<longleftrightarrow> flag_isSet (eflags (ev q e)) Scheduled"

definition squashed :: "('e, 'a) eventq_scheme \<Rightarrow> 'e \<Rightarrow> bool" where
  "squashed q e \<longleftrightarrow> flag_isSet (eflags (ev q e)) Squashed"

definition isExitEvent :: "('e, 'a) eventq_scheme \<Rightarrow> 'e \<Rightarrow> bool" where
  "isExitEvent q e \<longleftrightarrow> flag_isSet (eflags (ev q e)) IsExitEvent"

definition initialized :: "('e, 'a) eventq_scheme \<Rightarrow> 'e \<Rightarrow> bool" where
  "initialized q e \<longleftrightarrow> eflags (ev q e) AND InitMask = Initialized"

definition upd_ev :: "'e \<Rightarrow> ('e event \<Rightarrow> 'e event) \<Rightarrow> ('e, 'a) eventq_scheme \<Rightarrow> ('e, 'a) eventq_scheme" where
  "upd_ev e f q = q\<lparr>ev := (ev q)(e := f (ev q e))\<rparr>"

definition squash :: "'e \<Rightarrow> ('e, 'a) eventq_scheme \<Rightarrow> ('e, 'a) eventq_scheme" where
  "squash e = upd_ev e (\<lambda>x. x\<lparr>eflags := flag_set (eflags x) Squashed\<rparr>)"

definition setWhen :: "'e \<Rightarrow> Tick \<Rightarrow> ('e, 'a) eventq_scheme \<Rightarrow> ('e, 'a) eventq_scheme" where
  "setWhen e w = upd_ev e (\<lambda>x. x\<lparr>ewhen := w\<rparr>)"

definition setFlag :: "'e \<Rightarrow> u16 \<Rightarrow> ('e, 'a) eventq_scheme \<Rightarrow> ('e, 'a) eventq_scheme" where
  "setFlag e m = upd_ev e (\<lambda>x. x\<lparr>eflags := flag_set (eflags x) m\<rparr>)"

definition clearFlag :: "'e \<Rightarrow> u16 \<Rightarrow> ('e, 'a) eventq_scheme \<Rightarrow> ('e, 'a) eventq_scheme" where
  "clearFlag e m = upd_ev e (\<lambda>x. x\<lparr>eflags := flag_clear (eflags x) m\<rparr>)"

text \<open>
  \<^verbatim>\<open>Event::release\<close> with the default \<^verbatim>\<open>releaseImpl\<close>: a managed event that is no
  longer scheduled is deleted.  \<^verbatim>\<open>acquire\<close> calls the empty \<^verbatim>\<open>acquireImpl\<close>.
\<close>

definition release :: "'e \<Rightarrow> ('e, 'a) eventq_scheme \<Rightarrow> ('e, 'a) eventq_scheme" where
  "release e q =
     (if flag_isSet (eflags (ev q e)) Managed \<and> \<not> scheduled q e
      then q\<lparr>freed := e # freed q\<rparr> else q)"

subsection \<open>Insertion\<close>

definition insertBefore :: "'e \<Rightarrow> 'e option \<Rightarrow> ('e, 'a) eventq_scheme \<Rightarrow> ('e, 'a) eventq_scheme" where
  "insertBefore event cur q =
     (case cur of
        None \<Rightarrow> upd_ev event (\<lambda>x. x\<lparr>nextBin := None, nextInBin := None\<rparr>) q
      | Some c \<Rightarrow>
          if ev_less (ev q event) (ev q c)
          then upd_ev event (\<lambda>x. x\<lparr>nextBin := Some c, nextInBin := None\<rparr>) q
          else upd_ev event (\<lambda>x. x\<lparr>nextBin := nextBin (ev q c), nextInBin := Some c\<rparr>) q)"

partial_function (option) bin_walk ::
    "('e \<Rightarrow> 'e event) \<Rightarrow> 'e \<Rightarrow> 'e \<Rightarrow> 'e option \<Rightarrow> ('e \<times> 'e option) option" where
  "bin_walk m event prev cur =
     (case cur of
        None \<Rightarrow> Some (prev, None)
      | Some c \<Rightarrow>
          if ev_less (m c) (m event) then bin_walk m event c (nextBin (m c))
          else Some (prev, Some c))"

definition insert_event :: "'e \<Rightarrow> ('e, 'a) eventq_scheme \<Rightarrow> ('e, 'a) eventq_scheme res" where
  "insert_event event q =
     (case head q of
        None \<Rightarrow> Inr ((insertBefore event None q)\<lparr>head := Some event\<rparr>)
      | Some h \<Rightarrow>
          if ev_le (ev q event) (ev q h)
          then Inr ((insertBefore event (Some h) q)\<lparr>head := Some event\<rparr>)
          else
            rbind (of_loop (bin_walk (ev q) event h (nextBin (ev q h)))) (\<lambda>(prev, cur).
              Inr (upd_ev prev (\<lambda>x. x\<lparr>nextBin := Some event\<rparr>) (insertBefore event cur q))))"

subsection \<open>Removal\<close>

text \<open>The pointers \<^verbatim>\<open>curr\<close> and \<^verbatim>\<open>next\<close> when the loop of \<^verbatim>\<open>removeItem\<close> ends: \<^verbatim>\<open>next\<close> is null
  exactly where the source panics.\<close>

partial_function (option) item_walk ::
    "('e \<Rightarrow> 'e event) \<Rightarrow> 'e \<Rightarrow> 'e \<Rightarrow> 'e option \<Rightarrow> ('e \<times> 'e option) option" where
  "item_walk m event cur nxt =
     (case nxt of
        None \<Rightarrow> Some (cur, None)
      | Some n \<Rightarrow> if event = n then Some (cur, Some n)
                  else item_walk m event n (nextInBin (m n)))"

definition removeItem :: "'e \<Rightarrow> 'e \<Rightarrow> ('e, 'a) eventq_scheme \<Rightarrow>
    ('e option \<times> ('e, 'a) eventq_scheme) res" where
  "removeItem event topp q =
     (if event = topp then
        (case nextInBin (ev q topp) of
           None \<Rightarrow> Inr (nextBin (ev q topp), q)
         | Some n \<Rightarrow> Inr (Some n, upd_ev n (\<lambda>x. x\<lparr>nextBin := nextBin (ev q topp)\<rparr>) q))
      else
        rbind (of_loop (item_walk (ev q) event topp (nextInBin (ev q topp)))) (\<lambda>(cur, nxt).
          case nxt of
            None \<Rightarrow> Inl (Panic ''event not found!'')
          | Some n \<Rightarrow> Inr (Some topp, upd_ev cur (\<lambda>x. x\<lparr>nextInBin := nextInBin (ev q n)\<rparr>) q)))"

definition remove_event :: "'e \<Rightarrow> ('e, 'a) eventq_scheme \<Rightarrow> ('e, 'a) eventq_scheme res" where
  "remove_event event q =
     (case head q of
        None \<Rightarrow> Inl (Panic ''event not found!'')
      | Some h \<Rightarrow>
          if ev_eq (ev q h) (ev q event) then
            rbind (removeItem event h q) (\<lambda>(h', q'). Inr (q'\<lparr>head := h'\<rparr>))
          else
            rbind (of_loop (bin_walk (ev q) event h (nextBin (ev q h)))) (\<lambda>(prev, cur).
              case cur of
                None \<Rightarrow> Inl (Panic ''event not found!'')
              | Some c \<Rightarrow>
                  if \<not> ev_eq (ev q c) (ev q event) then Inl (Panic ''event not found!'')
                  else rbind (removeItem event c q) (\<lambda>(topp, q').
                         Inr (upd_ev prev (\<lambda>x. x\<lparr>nextBin := topp\<rparr>) q'))))"

subsection \<open>Scheduling\<close>

definition asyncInsert :: "'e \<Rightarrow> ('e, 'a) eventq_scheme \<Rightarrow> ('e, 'a) eventq_scheme" where
  "asyncInsert event q = q\<lparr>async_queue := async_queue q @ [event]\<rparr>"

definition schedule :: "'e \<Rightarrow> Tick \<Rightarrow> bool \<Rightarrow> ('e, 'a) eventq_scheme \<Rightarrow> ('e, 'a) eventq_scheme res" where
  "schedule event w global q =
     require (curTick q \<le> w) (AssertFail ''when >= getCurTick()'')
     (require (\<not> scheduled q event) (AssertFail ''!event->scheduled()'')
     (require (initialized q event) (AssertFail ''event->initialized()'')
     (let q1 = setWhen event w q in
      rbind (if inParallelMode q1 \<and> (\<not> onCurQueue q1 \<or> global)
             then Inr (asyncInsert event q1) else insert_event event q1)
        (\<lambda>q2. Inr (setFlag event Scheduled q2)))))"

definition deschedule :: "'e \<Rightarrow> ('e, 'a) eventq_scheme \<Rightarrow> ('e, 'a) eventq_scheme res" where
  "deschedule event q =
     require (scheduled q event) (AssertFail ''event->scheduled()'')
     (require (initialized q event) (AssertFail ''event->initialized()'')
     (require (\<not> inParallelMode q \<or> onCurQueue q) (AssertFail ''this == curEventQueue()'')
     (rbind (remove_event event q) (\<lambda>q1.
        Inr (release event (clearFlag event Scheduled (clearFlag event Squashed q1)))))))"

definition reschedule :: "'e \<Rightarrow> Tick \<Rightarrow> bool \<Rightarrow> ('e, 'a) eventq_scheme \<Rightarrow> ('e, 'a) eventq_scheme res" where
  "reschedule event w always q =
     require (curTick q \<le> w) (AssertFail ''when >= getCurTick()'')
     (require (always \<or> scheduled q event) (AssertFail ''always || event->scheduled()'')
     (require (initialized q event) (AssertFail ''event->initialized()'')
     (require (\<not> inParallelMode q \<or> onCurQueue q) (AssertFail ''this == curEventQueue()'')
     (rbind (if scheduled q event then remove_event event q else Inr q) (\<lambda>q1.
      rbind (insert_event event (setWhen event w q1)) (\<lambda>q2.
        Inr (setFlag event Scheduled (clearFlag event Squashed q2))))))))"

definition checkpointReschedule :: "'e \<Rightarrow> ('e, 'a) eventq_scheme \<Rightarrow> ('e, 'a) eventq_scheme res" where
  "checkpointReschedule event q =
     (if scheduled q event then insert_event event q else Inr q)"

fun insert_all :: "'e list \<Rightarrow> ('e, 'a) eventq_scheme \<Rightarrow> ('e, 'a) eventq_scheme res" where
  "insert_all [] q = Inr q"
| "insert_all (e # es) q = rbind (insert_event e q) (insert_all es)"

definition handleAsyncInsertions :: "('e, 'a) eventq_scheme \<Rightarrow> ('e, 'a) eventq_scheme res" where
  "handleAsyncInsertions q =
     require (onCurQueue q) (AssertFail ''this == curEventQueue()'')
     (rbind (insert_all (async_queue q) q) (\<lambda>q1. Inr (q1\<lparr>async_queue := []\<rparr>)))"

definition replaceHead :: "'e option \<Rightarrow> ('e, 'a) eventq_scheme \<Rightarrow> 'e option \<times> ('e, 'a) eventq_scheme" where
  "replaceHead s q = (head q, q\<lparr>head := s\<rparr>)"

subsection \<open>Service\<close>

text \<open>
  \<^verbatim>\<open>serviceOne\<close> takes what the event does (\<^verbatim>\<open>process()\<close>) as its argument; the result
  is the exit event, if the event was one.  A null \<^verbatim>\<open>head\<close> is dereferenced.
\<close>

definition service_pop :: "('e, 'a) eventq_scheme \<Rightarrow> ('e \<times> ('e, 'a) eventq_scheme) res" where
  "service_pop q =
     (case head q of
        None \<Rightarrow> Inl (Undefined ''head->nextInBin'')
      | Some h \<Rightarrow>
          let q1 = clearFlag h Scheduled q in
          (case nextInBin (ev q h) of
             Some n \<Rightarrow> Inr (h, (upd_ev n (\<lambda>x. x\<lparr>nextBin := nextBin (ev q1 h)\<rparr>) q1)\<lparr>head := Some n\<rparr>)
           | None \<Rightarrow> Inr (h, q1\<lparr>head := nextBin (ev q1 h)\<rparr>)))"

definition serviceOne ::
    "('e \<Rightarrow> ('e, 'a) eventq_scheme \<Rightarrow> ('e, 'a) eventq_scheme res) \<Rightarrow> ('e, 'a) eventq_scheme \<Rightarrow>
     ('e option \<times> ('e, 'a) eventq_scheme) res" where
  "serviceOne process q =
     rbind (service_pop q) (\<lambda>(e, q1).
       if \<not> squashed q1 e then
         rbind (process e (q1\<lparr>curTick := ewhen (ev q1 e)\<rparr>)) (\<lambda>q2.
           if isExitEvent q2 e then
             require (\<not> flag_isSet (eflags (ev q2 e)) Managed \<or> \<not> flag_isSet (eflags (ev q2 e)) IsMainQueue)
               (AssertFail ''would be silly'') (Inr (Some e, q2))
           else Inr (None, release e q2))
       else Inr (None, release e (clearFlag e Squashed q1)))"

partial_function (option) serviceEvents ::
    "('e \<Rightarrow> ('e, 'a) eventq_scheme \<Rightarrow> ('e, 'a) eventq_scheme res) \<Rightarrow> Tick \<Rightarrow>
     ('e, 'a) eventq_scheme \<Rightarrow> ('e, 'a) eventq_scheme res option" where
  "serviceEvents process w q =
     (case head q of
        None \<Rightarrow> Some (Inr (q\<lparr>curTick := w\<rparr>))
      | Some h \<Rightarrow>
          if ewhen (ev q h) > w then Some (Inr (q\<lparr>curTick := w\<rparr>))
          else (case serviceOne process q of
                  Inl f \<Rightarrow> Some (Inl f)
                | Inr (_, q1) \<Rightarrow> serviceEvents process w q1))"

text \<open>
  The simulation loop of \<^verbatim>\<open>gem5/src/sim/simulate.cc\<close>.  \<open>async\<close> stands for the block
  that reacts to the flags the signal handlers set: it may change the queue (schedule
  a statistics or an exit event) and says whether the loop returns NULL at once.
\<close>

partial_function (option) sim_loop ::
    "(('e, 'a) eventq_scheme \<Rightarrow> (bool \<times> ('e, 'a) eventq_scheme) res) \<Rightarrow>
     ('e \<Rightarrow> ('e, 'a) eventq_scheme \<Rightarrow> ('e, 'a) eventq_scheme res) \<Rightarrow>
     ('e, 'a) eventq_scheme \<Rightarrow> ('e option \<times> ('e, 'a) eventq_scheme) res option" where
  "sim_loop async process q =
     (case head q of
        None \<Rightarrow> Some (Inl (AssertFail ''!eventq->empty()''))
      | Some h \<Rightarrow>
          if \<not> curTick q \<le> ewhen (ev q h) then Some (Inl (AssertFail ''event scheduled in the past''))
          else (case async q of
                  Inl f \<Rightarrow> Some (Inl f)
                | Inr (stop, q0) \<Rightarrow>
                    if stop then Some (Inr (None, q0))
                    else (case serviceOne process q0 of
                       Inl f \<Rightarrow> Some (Inl f)
                     | Inr (Some e, q1) \<Rightarrow> Some (Inr (Some e, q1))
                     | Inr (None, q1) \<Rightarrow> sim_loop async process q1)))"

definition doSimLoop ::
    "(('e, 'a) eventq_scheme \<Rightarrow> (bool \<times> ('e, 'a) eventq_scheme) res) \<Rightarrow>
     ('e \<Rightarrow> ('e, 'a) eventq_scheme \<Rightarrow> ('e, 'a) eventq_scheme res) \<Rightarrow>
     ('e, 'a) eventq_scheme \<Rightarrow> ('e option \<times> ('e, 'a) eventq_scheme) res" where
  "doSimLoop async process q =
     rbind (handleAsyncInsertions (q\<lparr>onCurQueue := True\<rparr>)) (\<lambda>q1.
       rbind (of_loop (sim_loop async process q1)) id)"

text \<open>The traversal of \<^verbatim>\<open>debugVerify\<close>: \<open>cur\<close> is \<^verbatim>\<open>nextInBin\<close>, \<open>bin\<close> is \<^verbatim>\<open>nextBin\<close>.\<close>

partial_function (option) verify_walk ::
    "('e \<Rightarrow> 'e event) \<Rightarrow> Tick \<Rightarrow> int \<Rightarrow> 'e list \<Rightarrow> 'e option \<Rightarrow> 'e \<Rightarrow> bool option" where
  "verify_walk m time prio seen cur bin =
     (case cur of
        Some e \<Rightarrow>
          if ewhen (m e) < time then Some False
          else if ewhen (m e) = time \<and> sint (epriority (m e)) < prio then Some False
          else if e \<in> set seen then Some False
          else verify_walk m (ewhen (m e)) (sint (epriority (m e))) (e # seen) (nextInBin (m e)) bin
      | None \<Rightarrow>
          (case nextBin (m bin) of
             None \<Rightarrow> Some True
           | Some b \<Rightarrow> verify_walk m time prio seen (Some b) b))"

definition debugVerify :: "('e, 'a) eventq_scheme \<Rightarrow> bool option" where
  "debugVerify q =
     (case head q of None \<Rightarrow> Some True | Some h \<Rightarrow> verify_walk (ev q) 0 0 [] (Some h) h)"

declare bin_walk.simps [code] item_walk.simps [code] serviceEvents.simps [code] sim_loop.simps [code]
  verify_walk.simps [code]


subsection \<open>The representation: a list of stacks\<close>

definition key :: "('e \<Rightarrow> 'e event) \<Rightarrow> 'e \<Rightarrow> Tick \<times> int" where
  "key m e = (ewhen (m e), sint (epriority (m e)))"

fun chain :: "('e \<Rightarrow> 'e event) \<Rightarrow> 'e list \<Rightarrow> bool" where
  "chain m [] = True"
| "chain m [e] = (nextInBin (m e) = None)"
| "chain m (e # e' # es) = (nextInBin (m e) = Some e' \<and> chain m (e' # es))"

fun seg :: "('e \<Rightarrow> 'e event) \<Rightarrow> 'e option \<Rightarrow> 'e list list \<Rightarrow> 'e option \<Rightarrow> bool" where
  "seg m h [] t = (h = t)"
| "seg m h (b # bs) t = (b \<noteq> [] \<and> h = Some (hd b) \<and> chain m b \<and> seg m (nextBin (m (hd b))) bs t)"

definition bins_ok :: "('e \<Rightarrow> 'e event) \<Rightarrow> 'e list list \<Rightarrow> bool" where
  "bins_ok m bs \<longleftrightarrow> distinct (concat bs) \<and> [] \<notin> set bs \<and>
     (\<forall>b\<in>set bs. \<forall>e\<in>set b. key m (hd b) = key m e) \<and>
     sorted_wrt (\<lambda>b c. key m (hd b) < key m (hd c)) bs"

definition represents :: "('e, 'a) eventq_scheme \<Rightarrow> 'e list \<Rightarrow> bool" where
  "represents q xs \<longleftrightarrow> (\<exists>bs. seg (ev q) (head q) bs None \<and> bins_ok (ev q) bs \<and> concat bs = xs)"

definition place :: "('e \<Rightarrow> 'e event) \<Rightarrow> 'e \<Rightarrow> 'e list \<Rightarrow> 'e list" where
  "place m e xs = takeWhile (\<lambda>x. key m x < key m e) xs @ e # dropWhile (\<lambda>x. key m x < key m e) xs"

fun ins_bins :: "('e \<Rightarrow> 'e event) \<Rightarrow> 'e \<Rightarrow> 'e list list \<Rightarrow> 'e list list" where
  "ins_bins m e [] = [[e]]"
| "ins_bins m e (b # bs) =
     (if key m (hd b) < key m e then b # ins_bins m e bs
      else if key m e < key m (hd b) then [e] # b # bs
      else (e # b) # bs)"

definition del_bins :: "'e \<Rightarrow> 'e list list \<Rightarrow> 'e list list" where
  "del_bins e bs = filter (\<lambda>b. b \<noteq> []) (map (remove1 e) bs)"

subsection \<open>Facts about flags and memory updates\<close>

lemma flag_bit [flag_simps]:
  "flag_isSet f Squashed = bit f 0"
  "flag_isSet f Scheduled = bit f 1"
  "flag_isSet f Managed = bit f 2"
  "flag_isSet f IsExitEvent = bit f 4"
  using bit_iff_and_push_bit_not_eq_0 [of f 0] bit_iff_and_push_bit_not_eq_0 [of f 1]
    bit_iff_and_push_bit_not_eq_0 [of f 2] bit_iff_and_push_bit_not_eq_0 [of f 4]
  by (simp_all add: flag_isSet_def Squashed_def Scheduled_def Managed_def IsExitEvent_def
      push_bit_eq_mult)

lemma bit_Scheduled [flag_simps]:
  "bit (flag_set f Scheduled) n \<longleftrightarrow> bit f n \<or> n = 1"
  "bit (flag_clear f Scheduled) n \<longleftrightarrow> bit f n \<and> n \<noteq> 1"
  "bit (flag_set f Squashed) n \<longleftrightarrow> bit f n \<or> n = 0"
  "bit (flag_clear f Squashed) n \<longleftrightarrow> bit f n \<and> n \<noteq> 0"
proof -
  have s: "bit Scheduled n \<longleftrightarrow> n = 1"
    using bit_push_bit_iff [of 1 "1::u16" n]
    by (auto simp: Scheduled_def push_bit_eq_mult bit_1_iff)
  have q: "bit Squashed n \<longleftrightarrow> n = 0"
    by (auto simp: Squashed_def bit_1_iff)
  show "bit (flag_set f Scheduled) n \<longleftrightarrow> bit f n \<or> n = 1"
    "bit (flag_set f Squashed) n \<longleftrightarrow> bit f n \<or> n = 0"
    by (simp_all add: flag_set_def bit_or_iff s q)
  show "bit (flag_clear f Scheduled) n \<longleftrightarrow> bit f n \<and> n \<noteq> 1"
    "bit (flag_clear f Squashed) n \<longleftrightarrow> bit f n \<and> n \<noteq> 0"
    by (auto simp: flag_clear_def bit_and_iff bit_not_iff s q dest: bit_imp_le_length)
qed

lemma init_mask [flag_simps]:
  "flag_set f Scheduled AND InitMask = f AND InitMask"
  "flag_clear f Scheduled AND InitMask = f AND InitMask"
  "flag_set f Squashed AND InitMask = f AND InitMask"
  "flag_clear f Squashed AND InitMask = f AND InitMask"
proof -
  have m: "\<not> bit InitMask 0" "\<not> bit InitMask 1"
    by (simp_all add: InitMask_def)
  show "flag_set f Scheduled AND InitMask = f AND InitMask"
    "flag_clear f Scheduled AND InitMask = f AND InitMask"
    "flag_set f Squashed AND InitMask = f AND InitMask"
    "flag_clear f Squashed AND InitMask = f AND InitMask"
    by (rule bit_word_eqI; use m in \<open>auto simp: bit_and_iff flag_simps intro!: gr0I\<close>)+
qed

lemma upd_ev_sel [simp]:
  "head (upd_ev e f q) = head q"
  "curTick (upd_ev e f q) = curTick q"
  "async_queue (upd_ev e f q) = async_queue q"
  "ev (upd_ev e f q) = (ev q)(e := f (ev q e))"
  "inParallelMode (upd_ev e f q) = inParallelMode q"
  "onCurQueue (upd_ev e f q) = onCurQueue q"
  "freed (upd_ev e f q) = freed q"
  "eventq.more (upd_ev e f q) = eventq.more q"
  by (simp_all add: upd_ev_def)

lemma ev_order_key:
  "ev_less (m a) (m b) \<longleftrightarrow> key m a < key m b"
  "ev_le (m a) (m b) \<longleftrightarrow> key m a \<le> key m b"
  "ev_eq (m a) (m b) \<longleftrightarrow> key m a = key m b"
  by (auto simp: ev_less_def ev_le_def ev_eq_def key_def less_prod_def' less_eq_prod_def)

lemma chain_cong:
  "(\<And>e. e \<in> set b \<Longrightarrow> nextInBin (m' e) = nextInBin (m e)) \<Longrightarrow> chain m' b = chain m b"
  by (induction m b rule: chain.induct) auto

lemma seg_cong:
  "\<lbrakk>\<And>e. e \<in> set (concat bs) \<Longrightarrow> nextInBin (m' e) = nextInBin (m e);
    \<And>b. b \<in> set bs \<Longrightarrow> nextBin (m' (hd b)) = nextBin (m (hd b))\<rbrakk>
   \<Longrightarrow> seg m' h bs t = seg m h bs t"
  by (induction bs arbitrary: h) (auto cong: chain_cong)

lemma seg_frame:
  assumes "\<And>e. e \<in> set (concat bs) \<Longrightarrow> m' e = m e"
  shows "seg m' h bs t = seg m h bs t"
  using assms
proof (induction bs arbitrary: h)
  case (Cons b bs)
  then have "chain m' b = chain m b" by (intro chain_cong) auto
  moreover have "b \<noteq> [] \<Longrightarrow> m' (hd b) = m (hd b)" using Cons.prems by simp
  ultimately show ?case using Cons by auto
qed simp

lemma seg_append: "seg m h (xs @ ys) t \<longleftrightarrow> (\<exists>u. seg m h xs u \<and> seg m u ys t)"
  by (induction xs arbitrary: h) auto

lemma seg_nonempty: "seg m h bs t \<Longrightarrow> [] \<notin> set bs"
  by (induction bs arbitrary: h) auto

lemma chain_Cons: "b \<noteq> [] \<Longrightarrow> chain m (e # b) \<longleftrightarrow> nextInBin (m e) = Some (hd b) \<and> chain m b"
  by (cases b) auto

lemma seg_head: "seg m h bs None \<Longrightarrow> h = (case bs of [] \<Rightarrow> None | b # _ \<Rightarrow> Some (hd b))"
  by (cases bs) auto

lemma hd_in_concat: "b \<in> set bs \<Longrightarrow> b \<noteq> [] \<Longrightarrow> hd b \<in> set (concat bs)"
  by force

text \<open>Redirecting the \<^verbatim>\<open>nextBin\<close> pointer of the last stack moves the end of a segment.\<close>

lemma seg_redirect:
  assumes "seg m h (xs @ [b]) t" "distinct (concat (xs @ [b]))" "p = hd b"
    and "\<And>e. e \<in> set (concat (xs @ [b])) \<Longrightarrow> nextInBin (m' e) = nextInBin (m e)"
    and "\<And>e. e \<in> set (concat (xs @ [b])) \<Longrightarrow> e \<noteq> p \<Longrightarrow> nextBin (m' e) = nextBin (m e)"
    and "nextBin (m' p) = t'"
  shows "seg m' h (xs @ [b]) t'"
proof -
  from assms(1) obtain u where u: "seg m h xs u" "seg m u [b] t"
    by (auto simp: seg_append)
  from u(2) have b: "b \<noteq> []" by simp
  have xs: "seg m' h xs u"
  proof -
    have "nextBin (m' (hd c)) = nextBin (m (hd c))" if "c \<in> set xs" for c
    proof -
      from that u(1) seg_nonempty have "c \<noteq> []" by metis
      with that have "hd c \<in> set (concat xs)" by (rule hd_in_concat)
      moreover from this assms(2) b have "hd c \<noteq> hd b" by (cases b) auto
      ultimately show ?thesis using assms(3,5) by auto
    qed
    with u(1) assms(4) show ?thesis by (subst seg_cong [of _ _ m]) auto
  qed
  have "chain m' b" using u(2) assms(4) chain_cong [of b m' m] by auto
  with u(2) assms(3,6) xs b show ?thesis by (auto simp: seg_append)
qed

subsection \<open>The walk along the stacks\<close>

lemma bin_walk_seg:
  assumes "seg m cur bs None"
  shows "bin_walk m e prev cur =
    Some (last (prev # map hd (takeWhile (\<lambda>b. key m (hd b) < key m e) bs)),
          (case dropWhile (\<lambda>b. key m (hd b) < key m e) bs of [] \<Rightarrow> None | b # _ \<Rightarrow> Some (hd b)))"
  using assms
proof (induction bs arbitrary: prev cur)
  case Nil
  then show ?case by (subst bin_walk.simps) simp
next
  case (Cons b bs)
  from Cons.prems have cur: "cur = Some (hd b)" and tl: "seg m (nextBin (m (hd b))) bs None"
    by auto
  show ?case
  proof (cases "key m (hd b) < key m e")
    case True
    have "bin_walk m e prev cur = bin_walk m e (hd b) (nextBin (m (hd b)))"
      using True by (subst bin_walk.simps) (simp add: cur ev_order_key)
    also note Cons.IH [OF tl]
    finally show ?thesis using True by simp
  next
    case False
    then show ?thesis by (subst bin_walk.simps) (simp add: cur ev_order_key)
  qed
qed

lemma item_walk_chain:
  assumes "chain m (c # b)" "e \<notin> set (c # b)"
  shows "item_walk m e c (nextInBin (m c)) = Some (last (c # b), None)"
  using assms
proof (induction b arbitrary: c)
  case Nil
  then show ?case by (subst item_walk.simps) simp
next
  case (Cons d b)
  then show ?case by (subst item_walk.simps) simp
qed

lemma item_walk_found:
  assumes "chain m (c # xs @ e # ys)" "e \<notin> set (c # xs)"
  shows "item_walk m e c (nextInBin (m c)) = Some (last (c # xs), Some e)"
  using assms
proof (induction xs arbitrary: c)
  case Nil
  then show ?case by (subst item_walk.simps) simp
next
  case (Cons d xs)
  then show ?case by (subst item_walk.simps) simp
qed

lemma ins_bins_skip:
  "ins_bins m e bs = takeWhile (\<lambda>b. key m (hd b) < key m e) bs @
     ins_bins m e (dropWhile (\<lambda>b. key m (hd b) < key m e) bs)"
  by (induction bs) auto

lemma bins_ok_cong:
  "(\<And>e. e \<in> set (concat bs) \<Longrightarrow> key m' e = key m e) \<Longrightarrow> bins_ok m' bs = bins_ok m bs"
proof -
  assume eq: "\<And>e. e \<in> set (concat bs) \<Longrightarrow> key m' e = key m e"
  show ?thesis
  proof (cases "[] \<in> set bs")
    case False
    have eq': "key m' e = key m e" if "b \<in> set bs" "e \<in> set b" for b e
      using that by (intro eq) auto
    have hd: "key m' (hd b) = key m (hd b)" if "b \<in> set bs" for b
      using that False eq [of "hd b"] hd_in_concat by metis
    have s: "sorted_wrt (\<lambda>b c. key m' (hd b) < key m' (hd c)) bs =
        sorted_wrt (\<lambda>b c. key m (hd b) < key m (hd c)) bs"
      by (rule iffI; erule sorted_wrt_mono_rel [rotated]) (auto simp: hd)
    have "(\<forall>b\<in>set bs. \<forall>e\<in>set b. key m' (hd b) = key m' e) \<longleftrightarrow>
        (\<forall>b\<in>set bs. \<forall>e\<in>set b. key m (hd b) = key m e)"
      by (intro ball_cong refl) (simp add: eq' hd)
    with s show ?thesis by (simp add: bins_ok_def)
  qed (simp add: bins_ok_def)
qed

lemma bins_ok_Cons:
  "bins_ok m (b # bs) \<longleftrightarrow> b \<noteq> [] \<and> distinct b \<and> set b \<inter> set (concat bs) = {} \<and>
     (\<forall>e\<in>set b. key m (hd b) = key m e) \<and> (\<forall>c\<in>set bs. key m (hd b) < key m (hd c)) \<and> bins_ok m bs"
  by (auto simp: bins_ok_def)

lemma set_ins_bins: "set (concat (ins_bins m e bs)) = insert e (set (concat bs))"
  by (induction bs) auto

lemma hd_ins_bins:
  "c \<in> set (ins_bins m e bs) \<Longrightarrow> hd c = e \<or> c \<in> set bs"
  by (induction bs) (auto split: if_splits)

lemma bins_ok_ins:
  "bins_ok m bs \<Longrightarrow> e \<notin> set (concat bs) \<Longrightarrow> bins_ok m (ins_bins m e bs)"
proof (induction bs)
  case Nil
  then show ?case by (simp add: bins_ok_def)
next
  case (Cons b bs)
  then have ih: "bins_ok m (ins_bins m e bs)" by (simp add: bins_ok_Cons)
  from Cons.prems(1) have b: "b \<noteq> []" "distinct b" "set b \<inter> set (concat bs) = {}"
    "\<forall>x\<in>set b. key m (hd b) = key m x" "bins_ok m bs"
    and later: "\<And>c. c \<in> set bs \<Longrightarrow> key m (hd b) < key m (hd c)"
    unfolding bins_ok_Cons by blast+
  from Cons.prems(2) have e: "e \<notin> set b" "e \<notin> set (concat bs)" by auto
  consider "key m (hd b) < key m e" | "key m e < key m (hd b)" | "key m e = key m (hd b)"
    using less_linear by blast
  then show ?case
  proof cases
    case 1
    have "\<forall>c\<in>set (ins_bins m e bs). key m (hd b) < key m (hd c)"
      using hd_ins_bins [of _ m e bs] later 1 by metis
    moreover have "set b \<inter> set (concat (ins_bins m e bs)) = {}"
      unfolding set_ins_bins using e b(3) by blast
    ultimately have "bins_ok m (b # ins_bins m e bs)"
      unfolding bins_ok_Cons using b ih by blast
    with 1 show ?thesis by simp
  next
    case 2
    have "\<forall>c\<in>set (b # bs). key m e < key m (hd c)"
      using later 2 less_trans by auto
    then have "bins_ok m ([e] # b # bs)"
      using Cons.prems unfolding bins_ok_Cons [of m "[e]"] by auto
    with 2 less_not_sym [OF 2] show ?thesis by simp
  next
    case 3
    have "bins_ok m ((e # b) # bs)"
      unfolding bins_ok_Cons using b e later 3 by simp
    with 3 show ?thesis by simp
  qed
qed

lemma takeWhile_all_append:
  "(\<forall>x\<in>set xs. P x) \<Longrightarrow> takeWhile P (xs @ ys) = xs @ takeWhile P ys"
  "(\<forall>x\<in>set xs. P x) \<Longrightarrow> dropWhile P (xs @ ys) = dropWhile P ys"
  by (induction xs) auto

lemma concat_ins_bins:
  "bins_ok m bs \<Longrightarrow> concat (ins_bins m e bs) = place m e (concat bs)"
proof (induction bs)
  case Nil
  then show ?case by (simp add: place_def)
next
  case (Cons b bs)
  from Cons.prems obtain x b' where b: "b = x # b'" by (auto simp: bins_ok_Cons neq_Nil_conv)
  show ?case
  proof (cases "key m (hd b) < key m e")
    case True
    with Cons.prems have "\<forall>x\<in>set b. key m x < key m e" by (auto simp: bins_ok_Cons)
    with Cons True show ?thesis by (simp add: place_def takeWhile_all_append bins_ok_Cons)
  next
    case False
    with b show ?thesis by (simp add: place_def)
  qed
qed

subsection \<open>Insertion refines placing an event in the service order\<close>

lemma insertBefore_sel [simp]:
  "head (insertBefore e cur q) = head q"
  "curTick (insertBefore e cur q) = curTick q"
  "async_queue (insertBefore e cur q) = async_queue q"
  "inParallelMode (insertBefore e cur q) = inParallelMode q"
  "onCurQueue (insertBefore e cur q) = onCurQueue q"
  "freed (insertBefore e cur q) = freed q"
  "eventq.more (insertBefore e cur q) = eventq.more q"
  by (auto simp: insertBefore_def split: option.splits)

lemma insertBefore_ev:
  "x \<noteq> e \<Longrightarrow> ev (insertBefore e cur q) x = ev q x"
  "ewhen (ev (insertBefore e cur q) x) = ewhen (ev q x)"
  "epriority (ev (insertBefore e cur q) x) = epriority (ev q x)"
  "eflags (ev (insertBefore e cur q) x) = eflags (ev q x)"
  by (auto simp: insertBefore_def split: option.splits)

lemma insertBefore_seg:
  assumes "seg (ev q) cur ys None" "e \<notin> set (concat ys)"
    and "ys = [] \<or> \<not> key (ev q) (hd (hd ys)) < key (ev q) e"
    and "nextBin (m e) = nextBin (ev (insertBefore e cur q) e)"
    and "nextInBin (m e) = nextInBin (ev (insertBefore e cur q) e)"
    and "\<And>x. x \<in> set (concat ys) \<Longrightarrow> nextBin (m x) = nextBin (ev q x)"
    and "\<And>x. x \<in> set (concat ys) \<Longrightarrow> nextInBin (m x) = nextInBin (ev q x)"
  shows "seg m (Some e) (ins_bins (ev q) e ys) None"
proof (cases ys)
  case Nil
  with assms show ?thesis by (auto simp: insertBefore_def)
next
  case (Cons y ys')
  have ne: "[] \<notin> set ys" using assms(1) by (rule seg_nonempty)
  have "nextBin (m (hd b)) = nextBin (ev q (hd b))" if "b \<in> set ys" for b
    using that ne assms(6) hd_in_concat by metis
  then have y: "seg m cur ys None"
    using assms(1,7) seg_cong [of ys m "ev q" cur None] by blast
  from Cons assms(1) have cur: "cur = Some (hd y)" and yne: "y \<noteq> []" by auto
  have link: "nextBin (m (hd y)) = nextBin (ev q (hd y))"
    using assms(6) yne Cons by auto
  show ?thesis
    using Cons y assms(3,4,5) cur yne link
    by (auto simp: insertBefore_def ev_order_key chain_Cons)
qed

lemma key_insertBefore [simp]: "key (ev (insertBefore e cur q)) x = key (ev q) x"
  by (simp add: key_def insertBefore_ev)

lemma key_upd_link [simp]:
  "key (m(p := (m p)\<lparr>nextBin := t\<rparr>)) x = key m x"
  "key (m(p := (m p)\<lparr>nextInBin := t\<rparr>)) x = key m x"
  by (auto simp: key_def)

text \<open>What insertion and removal leave alone: everything but the link fields and \<^verbatim>\<open>head\<close>.\<close>

definition links_only :: "('e, 'a) eventq_scheme \<Rightarrow> ('e, 'a) eventq_scheme \<Rightarrow> bool" where
  "links_only q q' \<longleftrightarrow>
     (\<forall>x. ewhen (ev q' x) = ewhen (ev q x) \<and> epriority (ev q' x) = epriority (ev q x) \<and>
          eflags (ev q' x) = eflags (ev q x)) \<and>
     curTick q' = curTick q \<and> async_queue q' = async_queue q \<and>
     inParallelMode q' = inParallelMode q \<and> onCurQueue q' = onCurQueue q \<and>
     freed q' = freed q \<and> eventq.more q' = eventq.more q"

lemma links_only_key: "links_only q q' \<Longrightarrow> key (ev q') = key (ev q)"
  by (auto simp: links_only_def key_def)

lemma links_only_refl [simp]: "links_only q q"
  by (simp add: links_only_def)

lemma links_only_insertBefore: "links_only q (insertBefore e cur q)"
  by (auto simp: links_only_def insertBefore_ev)

lemma links_only_head: "links_only q q' \<Longrightarrow> links_only q (q'\<lparr>head := h\<rparr>)"
  by (simp add: links_only_def)

lemma links_only_upd:
  "links_only q q' \<Longrightarrow> links_only q (upd_ev p (\<lambda>x. x\<lparr>nextBin := t\<rparr>) q')"
  "links_only q q' \<Longrightarrow> links_only q (upd_ev p (\<lambda>x. x\<lparr>nextInBin := t\<rparr>) q')"
  by (simp_all add: links_only_def)

lemma insert_event_seg:
  assumes s: "seg (ev q) (head q) bs None" and ok: "bins_ok (ev q) bs" and e: "e \<notin> set (concat bs)"
  shows "\<exists>q'. insert_event e q = Inr q' \<and> links_only q q' \<and>
    seg (ev q') (head q') (ins_bins (ev q) e bs) None"
proof (cases bs)
  case Nil
  with s show ?thesis by (auto simp: insert_event_def insertBefore_def links_only_def)
next
  case (Cons b0 bs0)
  let ?P = "\<lambda>b. key (ev q) (hd b) < key (ev q) e"
  from Cons s have h: "head q = Some (hd b0)" and b0: "b0 \<noteq> []" by auto
  show ?thesis
  proof (cases "?P b0")
    case False
    let ?q' = "(insertBefore e (Some (hd b0)) q)\<lparr>head := Some e\<rparr>"
    have "insert_event e q = Inr ?q'"
      using False h by (simp add: insert_event_def ev_order_key not_less)
    moreover have "seg (ev ?q') (head ?q') (ins_bins (ev q) e bs) None"
    proof -
      have "seg (ev ?q') (Some e) (ins_bins (ev q) e bs) None"
      proof (rule insertBefore_seg [OF s [unfolded h] e])
        fix x assume "x \<in> set (concat bs)"
        then have "x \<noteq> e" using e by auto
        then show "nextBin (ev ?q' x) = nextBin (ev q x)" "nextInBin (ev ?q' x) = nextInBin (ev q x)"
          by (simp_all add: insertBefore_ev)
      qed (use False Cons in simp_all)
      then show ?thesis by simp
    qed
    ultimately show ?thesis by (blast intro: links_only_head links_only_insertBefore)
  next
    case True
    define xs where "xs = takeWhile ?P bs0"
    define ys where "ys = dropWhile ?P bs0"
    define c where "c = (case ys of [] \<Rightarrow> None | b # _ \<Rightarrow> Some (hd b))"
    define p where "p = last (hd b0 # map hd xs)"
    define q' where "q' = upd_ev p (\<lambda>x. x\<lparr>nextBin := Some e\<rparr>) (insertBefore e c q)"
    have bs: "bs = (b0 # xs) @ ys" using Cons by (simp add: xs_def ys_def)
    obtain u where u: "seg (ev q) (head q) (b0 # xs) u" "seg (ev q) u ys None"
      using s bs seg_append by metis
    then have uc: "u = c" using seg_head [OF u(2)] by (simp add: c_def)
    have ne: "[] \<notin> set (b0 # xs)" using u(1) by (rule seg_nonempty)
    define ws where "ws = butlast (b0 # xs)"
    define w where "w = last (b0 # xs)"
    have split: "b0 # xs = ws @ [w]" unfolding ws_def w_def by (rule append_butlast_last_id [symmetric]) simp
    have pw: "p = hd w" by (simp add: p_def w_def last_map)
    have wne: "w \<noteq> []" using ne split by (metis in_set_conv_decomp)
    then have pin: "p \<in> set (concat (b0 # xs))" using split pw by simp
    have dist: "distinct (concat (b0 # xs))" "set (concat (b0 # xs)) \<inter> set (concat ys) = {}"
      using ok bs by (auto simp: bins_ok_def)
    have en: "e \<notin> set (concat (b0 # xs))" "e \<notin> set (concat ys)" using e bs by auto
    have eq: "insert_event e q = Inr q'"
      using True s Cons
      by (simp add: insert_event_def h ev_order_key not_le bin_walk_seg [of _ _ bs0] q'_def p_def c_def
          xs_def ys_def)
    have "seg (ev q') (head q) (ws @ [w]) (Some e)"
    proof (rule seg_redirect [OF u(1) [unfolded split] _ pw])
      show "distinct (concat (ws @ [w]))" using dist(1) split by simp
    next
      fix x assume "x \<in> set (concat (ws @ [w]))"
      then have "x \<noteq> e" using en(1) split by metis
      then show "nextInBin (ev q' x) = nextInBin (ev q x)"
        and "x \<noteq> p \<Longrightarrow> nextBin (ev q' x) = nextBin (ev q x)"
        by (auto simp: q'_def insertBefore_ev)
    qed (simp add: q'_def)
    moreover have "seg (ev q') (Some e) (ins_bins (ev q) e ys) None"
    proof (rule insertBefore_seg [OF u(2) [unfolded uc] en(2)])
      show "ys = [] \<or> \<not> ?P (hd ys)"
        using hd_dropWhile [of ?P bs0] by (auto simp: ys_def)
      have pe: "p \<noteq> e" using pin en(1) by auto
      then show "nextBin (ev q' e) = nextBin (ev (insertBefore e c q) e)"
        "nextInBin (ev q' e) = nextInBin (ev (insertBefore e c q) e)"
        by (simp_all add: q'_def)
      fix x assume "x \<in> set (concat ys)"
      then have "x \<noteq> p" "x \<noteq> e" using pin dist(2) en(2) by auto
      then show "nextBin (ev q' x) = nextBin (ev q x)" "nextInBin (ev q' x) = nextInBin (ev q x)"
        by (simp_all add: q'_def insertBefore_ev)
    qed
    moreover have "ins_bins (ev q) e bs = (ws @ [w]) @ ins_bins (ev q) e ys"
      using True ins_bins_skip [of "ev q" e bs0] by (simp add: Cons xs_def ys_def flip: split)
    moreover have "head q' = head q" by (simp add: q'_def)
    ultimately have "seg (ev q') (head q') (ins_bins (ev q) e bs) None"
      using seg_append by metis
    with eq show ?thesis by (auto simp: q'_def intro: links_only_upd links_only_insertBefore)
  qed
qed

subsection \<open>Removal refines deleting an event from the service order\<close>

lemma chain_delete:
  assumes "chain m (c # xs @ e # ys)" "distinct (c # xs @ e # ys)" "p = last (c # xs)"
  shows "chain (m(p := (m p)\<lparr>nextInBin := nextInBin (m e)\<rparr>)) (c # xs @ ys)"
  using assms
proof (induction xs arbitrary: c)
  case Nil
  then have p: "p = c" by simp
  show ?case
  proof (cases ys)
    case Nil
    with Nil.prems p show ?thesis by simp
  next
    case (Cons y ys')
    have "chain (m(c := (m c)\<lparr>nextInBin := nextInBin (m e)\<rparr>)) (y # ys') = chain m (y # ys')"
      by (rule chain_cong) (use Nil.prems Cons in auto)
    with Nil.prems Cons p show ?thesis by (simp add: fun_upd_def)
  qed
next
  case (Cons d xs)
  then have pl: "p = last (d # xs)" "p \<noteq> c" by auto
  have "chain (m(p := (m p)\<lparr>nextInBin := nextInBin (m e)\<rparr>)) (d # xs @ ys)"
    using Cons by (intro Cons.IH) auto
  moreover have "nextInBin ((m(p := (m p)\<lparr>nextInBin := nextInBin (m e)\<rparr>)) c) = Some d"
    using Cons.prems pl by simp
  ultimately show ?case unfolding append_Cons chain.simps by (rule conjI [rotated])
qed

lemma removeItem_missing:
  assumes "chain (ev q) b" "b \<noteq> []" "e \<notin> set b"
  shows "removeItem e (hd b) q = Inl (Panic ''event not found!'')"
proof (cases b)
  case (Cons c b')
  with assms item_walk_chain [of "ev q" c b' e] show ?thesis by (auto simp: removeItem_def)
qed (use assms in simp)

text \<open>
  What \<^verbatim>\<open>removeItem\<close> returns for a member of the stack \<open>b\<close> whose successor bin is \<open>t\<close>:
  the pointer that replaces the top, from which the remaining stack (if any) and \<open>t\<close> are reached.
\<close>

lemma removeItem_seg:
  assumes c: "chain (ev q) b" and d: "distinct b" and e: "e \<in> set b"
  shows "\<exists>topp q'. removeItem e (hd b) q = Inr (topp, q') \<and> links_only q q' \<and> head q' = head q \<and>
    (\<forall>x. x \<notin> set b \<longrightarrow> ev q' x = ev q x) \<and>
    seg (ev q') topp (del_bins e [b]) (nextBin (ev q (hd b)))"
proof -
  from e obtain xs ys where b: "b = xs @ e # ys" "e \<notin> set xs"
    by (metis split_list_first)
  show ?thesis
  proof (cases xs)
    case Nil
    show ?thesis
    proof (cases ys)
      case Nil
      with b \<open>xs = []\<close> c show ?thesis
        by (auto simp: removeItem_def del_bins_def)
    next
      case (Cons y ys')
      let ?q' = "upd_ev y (\<lambda>x. x\<lparr>nextBin := nextBin (ev q e)\<rparr>) q"
      have "removeItem e (hd b) q = Inr (Some y, ?q')"
        using b \<open>xs = []\<close> c Cons by (simp add: removeItem_def)
      moreover have "chain (ev ?q') (y # ys') = chain (ev q) (y # ys')"
        by (rule chain_cong) simp
      moreover have "links_only q ?q'" by (simp add: links_only_upd)
      moreover have "\<forall>x. x \<notin> set b \<longrightarrow> ev ?q' x = ev q x" using b Cons by auto
      moreover have "del_bins e [b] = [y # ys']" "hd b = e"
        using b \<open>xs = []\<close> Cons by (simp_all add: del_bins_def)
      moreover have "chain (ev q) (y # ys')" using c b \<open>xs = []\<close> Cons by simp
      ultimately show ?thesis by auto
    qed
  next
    case (Cons z zs)
    define p where "p = last (z # zs)"
    let ?q' = "upd_ev p (\<lambda>x. x\<lparr>nextInBin := nextInBin (ev q e)\<rparr>) q"
    have "item_walk (ev q) e z (nextInBin (ev q z)) = Some (p, Some e)"
      using item_walk_found [of "ev q" z zs e ys] c b Cons by (simp add: p_def)
    then have eq: "removeItem e (hd b) q = Inr (Some z, ?q')"
      using b Cons by (auto simp: removeItem_def)
    have rem: "del_bins e [b] = [z # zs @ ys]"
      using b Cons by (auto simp: del_bins_def remove1_append)
    have "chain (ev ?q') (z # zs @ ys)"
      using chain_delete [of "ev q" z zs e ys p] c d b Cons by (simp add: p_def)
    moreover have hb: "hd b = z" using b Cons by simp
    ultimately have "seg (ev ?q') (Some z) (del_bins e [b]) (nextBin (ev q (hd b)))"
      unfolding rem hb by simp
    moreover have "\<forall>x. x \<notin> set b \<longrightarrow> ev ?q' x = ev q x"
      using b Cons by (auto simp: p_def)
    ultimately show ?thesis using eq by (auto intro: links_only_upd)
  qed
qed

lemma locate_bin:
  assumes ok: "bins_ok m bs" and e: "e \<in> set (concat bs)"
  obtains xs y ys where "bs = xs @ y # ys" "e \<in> set y" "key m (hd y) = key m e"
    "takeWhile (\<lambda>b. key m (hd b) < key m e) bs = xs"
    "dropWhile (\<lambda>b. key m (hd b) < key m e) bs = y # ys"
proof -
  from e obtain y where y: "y \<in> set bs" "e \<in> set y" by auto
  then obtain xs ys where bs: "bs = xs @ y # ys" by (meson split_list)
  have ky: "key m (hd y) = key m e" using ok y by (auto simp: bins_ok_def)
  have lt: "\<forall>b\<in>set xs. key m (hd b) < key m e"
    using ok bs ky by (auto simp: bins_ok_def sorted_wrt_append)
  show ?thesis
    by (rule that [OF bs y(2) ky]) (use lt ky bs in \<open>simp_all add: takeWhile_all_append\<close>)
qed

lemma del_bins_simps [simp]:
  "del_bins e [] = []"
  "del_bins e (xs @ ys) = del_bins e xs @ del_bins e ys"
  by (simp_all add: del_bins_def)

lemma del_bins_absent:
  "e \<notin> set (concat bs) \<Longrightarrow> [] \<notin> set bs \<Longrightarrow> del_bins e bs = bs"
  by (induction bs) (auto simp: del_bins_def remove1_idem)

lemma set_del_bins: "set (concat (del_bins e bs)) \<subseteq> set (concat bs)"
proof -
  have "concat (del_bins e bs) = concat (map (remove1 e) bs)"
    by (simp add: del_bins_def concat_filter_nonempty)
  then show ?thesis using set_remove1_subset by fastforce
qed

lemma remove_event_seg:
  assumes s: "seg (ev q) (head q) bs None" and ok: "bins_ok (ev q) bs" and e: "e \<in> set (concat bs)"
  shows "\<exists>q'. remove_event e q = Inr q' \<and> links_only q q' \<and>
    seg (ev q') (head q') (del_bins e bs) None"
proof -
  let ?P = "\<lambda>b. key (ev q) (hd b) < key (ev q) e"
  obtain xs y ys where bs: "bs = xs @ y # ys" and y: "e \<in> set y" and ky: "key (ev q) (hd y) = key (ev q) e"
    and tw: "takeWhile ?P bs = xs" and dw: "dropWhile ?P bs = y # ys"
    using locate_bin [OF ok e] .
  have ne: "[] \<notin> set bs" using s by (rule seg_nonempty)
  have dist: "distinct y" "set y \<inter> set (concat xs) = {}" "set y \<inter> set (concat ys) = {}"
    "set (concat xs) \<inter> set (concat ys) = {}" "distinct (concat xs)"
    using ok bs by (auto simp: bins_ok_def)
  obtain u where u: "seg (ev q) (head q) xs u" "seg (ev q) u (y # ys) None"
    using s bs seg_append by metis
  from u(2) have uy: "u = Some (hd y)" "chain (ev q) y" "seg (ev q) (nextBin (ev q (hd y))) ys None"
    by auto
  obtain topp q1 where r: "removeItem e (hd y) q = Inr (topp, q1)" "links_only q q1" "head q1 = head q"
    "\<And>x. x \<notin> set y \<Longrightarrow> ev q1 x = ev q x" "seg (ev q1) topp (del_bins e [y]) (nextBin (ev q (hd y)))"
    using removeItem_seg [OF uy(2) dist(1) y] by blast
  have del: "del_bins e bs = xs @ del_bins e [y] @ ys"
  proof -
    have "e \<notin> set (concat xs)" "e \<notin> set (concat ys)" using y dist(2,3) by blast+
    then have "del_bins e xs = xs" "del_bins e ys = ys"
      using ne bs by (simp_all add: del_bins_absent)
    then show ?thesis using bs del_bins_simps(2) [of e "[y]" ys] by simp
  qed
  show ?thesis
  proof (cases xs)
    case Nil
    let ?q' = "q1\<lparr>head := topp\<rparr>"
    have h: "head q = Some (hd y)" using u(1) uy(1) Nil by simp
    have "remove_event e q = Inr ?q'"
      by (simp add: remove_event_def h ev_order_key ky r(1))
    moreover have "seg (ev q1) (nextBin (ev q (hd y))) ys None"
      using uy(3) dist(3) r(4) by (subst seg_frame [of _ _ "ev q"]) auto
    ultimately show ?thesis
      using r(2,5) del Nil by (auto simp: seg_append intro: links_only_head)
  next
    case (Cons b0 xs0)
    define p where "p = last (hd b0 # map hd xs0)"
    define ws where "ws = butlast xs"
    define w where "w = last xs"
    have split: "xs = ws @ [w]" unfolding ws_def w_def using Cons by simp
    have pw: "p = hd w" by (simp add: p_def w_def Cons last_map)
    have wne: "w \<noteq> []" using ne bs split by auto
    have pin: "p \<in> set (concat xs)" using split pw wne by simp
    have b0: "head q = Some (hd b0)" "seg (ev q) (nextBin (ev q (hd b0))) (xs0 @ y # ys) None"
      using s bs Cons by auto
    have k0: "?P b0" using tw Cons by (metis takeWhile_eq_Nil_iff list.sel(1) set_takeWhileD list.set_intros(1))
    have walk: "takeWhile ?P (xs0 @ y # ys) = xs0" "dropWhile ?P (xs0 @ y # ys) = y # ys"
      using tw dw bs Cons k0 by auto
    define q' where "q' = upd_ev p (\<lambda>x. x\<lparr>nextBin := topp\<rparr>) q1"
    have "remove_event e q = Inr q'"
      using k0 less_imp_neq [OF k0] by (simp add: remove_event_def b0(1) ev_order_key bin_walk_seg [OF b0(2)] walk ky r(1)
          q'_def p_def)
    moreover have "seg (ev q') (head q) (ws @ [w]) topp"
    proof (rule seg_redirect [OF u(1) [unfolded split] _ pw])
      show "distinct (concat (ws @ [w]))" using dist(5) split by simp
    next
      fix x assume "x \<in> set (concat (ws @ [w]))"
      then have "x \<notin> set y" using dist(2) split by auto
      then show "nextInBin (ev q' x) = nextInBin (ev q x)"
        and "x \<noteq> p \<Longrightarrow> nextBin (ev q' x) = nextBin (ev q x)"
        by (auto simp: q'_def r(4))
    qed (simp add: q'_def)
    moreover have "seg (ev q') topp (del_bins e [y]) (nextBin (ev q (hd y)))"
    proof -
      have "x \<noteq> p" if "x \<in> set (concat (del_bins e [y]))" for x
        using that set_del_bins [of e "[y]"] pin dist(2) by auto
      then have "ev q' x = ev q1 x" if "x \<in> set (concat (del_bins e [y]))" for x
        using that by (simp add: q'_def)
      with r(5) seg_frame [of "del_bins e [y]" "ev q'" "ev q1"] show ?thesis by blast
    qed
    moreover have "seg (ev q') (nextBin (ev q (hd y))) ys None"
    proof -
      have "x \<noteq> p \<and> x \<notin> set y" if "x \<in> set (concat ys)" for x
        using that pin dist(3,4) by auto
      then have "ev q' x = ev q x" if "x \<in> set (concat ys)" for x
        using that by (simp add: q'_def r(4))
      with uy(3) seg_frame [of ys "ev q'" "ev q"] show ?thesis by blast
    qed
    ultimately show ?thesis
      using r(2,3) del split by (auto simp: seg_append q'_def intro: links_only_upd)
  qed
qed

lemma del_bins_Cons:
  "del_bins e (b # bs) = (if remove1 e b = [] then del_bins e bs else remove1 e b # del_bins e bs)"
  by (simp add: del_bins_def)

lemma bins_ok_del:
  assumes "bins_ok m bs" shows "bins_ok m (del_bins e bs)"
  using assms
proof (induction bs)
  case (Cons b bs)
  then have ih: "bins_ok m (del_bins e bs)" by (simp add: bins_ok_Cons)
  show ?case
  proof (cases "remove1 e b = []")
    case False
    let ?b = "remove1 e b"
    have k: "key m x = key m (hd b)" if "x \<in> set b" for x
      using Cons.prems that unfolding bins_ok_Cons by metis
    have hb: "hd ?b \<in> set b" using False by (meson hd_in_set notin_set_remove1)
    have "key m (hd b) < key m (hd c)" if c: "c \<in> set (del_bins e bs)" for c
    proof -
      obtain c0 where c0: "c0 \<in> set bs" "c = remove1 e c0" "c \<noteq> []"
        using c by (auto simp: del_bins_def)
      then have "hd c \<in> set c0" by (metis hd_in_set notin_set_remove1)
      then have "key m (hd c) = key m (hd c0)" using Cons.prems c0(1)
        unfolding bins_ok_def by (metis list.set_intros(2))
      with Cons.prems c0(1) show ?thesis by (simp add: bins_ok_Cons)
    qed
    moreover have "key m (hd ?b) = key m x" if "x \<in> set ?b" for x
      using that hb k by (metis notin_set_remove1)
    moreover have "set ?b \<inter> set (concat (del_bins e bs)) = {}"
      using Cons.prems set_del_bins [of e bs] set_remove1_subset [of e b] unfolding bins_ok_Cons by blast
    ultimately show ?thesis
      using False ih Cons.prems k [OF hb] by (simp add: del_bins_Cons bins_ok_Cons)
  qed (simp add: del_bins_Cons ih)
qed simp

lemma concat_del_bins:
  assumes "distinct (concat bs)" shows "concat (del_bins e bs) = remove1 e (concat bs)"
proof -
  have eq: "map (remove1 e) bs = map (filter (\<lambda>x. x \<noteq> e)) bs"
    using assms by (intro map_cong refl remove1_eq_filter) (simp add: distinct_concat_iff)
  have "concat (del_bins e bs) = concat (map (remove1 e) bs)"
    by (simp add: del_bins_def concat_filter_nonempty)
  also have "\<dots> = concat (map (filter (\<lambda>x. x \<noteq> e)) bs)" by (simp only: eq)
  also have "\<dots> = filter (\<lambda>x. x \<noteq> e) (concat bs)" by (simp add: filter_concat)
  finally show ?thesis using assms by (simp add: remove1_eq_filter)
qed

subsection \<open>The queue as a list in service order\<close>

lemma represents_sorted:
  assumes "represents q xs"
  shows "distinct xs" "sorted_wrt (\<lambda>a b. key (ev q) a \<le> key (ev q) b) xs"
proof -
  from assms obtain bs where bs: "bins_ok (ev q) bs" "concat bs = xs" by (auto simp: represents_def)
  then show "distinct xs" by (simp add: bins_ok_def)
  have "sorted_wrt (\<lambda>a b. key m a \<le> key m b) (concat bs)" if "bins_ok m bs" for m :: "'a \<Rightarrow> 'a event"
    using that
  proof (induction bs)
    case (Cons b bs)
    have k: "key m x = key m (hd b)" if "x \<in> set b" for x
      using Cons.prems that unfolding bins_ok_Cons by metis
    have "sorted_wrt (\<lambda>a b. key m a \<le> key m b) b"
      by (simp add: sorted_wrt_iff_nth_less k)
    moreover have "key m x \<le> key m y" if "x \<in> set b" "y \<in> set (concat bs)" for x y
    proof -
      obtain c where c: "c \<in> set bs" "y \<in> set c" using \<open>y \<in> set (concat bs)\<close> by auto
      then have "key m (hd c) = key m y" using Cons.prems by (auto simp: bins_ok_def)
      moreover have "key m (hd b) < key m (hd c)" using Cons.prems c by (simp add: bins_ok_Cons)
      ultimately show ?thesis using k [OF that(1)] by simp
    qed
    ultimately show ?case using Cons by (auto simp: sorted_wrt_append bins_ok_Cons)
  qed simp
  with bs show "sorted_wrt (\<lambda>a b. key (ev q) a \<le> key (ev q) b) xs" by blast
qed

lemma insert_represents:
  assumes "represents q xs" "e \<notin> set xs"
  obtains q' where "insert_event e q = Inr q'" "links_only q q'" "represents q' (place (ev q) e xs)"
proof -
  from assms obtain bs where bs: "seg (ev q) (head q) bs None" "bins_ok (ev q) bs" "concat bs = xs"
    by (auto simp: represents_def)
  with assms insert_event_seg [of q bs e] obtain q' where q': "insert_event e q = Inr q'" "links_only q q'"
    "seg (ev q') (head q') (ins_bins (ev q) e bs) None" by blast
  moreover have "bins_ok (ev q') (ins_bins (ev q) e bs)"
    using bins_ok_ins [OF bs(2), of e] bs(3) assms(2) q'(2)
    by (subst bins_ok_cong [of _ _ "ev q"]) (simp_all add: links_only_key)
  ultimately show ?thesis
    using that [of q'] concat_ins_bins [OF bs(2), of e] bs(3) unfolding represents_def by blast
qed

lemma remove_represents:
  assumes "represents q xs" "e \<in> set xs"
  obtains q' where "remove_event e q = Inr q'" "links_only q q'" "represents q' (remove1 e xs)"
proof -
  from assms obtain bs where bs: "seg (ev q) (head q) bs None" "bins_ok (ev q) bs" "concat bs = xs"
    by (auto simp: represents_def)
  with assms remove_event_seg [of q bs e] obtain q' where q': "remove_event e q = Inr q'" "links_only q q'"
    "seg (ev q') (head q') (del_bins e bs) None" by blast
  moreover have "bins_ok (ev q') (del_bins e bs)"
    using bins_ok_del [OF bs(2), of e] q'(2)
    by (subst bins_ok_cong [of _ _ "ev q"]) (simp_all add: links_only_key)
  moreover have "concat (del_bins e bs) = remove1 e xs"
    using bs by (simp add: concat_del_bins bins_ok_def)
  ultimately show ?thesis using that [of q'] unfolding represents_def by blast
qed

lemma remove_missing:
  assumes "represents q xs" "e \<notin> set xs"
  shows "remove_event e q = Inl (Panic ''event not found!'')"
proof -
  from assms obtain bs where bs: "seg (ev q) (head q) bs None" "bins_ok (ev q) bs" "concat bs = xs"
    by (auto simp: represents_def)
  show ?thesis
  proof (cases bs)
    case Nil
    with bs show ?thesis by (simp add: remove_event_def)
  next
    case (Cons b0 bs0)
    let ?P = "\<lambda>b. key (ev q) (hd b) < key (ev q) e"
    have mem: "removeItem e (hd b) q = Inl (Panic ''event not found!'')"
      if "b \<in> set bs" "chain (ev q) b" for b
      using that bs(2,3) assms(2) by (intro removeItem_missing) (auto simp: bins_ok_def)
    have s0: "seg (ev q) (nextBin (ev q (hd b0))) bs0 None" using bs(1) Cons by simp
    have h: "head q = Some (hd b0)" "chain (ev q) b0" using bs(1) Cons by auto
    show ?thesis
    proof (cases "dropWhile ?P bs0")
      case Nil
      then show ?thesis using mem [of b0] h Cons
        by (simp add: remove_event_def ev_order_key bin_walk_seg [OF s0] del: dropWhile_eq_Nil_conv)
    next
      case (Cons y ys)
      then have bs0: "bs0 = takeWhile ?P bs0 @ y # ys" by (metis takeWhile_dropWhile_id)
      then have "chain (ev q) y" using s0 seg_append by (metis seg.simps(2))
      moreover have "y \<in> set bs" using bs0 \<open>bs = b0 # bs0\<close> by (metis in_set_conv_decomp list.set_intros(2))
      ultimately show ?thesis using mem [of b0] mem [of y] h \<open>bs = b0 # bs0\<close> Cons
        by (simp add: remove_event_def ev_order_key bin_walk_seg [OF s0])
    qed
  qed
qed

lemma service_pop_represents:
  assumes "represents q (x # xs)"
  obtains q' where "service_pop q = Inr (x, q')" "represents q' xs" "links_only (clearFlag x Scheduled q) q'"
proof -
  from assms obtain bs where bs: "seg (ev q) (head q) bs None" "bins_ok (ev q) bs" "concat bs = x # xs"
    by (auto simp: represents_def)
  then obtain b bs0 where b: "bs = b # bs0" by (cases bs) auto
  obtain b' where xb: "b = x # b'" "xs = b' @ concat bs0"
    using bs b by (cases b) (auto simp: bins_ok_def)
  have h: "head q = Some x" "seg (ev q) (nextBin (ev q x)) bs0 None" "chain (ev q) (x # b')"
    using bs(1) b xb by auto
  have ok: "bins_ok (ev q) bs0" "x \<notin> set b'" "set b' \<inter> set (concat bs0) = {}" "distinct b'"
    "x \<notin> set (concat bs0)"
    using bs(2) b xb by (auto simp: bins_ok_Cons)
  let ?q1 = "clearFlag x Scheduled q"
  show ?thesis
  proof (cases b')
    case Nil
    let ?q' = "?q1\<lparr>head := nextBin (ev q x)\<rparr>"
    have "seg (ev ?q') (head ?q') bs0 None"
      using h(2) ok(5) by (subst seg_frame [of _ _ "ev q"]) (auto simp: clearFlag_def)
    moreover have "bins_ok (ev ?q') bs0"
      using ok(1) by (subst bins_ok_cong [of _ _ "ev q"]) (auto simp: clearFlag_def key_def)
    ultimately have "represents ?q' xs" using xb Nil by (auto simp: represents_def)
    moreover have "service_pop q = Inr (x, ?q')"
      using h Nil by (simp add: service_pop_def clearFlag_def)
    ultimately show ?thesis using that [of ?q'] by (simp add: links_only_head)
  next
    case (Cons n ns)
    let ?q' = "(upd_ev n (\<lambda>z. z\<lparr>nextBin := nextBin (ev q x)\<rparr>) ?q1)\<lparr>head := Some n\<rparr>"
    have "seg (ev ?q') (nextBin (ev q x)) bs0 None"
      using h(2) ok(3,5) Cons by (subst seg_frame [of _ _ "ev q"]) (auto simp: clearFlag_def)
    moreover have "chain (ev ?q') b' = chain (ev q) b'"
      by (rule chain_cong) (auto simp: clearFlag_def)
    ultimately have "seg (ev ?q') (head ?q') (b' # bs0) None"
      using h(3) Cons ok(2) by (simp add: clearFlag_def)
    moreover have "bins_ok (ev ?q') (b' # bs0)"
    proof -
      have k: "key (ev q) y = key (ev q) x" if "y \<in> set b'" for y
        using bs(2) b xb(1) that by (simp add: bins_ok_Cons)
      have "bins_ok (ev q) (b' # bs0)"
        using bs(2) b xb Cons k by (simp add: bins_ok_Cons)
      then show ?thesis
        by (subst bins_ok_cong [of _ _ "ev q"]) (auto simp: clearFlag_def key_def)
    qed
    ultimately have "represents ?q' xs"
      unfolding represents_def xb(2) by (metis concat.simps(2))
    moreover have "service_pop q = Inr (x, ?q')"
      using h Cons by (simp add: service_pop_def clearFlag_def)
    ultimately show ?thesis using that [of ?q'] by (simp add: links_only_head links_only_upd)
  qed
qed

lemma represents_frame:
  assumes "represents q xs" "head q' = head q"
    and "\<And>x. x \<in> set xs \<Longrightarrow> nextBin (ev q' x) = nextBin (ev q x) \<and>
      nextInBin (ev q' x) = nextInBin (ev q x) \<and> key (ev q') x = key (ev q) x"
  shows "represents q' xs"
proof -
  from assms(1) obtain bs where bs: "seg (ev q) (head q) bs None" "bins_ok (ev q) bs" "concat bs = xs"
    by (auto simp: represents_def)
  have "hd b \<in> set xs" if "b \<in> set bs" for b
    using that bs seg_nonempty [OF bs(1)] hd_in_concat by metis
  then have "seg (ev q') (head q') bs None"
    using bs assms(2,3) by (subst seg_cong [of _ _ "ev q"]) auto
  moreover have "bins_ok (ev q') bs"
    using bs assms(3) by (subst bins_ok_cong [of _ _ "ev q"]) auto
  ultimately show ?thesis using bs(3) by (auto simp: represents_def)
qed

subsection \<open>The invariant of the queue and its operations\<close>

definition eq_wf :: "('e, 'a) eventq_scheme \<Rightarrow> bool" where
  "eq_wf q \<longleftrightarrow> (\<exists>xs. represents q xs \<and> distinct (xs @ async_queue q) \<and>
     (\<forall>e. scheduled q e \<longleftrightarrow> e \<in> set xs \<union> set (async_queue q)))"

text \<open>What every operation of the queue keeps: the time, the client's part of the state,
  the priorities and the initialisation mark of every event.\<close>

definition keeps :: "('e, 'a) eventq_scheme \<Rightarrow> ('e, 'a) eventq_scheme \<Rightarrow> bool" where
  "keeps q q' \<longleftrightarrow> curTick q' = curTick q \<and> inParallelMode q' = inParallelMode q \<and>
     onCurQueue q' = onCurQueue q \<and> eventq.more q' = eventq.more q \<and>
     (\<forall>x. initialized q' x = initialized q x \<and> epriority (ev q' x) = epriority (ev q x) \<and>
          isExitEvent q' x = isExitEvent q x)"

lemma keeps_refl [simp]: "keeps q q"
  by (simp add: keeps_def)

lemma keeps_trans [trans]: "keeps q r \<Longrightarrow> keeps r s \<Longrightarrow> keeps q s"
  by (simp add: keeps_def)

lemma keeps_links_only: "links_only q q' \<Longrightarrow> keeps q q'"
  by (auto simp: links_only_def keeps_def initialized_def isExitEvent_def)

lemma scheduled_links_only: "links_only q q' \<Longrightarrow> scheduled q' x = scheduled q x"
  by (simp add: links_only_def scheduled_def)

lemma keeps_basic [simp]:
  "keeps q (setWhen e w q)"
  "keeps q (setFlag e Scheduled q)"
  "keeps q (clearFlag e Scheduled q)"
  "keeps q (clearFlag e Squashed q)"
  "keeps q (release e q)"
  "keeps q (asyncInsert e q)"
  by (auto simp: keeps_def setWhen_def setFlag_def clearFlag_def release_def asyncInsert_def
      initialized_def isExitEvent_def flag_simps)

lemma keeps_step:
  "keeps q r \<Longrightarrow> keeps q (setWhen e w r)"
  "keeps q r \<Longrightarrow> keeps q (setFlag e Scheduled r)"
  "keeps q r \<Longrightarrow> keeps q (clearFlag e Scheduled r)"
  "keeps q r \<Longrightarrow> keeps q (clearFlag e Squashed r)"
  "keeps q r \<Longrightarrow> keeps q (release e r)"
  "keeps q r \<Longrightarrow> keeps q (asyncInsert e r)"
  "keeps q r \<Longrightarrow> links_only r r' \<Longrightarrow> keeps q r'"
  by (erule keeps_trans; simp add: keeps_links_only)+

lemma scheduled_basic [simp]:
  "scheduled (setWhen e w q) x = scheduled q x"
  "scheduled (setFlag e Scheduled q) x \<longleftrightarrow> x = e \<or> scheduled q x"
  "scheduled (clearFlag e Scheduled q) x \<longleftrightarrow> x \<noteq> e \<and> scheduled q x"
  "scheduled (clearFlag e Squashed q) x = scheduled q x"
  "scheduled (release e q) x = scheduled q x"
  "scheduled (asyncInsert e q) x = scheduled q x"
  by (auto simp: scheduled_def setWhen_def setFlag_def clearFlag_def release_def asyncInsert_def
      flag_simps)

lemma async_basic [simp]:
  "async_queue (setWhen e w q) = async_queue q"
  "async_queue (setFlag e m q) = async_queue q"
  "async_queue (clearFlag e m q) = async_queue q"
  "async_queue (release e q) = async_queue q"
  "async_queue (asyncInsert e q) = async_queue q @ [e]"
  by (simp_all add: setWhen_def setFlag_def clearFlag_def release_def asyncInsert_def)

lemma represents_basic:
  "represents q xs \<Longrightarrow> e \<notin> set xs \<Longrightarrow> represents (setWhen e w q) xs"
  "represents q xs \<Longrightarrow> represents (setFlag e m q) xs"
  "represents q xs \<Longrightarrow> represents (clearFlag e m q) xs"
  "represents q xs \<Longrightarrow> represents (release e q) xs"
  "represents q xs \<Longrightarrow> represents (asyncInsert e q) xs"
  by (erule represents_frame;
      auto simp: setWhen_def setFlag_def clearFlag_def release_def asyncInsert_def key_def)+

lemma set_place [simp]: "set (place m e xs) = insert e (set xs)"
  by (auto simp: place_def dest: set_takeWhileD set_dropWhileD)
    (metis takeWhile_dropWhile_id Un_iff set_append)

lemma distinct_place: "distinct xs \<Longrightarrow> e \<notin> set xs \<Longrightarrow> distinct (place m e xs)"
proof -
  assume "distinct xs" "e \<notin> set xs"
  moreover have "mset (place m e xs) = mset (e # xs)"
    by (simp add: place_def) (metis mset_append takeWhile_dropWhile_id)
  ultimately show ?thesis by (metis distinct.simps(2) mset_eq_imp_distinct_iff)
qed

lemma schedule_spec:
  assumes wf: "eq_wf q" and t: "curTick q \<le> w" and ns: "\<not> scheduled q e" and i: "initialized q e"
  obtains q' where "schedule e w g q = Inr q'" "eq_wf q'" "keeps q q'"
    "\<And>x. scheduled q' x \<longleftrightarrow> x = e \<or> scheduled q x" "ewhen (ev q' e) = w"
    "\<not> inParallelMode q \<Longrightarrow> async_queue q' = async_queue q"
    "\<And>xs. represents q xs \<Longrightarrow> \<not> inParallelMode q \<Longrightarrow> e \<notin> set xs \<Longrightarrow>
      represents q' (place (ev (setWhen e w q)) e xs)"
proof -
  from wf obtain xs where xs: "represents q xs" "distinct (xs @ async_queue q)"
    "\<And>x. scheduled q x \<longleftrightarrow> x \<in> set xs \<union> set (async_queue q)" by (auto simp: eq_wf_def)
  with ns have e: "e \<notin> set xs" "e \<notin> set (async_queue q)" by auto
  let ?q1 = "setWhen e w q"
  have par: "inParallelMode ?q1 = inParallelMode q" "onCurQueue ?q1 = onCurQueue q"
    by (simp_all add: setWhen_def)
  have w1: "ewhen (ev ?q1 e) = w" by (simp add: setWhen_def)
  have r1: "represents ?q1 xs" using xs(1) e(1) by (rule represents_basic)
  show ?thesis
  proof (cases "inParallelMode q \<and> (\<not> onCurQueue q \<or> g)")
    case True
    define q' where "q' = setFlag e Scheduled (asyncInsert e ?q1)"
    have eq: "schedule e w g q = Inr q'"
      using True t ns i par by (simp add: schedule_def q'_def)
    have rep: "represents q' xs" unfolding q'_def using r1 by (intro represents_basic(2,5))
    have aq: "async_queue q' = async_queue q @ [e]" by (simp add: q'_def)
    have sch: "scheduled q' x \<longleftrightarrow> x = e \<or> scheduled q x" for x by (simp add: q'_def)
    have "distinct (xs @ async_queue q')" using xs(2) e by (simp add: aq)
    moreover have "\<forall>x. scheduled q' x \<longleftrightarrow> x \<in> set xs \<union> set (async_queue q')"
      by (auto simp: sch aq xs(3))
    ultimately have wf': "eq_wf q'" using rep unfolding eq_wf_def by blast
    have k: "keeps q q'" unfolding q'_def by (intro keeps_step(1-6) keeps_refl)
    have w': "ewhen (ev q' e) = w" by (simp add: setFlag_def asyncInsert_def w1 q'_def)
    show ?thesis
    proof (rule that [of q'])
      show "scheduled q' x \<longleftrightarrow> x = e \<or> scheduled q x" for x by (rule sch)
    qed (use eq wf' k w' True in simp_all)
  next
    case False
    obtain q2 where q2: "insert_event e ?q1 = Inr q2" "links_only ?q1 q2"
      "represents q2 (place (ev ?q1) e xs)"
      using insert_represents [OF r1 e(1)] by blast
    define q' where "q' = setFlag e Scheduled q2"
    have eq: "schedule e w g q = Inr q'"
      using False t ns i par q2(1) by (auto simp: schedule_def q'_def)
    have aq: "async_queue q' = async_queue q"
      using q2(2) by (simp add: links_only_def q'_def)
    have sch: "scheduled q' x \<longleftrightarrow> x = e \<or> scheduled q x" for x
      by (simp add: scheduled_links_only [OF q2(2)] q'_def)
    have rep: "represents q' (place (ev ?q1) e xs)"
      unfolding q'_def using q2(3) by (rule represents_basic)
    have dis: "distinct (place (ev ?q1) e xs @ async_queue q')"
      using xs(2) e by (auto simp: distinct_place aq)
    have "\<forall>x. scheduled q' x \<longleftrightarrow> x \<in> set (place (ev ?q1) e xs) \<union> set (async_queue q')"
      by (auto simp: sch aq xs(3))
    with rep dis have wf': "eq_wf q'" unfolding eq_wf_def by blast
    have k: "keeps q q'"
      unfolding q'_def by (rule keeps_step(2), rule keeps_step(7) [OF _ q2(2)], rule keeps_step(1)) simp
    have w': "ewhen (ev q' e) = w" using q2(2) w1 by (simp add: setFlag_def links_only_def q'_def)
    have p': "represents q' (place (ev ?q1) e ys)" if ry: "represents q ys" and ey: "e \<notin> set ys" for ys
    proof -
      have r: "represents ?q1 ys" using ry ey by (rule represents_basic)
      obtain q3 where "insert_event e ?q1 = Inr q3" "represents q3 (place (ev ?q1) e ys)"
        using insert_represents [OF r ey] by blast
      with q2(1) show ?thesis unfolding q'_def by (auto intro: represents_basic(2))
    qed
    show ?thesis
    proof (rule that [of q'])
      show "scheduled q' x \<longleftrightarrow> x = e \<or> scheduled q x" for x by (rule sch)
      show "represents q' (place (ev (setWhen e w q)) e xs)"
        if "represents q xs" "e \<notin> set xs" for xs using that by (rule p')
    qed (use eq wf' k w' aq in simp_all)
  qed
qed

lemma schedule_Inr:
  assumes "eq_wf q" "schedule e w g q = Inr q'"
  shows "eq_wf q'" "keeps q q'" "\<And>x. scheduled q' x \<longleftrightarrow> x = e \<or> scheduled q x"
    "\<not> scheduled q e" "curTick q \<le> w" "initialized q e" "ewhen (ev q' e) = w"
    "\<not> inParallelMode q \<Longrightarrow> async_queue q' = async_queue q"
proof -
  have pre: "curTick q \<le> w" "\<not> scheduled q e" "initialized q e"
    using assms(2) by (auto simp: schedule_def)
  then show "\<not> scheduled q e" "curTick q \<le> w" "initialized q e" by auto
  obtain r where r: "schedule e w g q = Inr r" "eq_wf r" "keeps q r"
    "\<And>x. scheduled r x \<longleftrightarrow> x = e \<or> scheduled q x" "ewhen (ev r e) = w"
    "\<not> inParallelMode q \<Longrightarrow> async_queue r = async_queue q"
    using schedule_spec [OF assms(1) pre, of g] by metis
  with assms(2) show "eq_wf q'" "keeps q q'" "\<And>x. scheduled q' x \<longleftrightarrow> x = e \<or> scheduled q x"
    "ewhen (ev q' e) = w" "\<not> inParallelMode q \<Longrightarrow> async_queue q' = async_queue q"
    by auto
qed

lemma deschedule_spec:
  assumes wf: "eq_wf q" and aq: "e \<notin> set (async_queue q)" and s: "scheduled q e" and i: "initialized q e"
    and p: "\<not> inParallelMode q \<or> onCurQueue q"
  obtains q' where "deschedule e q = Inr q'" "eq_wf q'" "keeps q q'"
    "\<And>x. scheduled q' x \<longleftrightarrow> x \<noteq> e \<and> scheduled q x" "async_queue q' = async_queue q"
proof -
  from wf obtain xs where xs: "represents q xs" "distinct (xs @ async_queue q)"
    "\<And>x. scheduled q x \<longleftrightarrow> x \<in> set xs \<union> set (async_queue q)" by (auto simp: eq_wf_def)
  with s aq have e: "e \<in> set xs" by auto
  obtain q1 where q1: "remove_event e q = Inr q1" "links_only q q1" "represents q1 (remove1 e xs)"
    using remove_represents [OF xs(1) e] by blast
  define q' where "q' = release e (clearFlag e Scheduled (clearFlag e Squashed q1))"
  have eq: "deschedule e q = Inr q'" using s i p q1(1) by (simp add: deschedule_def q'_def)
  have aq': "async_queue q' = async_queue q" using q1(2) by (simp add: links_only_def q'_def)
  have sch: "scheduled q' x \<longleftrightarrow> x \<noteq> e \<and> scheduled q x" for x
    by (simp add: scheduled_links_only [OF q1(2)] q'_def)
  have rep: "represents q' (remove1 e xs)"
    unfolding q'_def using q1(3) by (intro represents_basic(3,4))
  have dx: "distinct xs" "set (remove1 e xs) = set xs - {e}" using xs(2) by simp_all
  have dis: "distinct (remove1 e xs @ async_queue q')"
    using xs(2) dx by (auto simp: aq' distinct_remove1)
  have "\<forall>x. scheduled q' x \<longleftrightarrow> x \<in> set (remove1 e xs) \<union> set (async_queue q')"
    using aq by (auto simp: sch aq' dx(2) xs(3))
  with rep dis have wf': "eq_wf q'" unfolding eq_wf_def by blast
  have k: "keeps q q'"
    unfolding q'_def by (intro keeps_step(3-5) keeps_links_only q1(2))
  show ?thesis
  proof (rule that [of q'])
    show "scheduled q' x \<longleftrightarrow> x \<noteq> e \<and> scheduled q x" for x by (rule sch)
  qed (use eq wf' k aq' in simp_all)
qed

text \<open>Insertion and removal touch only links, whatever the state of the queue.\<close>

lemma insert_links_only: "insert_event e q = Inr q' \<Longrightarrow> links_only q q'"
  by (auto simp: insert_event_def intro!: links_only_head links_only_upd links_only_insertBefore
      split: option.splits if_splits prod.splits)

lemma removeItem_links_only: "removeItem e t q = Inr (r, q') \<Longrightarrow> links_only q q'"
  by (auto simp: removeItem_def intro!: links_only_upd split: option.splits if_splits prod.splits)

lemma remove_links_only: "remove_event e q = Inr q' \<Longrightarrow> links_only q q'"
  by (auto simp: remove_event_def intro!: links_only_head links_only_upd dest: removeItem_links_only
      split: option.splits if_splits prod.splits)

lemma schedule_when:
  assumes "schedule e w g q = Inr q'" "x \<noteq> e"
  shows "ewhen (ev q' x) = ewhen (ev q x)"
  using assms by (auto simp: schedule_def Let_def setFlag_def setWhen_def asyncInsert_def links_only_def
      dest!: insert_links_only split: if_splits)

lemma deschedule_when:
  "deschedule e q = Inr q' \<Longrightarrow> ewhen (ev q' x) = ewhen (ev q x)"
  by (auto simp: deschedule_def clearFlag_def release_def links_only_def dest!: remove_links_only)

lemma reschedule_when:
  assumes "reschedule e w a q = Inr q'" "x \<noteq> e"
  shows "ewhen (ev q' x) = ewhen (ev q x)"
  using assms by (auto simp: reschedule_def setFlag_def clearFlag_def setWhen_def links_only_def
      dest!: insert_links_only remove_links_only split: if_splits)

lemma reschedule_spec:
  assumes wf: "eq_wf q" and aq: "e \<notin> set (async_queue q)" and t: "curTick q \<le> w"
    and al: "always \<or> scheduled q e" and i: "initialized q e"
    and p: "\<not> inParallelMode q \<or> onCurQueue q"
  obtains q' where "reschedule e w always q = Inr q'" "eq_wf q'" "keeps q q'"
    "\<And>x. scheduled q' x \<longleftrightarrow> x = e \<or> scheduled q x" "ewhen (ev q' e) = w"
    "async_queue q' = async_queue q"
proof -
  from wf obtain xs where xs: "represents q xs" "distinct (xs @ async_queue q)"
    "\<And>x. scheduled q x \<longleftrightarrow> x \<in> set xs \<union> set (async_queue q)" by (auto simp: eq_wf_def)
  obtain q1 ys where q1: "(if scheduled q e then remove_event e q else Inr q) = Inr q1"
    "links_only q q1" "represents q1 ys" "distinct ys" "set ys = set xs - {e}"
  proof (cases "scheduled q e")
    case True
    with xs(3) aq have e: "e \<in> set xs" by auto
    obtain r where "remove_event e q = Inr r" "links_only q r" "represents r (remove1 e xs)"
      using remove_represents [OF xs(1) e] by blast
    moreover have "distinct (remove1 e xs)" "set (remove1 e xs) = set xs - {e}"
      using xs(2) by simp_all
    ultimately show ?thesis using that True by simp
  next
    case False
    with xs(3) have "e \<notin> set xs" by auto
    with False xs show ?thesis using that [of q xs] by simp
  qed
  have e: "e \<notin> set ys" using q1(5) by simp
  have r: "represents (setWhen e w q1) ys" using q1(3) e by (rule represents_basic)
  obtain q2 where q2: "insert_event e (setWhen e w q1) = Inr q2" "links_only (setWhen e w q1) q2"
    "represents q2 (place (ev (setWhen e w q1)) e ys)"
    using insert_represents [OF r e] by blast
  define q' where "q' = setFlag e Scheduled (clearFlag e Squashed q2)"
  have eq: "reschedule e w always q = Inr q'"
    using t al i p q1(1) q2(1) by (simp add: reschedule_def q'_def)
  have aq': "async_queue q' = async_queue q"
    using q1(2) q2(2) by (simp add: links_only_def q'_def)
  have sch: "scheduled q' x \<longleftrightarrow> x = e \<or> scheduled q x" for x
    by (simp add: scheduled_links_only [OF q2(2)] scheduled_links_only [OF q1(2)] q'_def)
  have rep: "represents q' (place (ev (setWhen e w q1)) e ys)"
    unfolding q'_def using q2(3) by (intro represents_basic(2,3))
  have dis: "distinct (place (ev (setWhen e w q1)) e ys @ async_queue q')"
    using xs(2) q1(4,5) aq e by (auto simp: distinct_place aq')
  have "\<forall>x. scheduled q' x \<longleftrightarrow> x \<in> set (place (ev (setWhen e w q1)) e ys) \<union> set (async_queue q')"
    by (auto simp: sch aq' xs(3) q1(5))
  with rep dis have wf': "eq_wf q'" unfolding eq_wf_def by blast
  have "keeps q (setWhen e w q1)" using keeps_links_only [OF q1(2)] by (rule keeps_step)
  then have "keeps q q2" using q2(2) by (rule keeps_step)
  then have k: "keeps q q'" unfolding q'_def by (intro keeps_step(2,4))
  have w': "ewhen (ev q' e) = w"
    using q2(2) by (simp add: setFlag_def clearFlag_def links_only_def q'_def setWhen_def)
  show ?thesis
  proof (rule that [of q'])
    show "scheduled q' x \<longleftrightarrow> x = e \<or> scheduled q x" for x by (rule sch)
  qed (use eq wf' k w' aq' in simp_all)
qed

subsection \<open>A queue used by one thread\<close>

definition eq_ok :: "('e, 'a) eventq_scheme \<Rightarrow> bool" where
  "eq_ok q \<longleftrightarrow> eq_wf q \<and> \<not> inParallelMode q \<and> async_queue q = []"

definition eq_future :: "('e, 'a) eventq_scheme \<Rightarrow> bool" where
  "eq_future q \<longleftrightarrow> (\<forall>e. scheduled q e \<longrightarrow> curTick q \<le> ewhen (ev q e))"

lemma schedule_ok:
  assumes "eq_ok q" "schedule e w g q = Inr q'"
  shows "eq_ok q'" "keeps q q'" "\<And>x. scheduled q' x \<longleftrightarrow> x = e \<or> scheduled q x"
    "\<not> scheduled q e" "ewhen (ev q' e) = w" "curTick q \<le> w" "eq_future q \<Longrightarrow> eq_future q'"
proof -
  from assms(1) have wf: "eq_wf q" "\<not> inParallelMode q" "async_queue q = []" by (auto simp: eq_ok_def)
  note r = schedule_Inr [OF wf(1) assms(2)]
  show k: "keeps q q'" and s: "\<And>x. scheduled q' x \<longleftrightarrow> x = e \<or> scheduled q x"
    and "\<not> scheduled q e" and w: "ewhen (ev q' e) = w" and t: "curTick q \<le> w"
    using r by auto
  show "eq_ok q'" using r wf by (auto simp: eq_ok_def keeps_def)
  show "eq_future q'" if "eq_future q"
    unfolding eq_future_def
  proof (intro allI impI)
    fix x assume "scheduled q' x"
    with s w t k that schedule_when [OF assms(2), of x] show "curTick q' \<le> ewhen (ev q' x)"
      by (cases "x = e") (auto simp: eq_future_def keeps_def)
  qed
qed

lemma schedule_total:
  assumes "eq_ok q" "curTick q \<le> w" "\<not> scheduled q e" "initialized q e"
  obtains q' where "schedule e w g q = Inr q'"
  using schedule_spec [of q w e g] assms by (auto simp: eq_ok_def)

lemma deschedule_ok:
  assumes "eq_ok q" "deschedule e q = Inr q'"
  shows "eq_ok q'" "keeps q q'" "\<And>x. scheduled q' x \<longleftrightarrow> x \<noteq> e \<and> scheduled q x"
    "scheduled q e" "eq_future q \<Longrightarrow> eq_future q'"
proof -
  from assms(1) have wf: "eq_wf q" "\<not> inParallelMode q" "async_queue q = []" by (auto simp: eq_ok_def)
  have pre: "scheduled q e" "initialized q e" using assms(2) by (auto simp: deschedule_def)
  obtain r where r: "deschedule e q = Inr r" "eq_wf r" "keeps q r"
    "\<And>x. scheduled r x \<longleftrightarrow> x \<noteq> e \<and> scheduled q x" "async_queue r = async_queue q"
    using deschedule_spec [OF wf(1) _ pre] wf(2,3) by auto
  with assms(2) have [simp]: "r = q'" by simp
  show k: "keeps q q'" and s: "\<And>x. scheduled q' x \<longleftrightarrow> x \<noteq> e \<and> scheduled q x" and "scheduled q e"
    using r pre by auto
  show "eq_ok q'" using r wf by (auto simp: eq_ok_def keeps_def)
  show "eq_future q'" if "eq_future q"
    using that s k deschedule_when [OF assms(2)] by (auto simp: eq_future_def keeps_def)
qed

lemma reschedule_ok:
  assumes "eq_ok q" "reschedule e w always q = Inr q'"
  shows "eq_ok q'" "keeps q q'" "\<And>x. scheduled q' x \<longleftrightarrow> x = e \<or> scheduled q x"
    "always \<or> scheduled q e" "ewhen (ev q' e) = w" "eq_future q \<Longrightarrow> eq_future q'"
proof -
  from assms(1) have wf: "eq_wf q" "\<not> inParallelMode q" "async_queue q = []" by (auto simp: eq_ok_def)
  have pre: "curTick q \<le> w" "always \<or> scheduled q e" "initialized q e"
    using assms(2) by (auto simp: reschedule_def)
  obtain r where r: "reschedule e w always q = Inr r" "eq_wf r" "keeps q r"
    "\<And>x. scheduled r x \<longleftrightarrow> x = e \<or> scheduled q x" "ewhen (ev r e) = w" "async_queue r = async_queue q"
    using reschedule_spec [OF wf(1) _ pre] wf(2,3) by auto
  with assms(2) have [simp]: "r = q'" by simp
  show k: "keeps q q'" and s: "\<And>x. scheduled q' x \<longleftrightarrow> x = e \<or> scheduled q x"
    and "always \<or> scheduled q e" and w: "ewhen (ev q' e) = w"
    using r pre by auto
  show "eq_ok q'" using r wf by (auto simp: eq_ok_def keeps_def)
  show "eq_future q'" if "eq_future q"
    unfolding eq_future_def
  proof (intro allI impI)
    fix x assume "scheduled q' x"
    with s w pre(1) k that reschedule_when [OF assms(2), of x] show "curTick q' \<le> ewhen (ev q' x)"
      by (cases "x = e") (auto simp: eq_future_def keeps_def)
  qed
qed

lemma reschedule_total:
  assumes "eq_ok q" "curTick q \<le> w" "always \<or> scheduled q e" "initialized q e"
  obtains q' where "reschedule e w always q = Inr q'"
  using reschedule_spec [of q e w always] assms by (auto simp: eq_ok_def)

lemma deschedule_total:
  assumes "eq_ok q" "scheduled q e" "initialized q e"
  obtains q' where "deschedule e q = Inr q'"
  using deschedule_spec [of q e] assms by (auto simp: eq_ok_def)


subsection \<open>Service\<close>

lemma represents_head: "represents q xs \<Longrightarrow> head q = (case xs of [] \<Rightarrow> None | x # _ \<Rightarrow> Some x)"
proof -
  assume "represents q xs"
  then obtain bs where bs: "seg (ev q) (head q) bs None" "concat bs = xs" by (auto simp: represents_def)
  show ?thesis
  proof (cases bs)
    case Nil
    with bs show ?thesis by auto
  next
    case (Cons b bs')
    with bs have "head q = Some (hd b)" "b \<noteq> []" by auto
    with bs Cons show ?thesis by (cases b) auto
  qed
qed

lemma eq_ok_scheduled:
  assumes "eq_ok q"
  obtains xs where "represents q xs" "\<And>e. scheduled q e \<longleftrightarrow> e \<in> set xs"
  using assms by (auto simp: eq_ok_def eq_wf_def)

lemma service_pop_ok:
  assumes "eq_ok q" "service_pop q = Inr (e, q1)"
  shows "eq_ok q1" "keeps q q1" "\<And>x. scheduled q1 x \<longleftrightarrow> x \<noteq> e \<and> scheduled q x" "scheduled q e"
    "\<And>x. ewhen (ev q1 x) = ewhen (ev q x)"
    "\<And>x. scheduled q x \<Longrightarrow> key (ev q) e \<le> key (ev q) x"
proof -
  obtain xs where xs: "represents q xs" "\<And>e. scheduled q e \<longleftrightarrow> e \<in> set xs"
    using eq_ok_scheduled [OF assms(1)] by blast
  from assms(2) have "head q \<noteq> None" by (auto simp: service_pop_def split: option.splits)
  with represents_head [OF xs(1)] obtain x ys where xy: "xs = x # ys" by (cases xs) auto
  obtain q' where q': "service_pop q = Inr (x, q')" "represents q' ys"
    "links_only (clearFlag x Scheduled q) q'"
    using service_pop_represents [OF xs(1) [unfolded xy]] by blast
  with assms(2) have [simp]: "x = e" "q' = q1" by auto
  have srt: "distinct xs" "sorted_wrt (\<lambda>a b. key (ev q) a \<le> key (ev q) b) xs"
    using represents_sorted [OF xs(1)] by auto
  show s: "scheduled q1 y \<longleftrightarrow> y \<noteq> e \<and> scheduled q y" for y
    using scheduled_links_only [OF q'(3)] by simp
  show "keeps q q1" using keeps_step(7) [OF keeps_basic(3) q'(3)] by simp
  show "scheduled q e" using xs(2) xy by simp
  show "ewhen (ev q1 y) = ewhen (ev q y)" for y
    using q'(3) by (simp add: links_only_def clearFlag_def)
  show "key (ev q) e \<le> key (ev q) y" if "scheduled q y" for y
    using that srt(2) xs(2) xy by auto
  have "async_queue q1 = async_queue q" "inParallelMode q1 = inParallelMode q"
    using q'(3) by (simp_all add: links_only_def clearFlag_def)
  moreover have "eq_wf q1"
    unfolding eq_wf_def using q'(2) s xs(2) xy srt(1) assms(1) calculation
    by (intro exI [of _ ys]) (auto simp: eq_ok_def)
  ultimately show "eq_ok q1" using assms(1) by (simp add: eq_ok_def)
qed

lemma service_pop_total: "eq_ok q \<Longrightarrow> scheduled q x \<Longrightarrow> \<exists>e q1. service_pop q = Inr (e, q1)"
proof -
  assume "eq_ok q" "scheduled q x"
  obtain xs where xs: "represents q xs" "\<And>e. scheduled q e \<longleftrightarrow> e \<in> set xs"
    using eq_ok_scheduled [OF \<open>eq_ok q\<close>] by blast
  with \<open>scheduled q x\<close> obtain y ys where "xs = y # ys" by (cases xs) auto
  with xs(1) show ?thesis using service_pop_represents [of q y ys] by metis
qed

text \<open>When an event is serviced, time moves to it, and no pending event is left behind.\<close>

lemma service_time:
  assumes "eq_ok q" "eq_future q" "service_pop q = Inr (e, q1)"
  shows "curTick q \<le> ewhen (ev q1 e)" "eq_future (q1\<lparr>curTick := ewhen (ev q1 e)\<rparr>)"
proof -
  note p = service_pop_ok [OF assms(1,3)]
  show "curTick q \<le> ewhen (ev q1 e)" using p assms(2) by (auto simp: eq_future_def)
  show "eq_future (q1\<lparr>curTick := ewhen (ev q1 e)\<rparr>)"
    unfolding eq_future_def
  proof (intro allI impI)
    fix x assume "scheduled (q1\<lparr>curTick := ewhen (ev q1 e)\<rparr>) x"
    then have "scheduled q x" using p(3) [of x] by (simp add: scheduled_def)
    then have "ewhen (ev q e) \<le> ewhen (ev q x)"
      using p(6) [of x] by (auto simp: key_def less_eq_prod_def)
    then show "curTick (q1\<lparr>curTick := ewhen (ev q1 e)\<rparr>) \<le> ewhen (ev (q1\<lparr>curTick := ewhen (ev q1 e)\<rparr>) x)"
      by (simp add: p(5))
  qed
qed

subsection \<open>Squashed events\<close>

lemma squashed_basic [simp]:
  "squashed (setWhen e w q) x = squashed q x"
  "squashed (setFlag e Scheduled q) x = squashed q x"
  "squashed (clearFlag e Scheduled q) x = squashed q x"
  "squashed (clearFlag e Squashed q) x \<longleftrightarrow> x \<noteq> e \<and> squashed q x"
  "squashed (release e q) x = squashed q x"
  "squashed (asyncInsert e q) x = squashed q x"
  by (auto simp: squashed_def setWhen_def setFlag_def clearFlag_def release_def asyncInsert_def
      upd_ev_def flag_simps)

lemma squashed_links_only: "links_only q q' \<Longrightarrow> squashed q' x = squashed q x"
  by (simp add: links_only_def squashed_def)

lemma schedule_squashed: "schedule e w g q = Inr q' \<Longrightarrow> squashed q' x = squashed q x"
  by (auto simp: schedule_def Let_def split: if_splits dest!: insert_links_only squashed_links_only)

lemma deschedule_squashed: "deschedule e q = Inr q' \<Longrightarrow> squashed q' x \<Longrightarrow> squashed q x"
  by (auto simp: deschedule_def dest!: remove_links_only squashed_links_only)

lemma reschedule_squashed: "reschedule e w a q = Inr q' \<Longrightarrow> squashed q' x \<Longrightarrow> squashed q x"
  by (auto simp: reschedule_def split: if_splits
      dest!: insert_links_only remove_links_only squashed_links_only)

lemma service_pop_squashed: "service_pop q = Inr (e, q1) \<Longrightarrow> squashed q1 x = squashed q x"
proof -
  assume p: "service_pop q = Inr (e, q1)"
  have "squashed (clearFlag e Scheduled q) x = squashed q x" by simp
  with p show ?thesis
    by (auto simp: service_pop_def Let_def squashed_def upd_ev_def split: option.splits if_splits)
qed

subsection \<open>The interface of a simulated client\<close>

text \<open>
  A client of the queue gives the effect of its events (\<open>process\<close>) and an invariant:
  \<open>inv\<close> between two events, \<open>running e\<close> when the event \<open>e\<close> was taken off the queue and
  time was moved to it.  From the laws below every state of the simulation loop satisfies
  the invariant, and time never goes back.
\<close>

locale sim_client =
  fixes process :: "'e \<Rightarrow> ('e, 'a) eventq_scheme \<Rightarrow> ('e, 'a) eventq_scheme res"
    and inv :: "('e, 'a) eventq_scheme \<Rightarrow> bool"
    and running :: "'e \<Rightarrow> ('e, 'a) eventq_scheme \<Rightarrow> bool"
  assumes inv_queue: "inv q \<Longrightarrow> eq_ok q \<and> eq_future q"
    and start: "inv q \<Longrightarrow> service_pop q = Inr (e, q1) \<Longrightarrow> \<not> squashed q1 e \<Longrightarrow>
      running e (q1\<lparr>curTick := ewhen (ev q1 e)\<rparr>)"
    and finish: "running e q \<Longrightarrow> process e q = Inr q' \<Longrightarrow> inv q' \<and> curTick q' = curTick q"
    and discard: "inv q \<Longrightarrow> service_pop q = Inr (e, q1) \<Longrightarrow> squashed q1 e \<Longrightarrow>
      inv (clearFlag e Squashed q1)"
    and free: "inv q \<Longrightarrow> inv (release e q)"
begin

lemma serviceOne_inv:
  assumes "inv q" "serviceOne process q = Inr (r, q')"
  shows "inv q'" "curTick q \<le> curTick q'"
proof -
  from assms(2) obtain e q1 where p: "service_pop q = Inr (e, q1)"
    by (auto simp: serviceOne_def)
  from inv_queue [OF assms(1)] have q: "eq_ok q" "eq_future q" by auto
  have t: "curTick q \<le> ewhen (ev q1 e)" by (rule service_time [OF q p])
  have k: "curTick (release e s) = curTick s" "curTick (clearFlag e m s) = curTick s"
    for m and s :: "('e, 'a) eventq_scheme"
    by (simp_all add: release_def clearFlag_def)
  show "inv q'" "curTick q \<le> curTick q'"
  proof (atomize (full), cases "squashed q1 e")
    case True
    with p assms(2) have "q' = release e (clearFlag e Squashed q1)" by (simp add: serviceOne_def)
    moreover have "curTick q1 = curTick q"
      using service_pop_ok(2) [OF q(1) p] by (simp add: keeps_def)
    ultimately show "inv q' \<and> curTick q \<le> curTick q'"
      using discard [OF assms(1) p True] by (simp add: k free)
  next
    case False
    with p assms(2) obtain q2 where q2: "process e (q1\<lparr>curTick := ewhen (ev q1 e)\<rparr>) = Inr q2"
      and q': "q' = q2 \<or> q' = release e q2"
      by (auto simp: serviceOne_def split: if_splits)
    from finish [OF start [OF assms(1) p False] q2] have "inv q2" "curTick q2 = ewhen (ev q1 e)" by auto
    with q' t show "inv q' \<and> curTick q \<le> curTick q'" by (auto simp: k free)
  qed
qed

lemma next_in_future: "inv q \<Longrightarrow> head q = Some h \<Longrightarrow> curTick q \<le> ewhen (ev q h)"
proof -
  assume i: "inv q" and h: "head q = Some h"
  from inv_queue [OF i] have q: "eq_ok q" "eq_future q" by auto
  obtain xs where xs: "represents q xs" "\<And>e. scheduled q e \<longleftrightarrow> e \<in> set xs"
    using eq_ok_scheduled [OF q(1)] by blast
  with h have "scheduled q h" using represents_head [OF xs(1)] by (cases xs) auto
  with q(2) show ?thesis by (simp add: eq_future_def)
qed

lemma sim_loop_inv:
  assumes "sim_loop (\<lambda>q. Inr (False, q)) process q = Some (Inr (r, q'))" "inv q"
  shows "inv q' \<and> curTick q \<le> curTick q'"
proof -
  let ?P = "\<lambda>(as :: ('e, 'a) eventq_scheme \<Rightarrow> (bool \<times> ('e, 'a) eventq_scheme) res) p q
      (y :: ('e option \<times> ('e, 'a) eventq_scheme) res). p = process \<longrightarrow> as = (\<lambda>q. Inr (False, q)) \<longrightarrow>
      (\<forall>r q'. y = Inr (r, q') \<longrightarrow> inv q \<longrightarrow> inv q' \<and> curTick q \<le> curTick q')"
  have "?P (\<lambda>q. Inr (False, q)) process q (Inr (r, q'))"
  proof (rule sim_loop.raw_induct [where P = ?P, OF _ assms(1)], intro impI allI)
    fix loop as p q y r q'
    assume IH: "\<And>as p q y. loop as p q = Some y \<Longrightarrow> p = process \<longrightarrow> as = (\<lambda>q. Inr (False, q)) \<longrightarrow>
        (\<forall>r q'. y = Inr (r, q') \<longrightarrow> inv q \<longrightarrow> inv q' \<and> curTick q \<le> curTick q')"
      and body: "(case head q of
        None \<Rightarrow> Some (Inl (AssertFail ''!eventq->empty()''))
      | Some h \<Rightarrow>
          if \<not> curTick q \<le> ewhen (ev q h) then Some (Inl (AssertFail ''event scheduled in the past''))
          else (case as q of
                  Inl f \<Rightarrow> Some (Inl f)
                | Inr (stop, q0) \<Rightarrow>
                    if stop then Some (Inr (None, q0))
                    else (case serviceOne p q0 of
                       Inl f \<Rightarrow> Some (Inl f)
                     | Inr (None, q1) \<Rightarrow> loop as p q1
                     | Inr (Some e, q1) \<Rightarrow> Some (Inr (Some e, q1))))) = Some y"
      and p: "p = process" "as = (\<lambda>q. Inr (False, q))" and y: "y = Inr (r, q')" and i: "inv q"
    from body y p obtain r1 q1 where s: "serviceOne process q = Inr (r1, q1)"
      and n: "(case r1 of None \<Rightarrow> loop as p q1 | Some e \<Rightarrow> Some (Inr (Some e, q1))) = Some (Inr (r, q'))"
      by (auto split: option.splits if_splits sum.splits)
    note s1 = serviceOne_inv [OF i s]
    show "inv q' \<and> curTick q \<le> curTick q'"
    proof (cases r1)
      case None
      with n have "loop as p q1 = Some (Inr (r, q'))" by simp
      from IH [OF this] p s1 show ?thesis by auto
    next
      case (Some e)
      with n s1 show ?thesis by simp
    qed
  qed
  with assms(2) show ?thesis by blast
qed

end


subsection \<open>The self-check\<close>

fun verify_list :: "('e \<Rightarrow> 'e event) \<Rightarrow> Tick \<times> int \<Rightarrow> 'e list \<Rightarrow> 'e list \<Rightarrow> bool" where
  "verify_list m k seen [] = True"
| "verify_list m k seen (x # xs) =
     (\<not> key m x < k \<and> x \<notin> set seen \<and> verify_list m (key m x) (x # seen) xs)"

lemma verify_walk_step:
  "verify_walk m t p seen (Some e) bin =
     (if key m e < (t, p) \<or> e \<in> set seen then Some False
      else verify_walk m (ewhen (m e)) (sint (epriority (m e))) (e # seen) (nextInBin (m e)) bin)"
  by (subst verify_walk.simps) (auto simp: key_def less_prod_def')

lemma verify_walk_bin:
  assumes "chain m (e # es)"
    and "\<And>t p seen. verify_walk m t p seen None bin = Some (verify_list m (t, p) seen ys)"
  shows "verify_walk m t p seen (Some e) bin = Some (verify_list m (t, p) seen (e # es @ ys))"
  using assms(1)
proof (induction es arbitrary: e t p seen)
  case Nil
  then show ?case by (simp add: verify_walk_step assms(2) key_def)
next
  case (Cons d es)
  then have ih: "verify_walk m t' p' s' (Some d) bin = Some (verify_list m (t', p') s' (d # es @ ys))" for t' p' s'
    by auto
  from Cons.prems have n: "nextInBin (m e) = Some d" by simp
  show ?case unfolding verify_walk_step [of m t p seen e] n ih by (simp add: key_def)
qed

lemma verify_walk_bins:
  assumes "seg m (nextBin (m bin)) bs None"
  shows "verify_walk m t p seen None bin = Some (verify_list m (t, p) seen (concat bs))"
  using assms
proof (induction bs arbitrary: bin t p seen)
  case Nil
  then show ?case by (subst verify_walk.simps) simp
next
  case (Cons b bs)
  then obtain e es where b: "b = e # es" by (cases b) auto
  have "verify_walk m t p seen None bin = verify_walk m t p seen (Some e) e"
    using Cons.prems b by (subst verify_walk.simps) simp
  also have "\<dots> = Some (verify_list m (t, p) seen (e # es @ concat bs))"
    using Cons b by (intro verify_walk_bin) auto
  finally show ?case using b by simp
qed

lemma verify_list_sorted:
  assumes "distinct xs" "sorted_wrt (\<lambda>a b. key m a \<le> key m b) xs" "set seen \<inter> set xs = {}"
  shows "verify_list m k seen xs \<longleftrightarrow> xs = [] \<or> k \<le> key m (hd xs)"
  using assms
proof (induction xs arbitrary: k seen)
  case (Cons x xs)
  have "verify_list m (key m x) (x # seen) xs \<longleftrightarrow> xs = [] \<or> key m x \<le> key m (hd xs)"
    using Cons by (intro Cons.IH) auto
  moreover have "xs = [] \<or> key m x \<le> key m (hd xs)" using Cons.prems by (cases xs) auto
  ultimately show ?case using Cons.prems by (auto simp: not_less)
qed simp

lemma debugVerify_represents:
  assumes "represents q xs"
  shows "debugVerify q = Some (verify_list (ev q) (0, 0) [] xs)"
proof -
  from assms obtain bs where bs: "seg (ev q) (head q) bs None" "concat bs = xs"
    by (auto simp: represents_def)
  show ?thesis
  proof (cases bs)
    case Nil
    with bs show ?thesis by (auto simp: debugVerify_def)
  next
    case (Cons b bs')
    with bs obtain e es where b: "b = e # es" by (cases b) auto
    have "verify_walk (ev q) 0 0 [] (Some e) e = Some (verify_list (ev q) (0, 0) [] (e # es @ concat bs'))"
      using bs Cons b by (intro verify_walk_bin verify_walk_bins) auto
    with bs Cons b show ?thesis by (auto simp: debugVerify_def)
  qed
qed

subsection \<open>Properties\<close>

definition blank_event :: "'e event" where
  "blank_event = \<lparr>nextBin = None, nextInBin = None, ewhen = 0, epriority = 0, eflags = Initialized\<rparr>"

declare blank_event_def [code_unfold]

definition new_eventq :: "'e eventq" where
  "new_eventq = \<lparr>head = None, curTick = 0, async_queue = [], ev = (\<lambda>_. blank_event),
     inParallelMode = False, onCurQueue = True, freed = []\<rparr>"

lemma new_eventq_rep: "represents new_eventq []"
  by (auto simp: represents_def new_eventq_def bins_ok_def intro: exI [of _ "[]"])

lemma new_eventq_ok: "eq_ok new_eventq" "eq_future new_eventq" "initialized new_eventq e" "\<not> scheduled new_eventq e"
  using new_eventq_rep
  by (auto simp: eq_ok_def eq_wf_def eq_future_def initialized_def scheduled_def new_eventq_def blank_event_def
      flag_isSet_def Scheduled_def Initialized_def InitMask_def intro!: exI [of _ "[]"])



text \<open>C15: \<^verbatim>\<open>EventQueue::remove\<close> deletes exactly the given event from the service order when
  the event is queued, and panics with "event not found!" when it is not.
\<close>

theorem remove_refines_delete:
  assumes "represents q xs"
  shows "if e \<in> set xs then \<exists>q'. remove_event e q = Inr q' \<and> represents q' (remove1 e xs) \<and> links_only q q'
    else remove_event e q = Inl (Panic ''event not found!'')"
  using remove_represents [OF assms, of e] remove_missing [OF assms, of e] by auto

theorem remove_refines_delete_witness:
  "remove_event (7::nat) new_eventq = Inl (Panic ''event not found!'')"
  using remove_refines_delete [OF new_eventq_rep, of 7] by simp

text \<open>C16: Scheduling an initialised, unscheduled event at a time that is not in the past
  succeeds, keeps the queue's invariant and every other event, and marks exactly that
  event as scheduled; rescheduling and descheduling likewise.  In particular the
  invariant that no pending event lies in the past is kept.
\<close>

theorem schedule_keeps_invariant:
  assumes "eq_ok q" "eq_future q" "initialized q e" "curTick q \<le> w"
  shows "(\<not> scheduled q e \<longrightarrow> (\<exists>q'. schedule e w g q = Inr q' \<and> eq_ok q' \<and> eq_future q' \<and>
      keeps q q' \<and> ewhen (ev q' e) = w \<and> (\<forall>x. scheduled q' x \<longleftrightarrow> x = e \<or> scheduled q x))) \<and>
    (\<exists>q'. reschedule e w True q = Inr q' \<and> eq_ok q' \<and> eq_future q' \<and>
      keeps q q' \<and> ewhen (ev q' e) = w \<and> (\<forall>x. scheduled q' x \<longleftrightarrow> x = e \<or> scheduled q x)) \<and>
    (scheduled q e \<longrightarrow> (\<exists>q'. deschedule e q = Inr q' \<and> eq_ok q' \<and> eq_future q' \<and>
      keeps q q' \<and> (\<forall>x. scheduled q' x \<longleftrightarrow> x \<noteq> e \<and> scheduled q x)))"
proof (intro conjI impI)
  show "\<exists>q'. schedule e w g q = Inr q' \<and> eq_ok q' \<and> eq_future q' \<and>
      keeps q q' \<and> ewhen (ev q' e) = w \<and> (\<forall>x. scheduled q' x \<longleftrightarrow> x = e \<or> scheduled q x)"
    if ns: "\<not> scheduled q e"
  proof -
    obtain q' where q': "schedule e w g q = Inr q'" using schedule_total [OF assms(1,4) ns assms(3)] .
    show ?thesis using schedule_ok [OF assms(1) q'] assms(2) q' by (intro exI [of _ q']) simp
  qed
  show "\<exists>q'. reschedule e w True q = Inr q' \<and> eq_ok q' \<and> eq_future q' \<and>
      keeps q q' \<and> ewhen (ev q' e) = w \<and> (\<forall>x. scheduled q' x \<longleftrightarrow> x = e \<or> scheduled q x)"
  proof -
    obtain q' where q': "reschedule e w True q = Inr q'"
      using reschedule_total [OF assms(1,4) _ assms(3), of True] by blast
    show ?thesis using reschedule_ok [OF assms(1) q'] assms(2) q' by (intro exI [of _ q']) simp
  qed
  show "\<exists>q'. deschedule e q = Inr q' \<and> eq_ok q' \<and> eq_future q' \<and>
      keeps q q' \<and> (\<forall>x. scheduled q' x \<longleftrightarrow> x \<noteq> e \<and> scheduled q x)" if sc: "scheduled q e"
  proof -
    obtain q' where q': "deschedule e q = Inr q'" using deschedule_total [OF assms(1) sc assms(3)] .
    show ?thesis using deschedule_ok [OF assms(1) q'] assms(2) q' by (intro exI [of _ q']) simp
  qed
qed

lemma new_eventq_curTick [simp]: "curTick new_eventq = 0"
  by (simp add: new_eventq_def)

theorem schedule_keeps_invariant_witness:
  "\<exists>q'. schedule (7::nat) 5 False new_eventq = Inr q' \<and> eq_ok q' \<and> eq_future q' \<and>
     keeps new_eventq q' \<and> ewhen (ev q' 7) = 5 \<and> (\<forall>x. scheduled q' x \<longleftrightarrow> x = 7 \<or> scheduled new_eventq x)"
  using schedule_keeps_invariant [OF new_eventq_ok(1-3), of 5 "7::nat" False] by (simp add: new_eventq_ok)

text \<open>C17: The event \<^verbatim>\<open>serviceOne\<close> takes off the queue is the first in service order: no
  pending event has a smaller time, or the same time and a smaller priority.  It is no
  longer scheduled, every other event still is, and time does not go back.
\<close>

theorem service_takes_least:
  assumes "eq_ok q" "eq_future q" "scheduled q x"
  shows "\<exists>e q1. service_pop q = Inr (e, q1) \<and> scheduled q e \<and> eq_ok q1 \<and>
    (\<forall>y. scheduled q y \<longrightarrow> key (ev q) e \<le> key (ev q) y) \<and>
    (\<forall>y. scheduled q1 y \<longleftrightarrow> y \<noteq> e \<and> scheduled q y) \<and>
    curTick q \<le> ewhen (ev q1 e) \<and> eq_future (q1\<lparr>curTick := ewhen (ev q1 e)\<rparr>)"
proof -
  obtain e q1 where p: "service_pop q = Inr (e, q1)"
    using service_pop_total [OF assms(1,3)] by blast
  from service_pop_ok [OF assms(1) p] service_time [OF assms(1,2) p] p show ?thesis by auto
qed

theorem service_takes_least_witness:
  "\<exists>(q :: nat eventq) e q1. service_pop q = Inr (e, q1) \<and> scheduled q e \<and> e = 7 \<and> \<not> scheduled q1 7"
proof -
  obtain q where q: "schedule (7::nat) 5 False new_eventq = Inr q"
    by (rule schedule_total [OF new_eventq_ok(1), of 5 7 False]) (simp_all add: new_eventq_ok)
  note s = schedule_ok [OF new_eventq_ok(1) q]
  have m: "scheduled q x \<longleftrightarrow> x = 7" for x using s(3) by (simp add: new_eventq_ok)
  obtain e q1 where "service_pop q = Inr (e, q1)" "scheduled q e"
    "\<forall>y. scheduled q1 y \<longleftrightarrow> y \<noteq> e \<and> scheduled q y"
    using service_takes_least [OF s(1) s(7) [OF new_eventq_ok(2)], of 7] m by auto
  moreover from this m have "e = 7" "\<not> scheduled q1 7" by auto
  ultimately show ?thesis by (intro exI [of _ q] exI [of _ e] exI [of _ q1]) simp
qed

text \<open>C18: \<^verbatim>\<open>debugVerify\<close> ends on every well-formed queue, and it accepts the queue unless the
  first event is at tick 0 with a negative priority: the walk starts from time 0 and
  priority 0, so that such a queue, although well-formed, is reported as
  "priority inverted!".
\<close>

theorem debugVerify_verdict:
  assumes "represents q xs"
  shows "debugVerify q =
    Some (xs = [] \<or> \<not> (ewhen (ev q (hd xs)) = 0 \<and> sint (epriority (ev q (hd xs))) < 0))"
proof -
  have "(0, 0) \<le> key (ev q) (hd xs) \<longleftrightarrow>
      \<not> (ewhen (ev q (hd xs)) = 0 \<and> sint (epriority (ev q (hd xs))) < 0)"
    by (auto simp: key_def less_eq_prod_def word_neq_0_conv)
  with represents_sorted [OF assms] show ?thesis
    by (simp add: debugVerify_represents [OF assms] verify_list_sorted)
qed

theorem debugVerify_verdict_witness: "debugVerify (new_eventq :: nat eventq) = Some True"
  using debugVerify_verdict [OF new_eventq_rep] by simp


end
