(* ===== verification/Int_Math.thy ===== *)
theory Int_Math
  imports HetSim_Prelude
begin

text \<open>
  The integer helpers of \<^verbatim>\<open>gem5/src/base/intmath.hh\<close>, at 64 bits (\<^verbatim>\<open>T = U = uint64_t\<close>,
  the width at which the simulator's clocks and address computations use them).
  Word arithmetic wraps as the C++ arithmetic does.
\<close>

text \<open>\<^verbatim>\<open>power\<close>: the loop state is \<^verbatim>\<open>result\<close>, \<^verbatim>\<open>component\<close> and the remaining exponent.\<close>

function power_loop :: "u64 \<Rightarrow> u64 \<Rightarrow> u32 \<Rightarrow> u64" where
  "power_loop result component e =
     (if e = 0 then result
      else power_loop (if e AND 1 \<noteq> 0 then result * component else result)
             (component * component) (drop_bit 1 e))"
  by pat_completeness auto
termination
proof (relation "measure (\<lambda>(r, c, e). unat e)")
  fix result component :: u64 and e :: u32
  assume "e \<noteq> 0"
  then have "0 < unat e" by (simp add: unat_gt_0)
  then show "((if e AND 1 \<noteq> 0 then result * component else result, component * component, drop_bit 1 e),
      result, component, e) \<in> measure (\<lambda>(r, c, e). unat e)"
    by (simp add: drop_bit_eq_div unat_div)
qed simp

declare power_loop.simps [simp del]

definition power_u :: "u32 \<Rightarrow> u32 \<Rightarrow> u64" where
  "power_u n e = power_loop 1 (ucast n) e"

text \<open>\<^verbatim>\<open>floorLog2\<close>: six conditional shifts.\<close>

definition log_step :: "nat \<Rightarrow> u64 \<Rightarrow> nat \<times> u64 \<Rightarrow> nat \<times> u64" where
  "log_step k m = (\<lambda>(y, ux). if ux AND m \<noteq> 0 then (y + k, drop_bit k ux) else (y, ux))"

definition floorLog2 :: "u64 \<Rightarrow> nat res" where
  "floorLog2 x =
     require (x > 0) (AssertFail ''x > 0'')
     (Inr (fst (log_step 1 0x0000000000000002
                (log_step 2 0x000000000000000c
                 (log_step 4 0x00000000000000f0
                  (log_step 8 0x000000000000ff00
                   (log_step 16 0x00000000ffff0000
                    (log_step 32 0xffffffff00000000 (0, x)))))))))"

definition ceilLog2 :: "u64 \<Rightarrow> nat res" where
  "ceilLog2 n =
     require (n > 0) (AssertFail ''n > 0'')
     (if n = 1 then Inr 0 else rbind (floorLog2 (n - 1)) (\<lambda>y. Inr (y + 1)))"

definition isPowerOf2 :: "u64 \<Rightarrow> bool" where
  "isPowerOf2 n \<longleftrightarrow> n \<noteq> 0 \<and> n AND (n - 1) = 0"

definition divCeil :: "u64 \<Rightarrow> u64 \<Rightarrow> u64 res" where
  "divCeil a b = require (b \<noteq> 0) (Undefined ''division by zero'') (Inr ((a + b - 1) div b))"

definition roundUp :: "u64 \<Rightarrow> u64 \<Rightarrow> u64 res" where
  "roundUp val align =
     require (isPowerOf2 align) (AssertFail ''isPowerOf2(align)'')
     (let m = align - 1 in Inr ((val + m) AND NOT m))"

definition roundDown :: "u64 \<Rightarrow> u64 \<Rightarrow> u64 res" where
  "roundDown val align =
     require (isPowerOf2 align) (AssertFail ''isPowerOf2(align)'')
     (let m = align - 1 in Inr (val AND NOT m))"

subsection \<open>Exponentiation by squaring\<close>

lemma unat_half: "unat (drop_bit (Suc 0) e) = unat e div 2" for e :: u32
  by (simp add: drop_bit_eq_div unat_div)

lemma odd_low_bit: "e AND 1 \<noteq> 0 \<longleftrightarrow> odd (unat e)" for e :: u32
  using bit_unsigned_iff [of e 0, where ?'a = nat] by (simp add: and_one_eq mod_2_eq_odd bit_0)

lemma power_loop_eq: "power_loop r c e = r * c ^ unat e"
proof (induction r c e rule: power_loop.induct)
  case (1 r c e)
  show ?case
  proof (cases "e = 0")
    case True
    then show ?thesis by (simp add: power_loop.simps [of r c 0])
  next
    case False
    define k where "k = unat e div 2"
    have sq: "(c * c) ^ k = c ^ (2 * k)"
      by (simp add: power_mult power2_eq_square)
    have step: "power_loop r c e = (if odd (unat e) then r * c else r) * (c * c) ^ k"
    proof -
      have "power_loop r c e = (if odd (unat e) then r * c else r) * (c * c) ^ unat (drop_bit 1 e)"
        using 1 [OF False] by (simp only: power_loop.simps [of r c e] False if_False odd_low_bit)
      then show ?thesis by (simp only: One_nat_def unat_half k_def)
    qed
    show ?thesis
    proof (cases "odd (unat e)")
      case True
      then have "unat e = Suc (2 * k)" by (simp add: k_def)
      then have "c ^ unat e = c * c ^ (2 * k)" by (simp only: power_Suc)
      then show ?thesis using True by (simp only: step sq if_True mult.assoc not_False_eq_True)
    next
      case False
      then have "unat e = 2 * k" by (simp add: k_def)
      then show ?thesis using False by (simp only: step sq if_False)
    qed
  qed
qed

subsection \<open>Logarithms\<close>


lemma div_bracket:
  "n div 2 ^ k * 2 ^ k \<le> n" "n < n div 2 ^ k * 2 ^ k + 2 ^ k" for n :: nat
  using dividend_less_div_times [of "2 ^ k" n] by simp_all

lemma bit_below:
  fixes x :: "'a::len word"
  assumes "unat x < 2 ^ m" "bit x n"
  shows "n < m"
proof (rule ccontr)
  assume "\<not> n < m"
  then have "bit (take_bit m (unat x)) n \<longleftrightarrow> False" by (simp add: bit_take_bit_iff)
  moreover have "take_bit m (unat x) = unat x" using assms(1) by (simp add: take_bit_nat_eq_self_iff)
  moreover have "bit (unat x) n" using assms(2) by (simp add: bit_unsigned_iff)
  ultimately show False by simp
qed

lemma unat_drop: "unat (drop_bit k x) = unat x div 2 ^ k" for x :: "'a::len word"
  using unsigned_drop_bit_eq [of k x, where ?'a = nat]
  by (simp add: drop_bit_nat_def take_bit_nat_eq_self [OF unsigned_less])

lemma and_slice_nonzero:
  fixes x :: u64
  assumes "unat x < 2 ^ (2 * k)"
  shows "x AND push_bit k (mask k) \<noteq> 0 \<longleftrightarrow> 2 ^ k \<le> unat x"
proof -
  have "x AND push_bit k (mask k) = push_bit k (drop_bit k x)"
  proof (rule bit_word_eqI)
    fix n
    assume "n < LENGTH(64)"
    then show "bit (x AND push_bit k (mask k)) n \<longleftrightarrow> bit (push_bit k (drop_bit k x)) n"
      using bit_below [OF assms, of n]
      by (auto simp: bit_and_iff bit_push_bit_iff bit_mask_iff bit_drop_bit_eq)
  qed
  moreover have "push_bit k (drop_bit k x) = 0 \<longleftrightarrow> drop_bit k x = 0"
  proof
    assume z: "push_bit k (drop_bit k x) = 0"
    show "drop_bit k x = 0"
    proof (rule bit_word_eqI)
      fix n
      assume "n < LENGTH(64)"
      have "\<not> bit (push_bit k (drop_bit k x)) (n + k)" by (simp add: z)
      then show "bit (drop_bit k x) n \<longleftrightarrow> bit (0::u64) n"
        by (auto simp: bit_push_bit_iff bit_drop_bit_eq add.commute dest: bit_imp_le_length)
    qed
  qed simp
  moreover have "drop_bit k x = 0 \<longleftrightarrow> unat x < 2 ^ k"
    by (simp add: unat_drop div_eq_0_iff flip: unat_eq_zero)
  ultimately show ?thesis by (simp add: not_less)
qed

text \<open>What one conditional shift keeps: the value read so far and a bound that halves in bits.\<close>

definition log_inv :: "u64 \<Rightarrow> nat \<Rightarrow> nat \<times> u64 \<Rightarrow> bool" where
  "log_inv x k s \<longleftrightarrow>
     unat (snd s) = unat x div 2 ^ fst s \<and> unat (snd s) < 2 ^ k \<and> snd s \<noteq> 0"

lemma log_step_inv:
  assumes "log_inv x (2 * k) s" "m = push_bit k (mask k)"
  shows "log_inv x k (log_step k m s)"
proof (cases s)
  case (Pair y u)
  have inv: "unat u = unat x div 2 ^ y" "unat u < 2 ^ (2 * k)" "u \<noteq> 0"
    using assms(1) by (auto simp: Pair log_inv_def)
  have test: "u AND m \<noteq> 0 \<longleftrightarrow> 2 ^ k \<le> unat u"
    using and_slice_nonzero [OF inv(2)] by (simp add: assms(2))
  show ?thesis
  proof (cases "2 ^ k \<le> unat u")
    case True
    have "unat (drop_bit k u) < 2 ^ k"
      using inv(2) by (simp add: unat_drop less_mult_imp_div_less mult_2 power_add)
    moreover have "unat (drop_bit k u) \<noteq> 0"
      using True by (simp add: unat_drop div_eq_0_iff)
    moreover have "unat (drop_bit k u) = unat x div 2 ^ (y + k)"
      by (simp add: unat_drop inv(1) div_mult2_eq power_add)
    ultimately show ?thesis
      using True test by (auto simp: Pair log_step_def log_inv_def)
  next
    case False
    then show ?thesis
      using test inv by (auto simp: Pair log_step_def log_inv_def not_le)
  qed
qed

lemma log_masks:
  "(0xffffffff00000000::u64) = push_bit 32 (mask 32)"
  "(0x00000000ffff0000::u64) = push_bit 16 (mask 16)"
  "(0x000000000000ff00::u64) = push_bit 8 (mask 8)"
  "(0x00000000000000f0::u64) = push_bit 4 (mask 4)"
  "(0x000000000000000c::u64) = push_bit 2 (mask 2)"
  "(0x0000000000000002::u64) = push_bit 1 (mask 1)"
  by (simp_all add: mask_eq_decr_exp push_bit_eq_mult)

lemma floorLog2_bounds:
  assumes "floorLog2 x = Inr y"
  shows "2 ^ y \<le> unat x \<and> unat x < 2 ^ (y + 1)"
proof -
  have pos: "x \<noteq> 0" using assms by (auto simp: floorLog2_def)
  have "log_inv x 64 (0, x)"
    using pos unsigned_less [of x, where ?'a = nat] by (simp add: log_inv_def)
  note l5 = log_step_inv [of x 32, simplified, OF this log_masks(1)]
  note l4 = log_step_inv [of x 16, simplified, OF l5 log_masks(2)]
  note l3 = log_step_inv [of x 8, simplified, OF l4 log_masks(3)]
  note l2 = log_step_inv [of x 4, simplified, OF l3 log_masks(4)]
  note l1 = log_step_inv [of x 2, simplified, OF l2 log_masks(5)]
  note l0 = log_step_inv [of x 1, OF _ log_masks(6), unfolded mult_1_right, OF l1]
  then have "log_inv x 1 (y, snd (log_step 1 2 (log_step 2 12 (log_step 4 240 (log_step 8 65280
      (log_step 16 4294901760 (log_step 32 18446744069414584320 (0, x))))))))"
    using assms pos by (auto simp: floorLog2_def word_gt_0)
  then obtain u where "log_inv x 1 (y, u)" by blast
  then have u: "unat u = unat x div 2 ^ y" "unat u < 2" "u \<noteq> 0"
    by (simp_all add: log_inv_def)
  moreover have "unat u \<noteq> 0" using u(3) by (simp add: unat_eq_zero)
  ultimately have "unat x div 2 ^ y = 1" by simp
  then show ?thesis
    using div_bracket [of "unat x" y] by simp
qed

subsection \<open>Powers of two and alignment\<close>

lemma and_decr_power: "x AND (2 ^ k - 1) = take_bit k x" for x :: u64
  by (simp add: take_bit_eq_mask mask_eq_decr_exp)

lemma isPowerOf2_power: "k < 64 \<Longrightarrow> isPowerOf2 (2 ^ k)"
  by (simp add: isPowerOf2_def and_decr_power take_bit_eq_mod)

lemma top_bit:
  fixes x :: "'a::len word"
  assumes "2 ^ k \<le> unat x" "unat x < 2 ^ (k + 1)"
  shows "bit x k"
proof -
  have "unat x div 2 ^ k = 1"
    using assms by (intro div_nat_eqI) simp_all
  then have "bit (unat x) k" by (simp add: bit_iff_odd)
  then show ?thesis by (simp add: bit_unsigned_iff)
qed

lemma unat_2p: "k < 64 \<Longrightarrow> unat (2 ^ k :: u64) = 2 ^ k"
  using unsigned_push_bit_eq [of k "1::u64", where ?'a = nat]
  by (simp add: push_bit_nat_def push_bit_eq_mult take_bit_nat_eq_self)

lemma isPowerOf2_iff: "isPowerOf2 n \<longleftrightarrow> (\<exists>k<64. n = 2 ^ k)"
proof
  assume p: "isPowerOf2 n"
  then have pos: "0 < unat n" by (simp add: isPowerOf2_def unat_gt_0)
  then obtain k where k: "2 ^ k \<le> unat n" "unat n < 2 ^ (k + 1)"
    using ex_power_ivl1 [of 2 "unat n"] by auto
  have small: "k < 64"
  proof (rule ccontr)
    assume "\<not> k < 64"
    then have "(2::nat) ^ 64 \<le> 2 ^ k" by (intro power_increasing) simp_all
    then show False using k(1) unsigned_less [of n, where ?'a = nat] by simp
  qed
  have dec: "unat (n - 1) = unat n - 1" using pos by (simp add: unat_minus_one unat_gt_0)
  have "n = 2 ^ k"
  proof (rule ccontr)
    assume "n \<noteq> 2 ^ k"
    moreover have "unat (2 ^ k :: u64) = 2 ^ k" using small by (simp add: unat_2p)
    ultimately have "unat n \<noteq> 2 ^ k" by (metis unsigned_word_eqI)
    then have "bit n k" "bit (n - 1) k" using k by (auto simp: dec intro!: top_bit)
    then have "bit (n AND (n - 1)) k" by (simp add: bit_and_iff)
    then show False using p by (simp add: isPowerOf2_def)
  qed
  then show "\<exists>k<64. n = 2 ^ k" using small by blast
qed (auto intro: isPowerOf2_power)

lemma unat_align: "unat (x AND NOT (2 ^ k - 1)) = unat x div 2 ^ k * 2 ^ k" for x :: u64
proof -
  have "x AND NOT (2 ^ k - 1) = push_bit k (drop_bit k x)"
    by (rule bit_word_eqI)
      (auto simp: bit_push_bit_iff bit_drop_bit_eq bit_and_iff bit_not_iff bit_mask_iff
        simp flip: mask_eq_decr_exp)
  moreover have "unat x div 2 ^ k * 2 ^ k < 2 ^ 64"
    using le_less_trans [OF div_times_less_eq_dividend [of "unat x" "2 ^ k"] unsigned_less] by simp
  ultimately show ?thesis
    using unsigned_push_bit_eq [of k "drop_bit k x", where ?'a = nat]
    by (simp add: push_bit_nat_def unat_drop take_bit_nat_eq_self)
qed

lemma floorLog2_total: "x \<noteq> 0 \<Longrightarrow> \<exists>y. floorLog2 x = Inr y"
  by (simp add: floorLog2_def word_gt_0)

lemma roundDown_power:
  "k < 64 \<Longrightarrow> roundDown v (2 ^ k) = Inr (v AND NOT (2 ^ k - 1))"
  by (simp add: roundDown_def isPowerOf2_power Let_def)

lemma roundUp_power:
  "k < 64 \<Longrightarrow> roundUp v (2 ^ k) = Inr ((v + (2 ^ k - 1)) AND NOT (2 ^ k - 1))"
  by (simp add: roundUp_def isPowerOf2_power Let_def)

lemma unat_power: "unat (x ^ k) = unat x ^ k mod 2 ^ 64" for x :: u64
  by (induction k) (simp_all add: unat_word_ariths mod_mult_right_eq)

subsection \<open>Properties\<close>

text \<open>\<^verbatim>\<open>power\<close>: exponentiation by squaring terminates for every exponent and computes
  \<^term>\<open>n ^ e\<close> modulo \<^term>\<open>2 ^ 64\<close>.\<close>

theorem power_by_squaring: "unat (power_u n e) = (unat n ^ unat e) mod 2 ^ 64"
proof -
  have "unat (ucast n :: u64) = unat n"
    by (simp add: unsigned_ucast_eq take_bit_nat_eq_self [OF less_le_trans [OF unsigned_less]])
  then show ?thesis by (simp add: power_u_def power_loop_eq unat_power)
qed

text \<open>\<^verbatim>\<open>floorLog2\<close> and \<^verbatim>\<open>ceilLog2\<close>: for every argument above one the six conditional shifts return
  the exponents of the powers of two that bracket it.\<close>

theorem log2_brackets:
  assumes "1 < x"
  shows "\<exists>f c. floorLog2 x = Inr f \<and> ceilLog2 x = Inr c
    \<and> 2 ^ f \<le> unat x \<and> unat x < 2 ^ (f + 1) \<and> 2 ^ (c - 1) < unat x \<and> unat x \<le> 2 ^ c"
proof -
  have big: "1 < unat x" using assms by (simp add: word_less_nat_alt)
  then have ne: "x \<noteq> 0" "x \<noteq> 1" by auto
  have dec: "unat (x - 1) = unat x - 1" using ne by (simp add: unat_minus_one)
  then have "x - 1 \<noteq> 0" using big by (auto simp flip: unat_eq_zero)
  then obtain f g where f: "floorLog2 x = Inr f" and g: "floorLog2 (x - 1) = Inr g"
    using floorLog2_total ne(1) by blast
  have "ceilLog2 x = Inr (g + 1)" using g ne by (simp add: ceilLog2_def word_gt_0)
  then show ?thesis
    using f floorLog2_bounds [OF f] floorLog2_bounds [OF g] big by (auto simp: dec)
qed

text \<open>\<^verbatim>\<open>roundUp\<close> and \<^verbatim>\<open>roundDown\<close> return the nearest multiples of the alignment on either side of
  the value when the rounded-up value fits in 64 bits, and refuse exactly the alignments that are not
  powers of two.\<close>

theorem round_to_alignment:
  assumes "isPowerOf2 a" "unat v + (unat a - 1) < 2 ^ 64"
  shows "\<exists>u d. roundUp v a = Inr u \<and> roundDown v a = Inr d
    \<and> unat a dvd unat u \<and> unat a dvd unat d \<and> d \<le> v \<and> v \<le> u
    \<and> unat u < unat v + unat a \<and> unat v < unat d + unat a"
proof -
  obtain k where k: "k < 64" "a = 2 ^ k" using assms(1) by (auto simp: isPowerOf2_iff)
  have a: "unat a = 2 ^ k" using k by (simp add: unat_2p)
  have m: "unat (a - 1) = 2 ^ k - 1" using k a by (simp add: unat_minus_one)
  have s: "unat (v + (a - 1)) = unat v + (2 ^ k - 1)"
    using assms(2) by (simp add: a m unat_add_no_wrap)
  have d: "unat v div 2 ^ k * 2 ^ k \<le> unat v" "unat v < unat v div 2 ^ k * 2 ^ k + 2 ^ k"
    by (rule div_bracket)+
  define w where "w = unat v + (2 ^ k - 1)"
  have u: "w div 2 ^ k * 2 ^ k \<le> w" "w < w div 2 ^ k * 2 ^ k + 2 ^ k"
    by (rule div_bracket)+
  have "roundUp v a = Inr ((v + (a - 1)) AND NOT (a - 1))" "roundDown v a = Inr (v AND NOT (a - 1))"
    using k by (simp_all add: roundUp_power roundDown_power)
  moreover have "unat ((v + (a - 1)) AND NOT (a - 1)) = w div 2 ^ k * 2 ^ k"
    using s unat_align [of "v + (a - 1)" k] by (simp add: k(2) w_def)
  moreover have "unat (v AND NOT (a - 1)) = unat v div 2 ^ k * 2 ^ k"
    using unat_align [of v k] by (simp add: k(2))
  moreover have "unat v \<le> w div 2 ^ k * 2 ^ k" "w div 2 ^ k * 2 ^ k < unat v + 2 ^ k"
  proof -
    have "Suc w = unat v + 2 ^ k" by (simp add: w_def)
    then show "unat v \<le> w div 2 ^ k * 2 ^ k" "w div 2 ^ k * 2 ^ k < unat v + 2 ^ k"
      using u by linarith+
  qed
  ultimately show ?thesis
    using d by (auto simp: a word_le_nat_alt)
qed

end
