(* ===== verification/Bitfield.thy ===== *)
theory Bitfield
  imports Int_Math
begin

text \<open>
  The bit-field helpers of \<^verbatim>\<open>gem5/src/base/bitfield.hh\<close> at 64 bits: masks, extraction,
  insertion, sign extension, the positions of the highest and the lowest set bit by
  binary search, and the rounding up to a power of two by smearing.  The lemmas give
  each of them its arithmetic or bitwise specification.
\<close>

unbundle bit_operations_syntax

subsection \<open>Definitions\<close>

definition mask_n :: "nat \<Rightarrow> u64" where
  "mask_n nbits = (if 64 \<le> nbits then -1 else push_bit nbits 1 - 1)"

definition bits :: "u64 \<Rightarrow> nat \<Rightarrow> nat \<Rightarrow> u64" where
  "bits val hi lo = drop_bit lo val AND mask_n (hi + 1 - lo)"

definition mbits :: "u64 \<Rightarrow> nat \<Rightarrow> nat \<Rightarrow> u64" where
  "mbits val hi lo = val AND (mask_n (hi + 1) AND NOT (mask_n lo))"

definition mask_range :: "nat \<Rightarrow> nat \<Rightarrow> u64" where
  "mask_range hi lo = mbits (-1) hi lo"

definition sext :: "nat \<Rightarrow> u64 \<Rightarrow> u64" where
  "sext N val = (if bits val (N - 1) (N - 1) \<noteq> 0 then val OR NOT (mask_n N) else val)"

definition insertBits :: "u64 \<Rightarrow> nat \<Rightarrow> nat \<Rightarrow> u64 \<Rightarrow> u64" where
  "insertBits val hi lo bit_val =
     (let bmask = push_bit lo (mask_n (hi + 1 - lo)) in
      (push_bit lo bit_val AND bmask) OR (val AND NOT bmask))"

definition replaceBits :: "u64 \<Rightarrow> nat \<Rightarrow> nat \<Rightarrow> u64 \<Rightarrow> u64" where
  "replaceBits val hi lo bit_val = insertBits val hi lo bit_val"

text \<open>One line of the binary searches: test \<open>k\<close> bits, and shift them away.\<close>

definition msb_step :: "nat \<Rightarrow> nat \<times> u64 \<Rightarrow> nat \<times> u64" where
  "msb_step k = (\<lambda>(msb, val). if bits val (2 * k - 1) k \<noteq> 0 then (msb + k, drop_bit k val) else (msb, val))"

definition findMsbSet :: "u64 \<Rightarrow> nat" where
  "findMsbSet val =
     (if val = 0 then 0
      else fst (msb_step 1 (msb_step 2 (msb_step 4 (msb_step 8 (msb_step 16 (msb_step 32 (0, val))))))))"

definition lsb_step :: "nat \<Rightarrow> nat \<times> u64 \<Rightarrow> nat \<times> u64" where
  "lsb_step k = (\<lambda>(lsb, val). if bits val (k - 1) 0 = 0 then (lsb + k, drop_bit k val) else (lsb, val))"

definition findLsbSet :: "u64 \<Rightarrow> nat" where
  "findLsbSet val =
     (if val = 0 then 64
      else fst (lsb_step 1 (lsb_step 2 (lsb_step 4 (lsb_step 8 (lsb_step 16 (lsb_step 32 (0, val))))))))"

definition isPow2 :: "u64 \<Rightarrow> bool" where
  "isPow2 v \<longleftrightarrow> v AND (v - 1) = 0"

definition smear :: "nat \<Rightarrow> u64 \<Rightarrow> u64" where
  "smear k val = val OR drop_bit k val"

definition alignToPowerOfTwo :: "u64 \<Rightarrow> u64" where
  "alignToPowerOfTwo val =
     smear 32 (smear 16 (smear 8 (smear 4 (smear 2 (smear 1 (val - 1)))))) + 1"

text \<open>\<^verbatim>\<open>__builtin_popcountl\<close>: the number of set bits.\<close>

definition popCount :: "u64 \<Rightarrow> nat" where
  "popCount val = length (filter (bit val) [0..<64])"

subsection \<open>Masks and fields\<close>

lemma word_zero_bits: "w = 0 \<longleftrightarrow> (\<forall>i. \<not> bit w i)" for w :: "'a::len word"
  by (auto intro: bit_eqI)

lemma mask_n_eq: "mask_n n = mask n"
proof (cases "64 \<le> n")
  case True
  then have "(mask n :: u64) = -1" by (intro bit_eqI) (simp add: bit_mask_iff)
  with True show ?thesis by (simp add: mask_n_def)
qed (simp add: mask_n_def mask_eq_exp_minus_1 push_bit_eq_mult)

lemma bit_mask_n: "bit (mask_n n) i \<longleftrightarrow> i < n \<and> i < 64"
  by (auto simp: mask_n_eq bit_mask_iff)

lemma bit_bits: "lo \<le> hi \<Longrightarrow> bit (bits val hi lo) i \<longleftrightarrow> i < hi + 1 - lo \<and> i + lo < 64 \<and> bit val (i + lo)"
  using bit_imp_le_length [of val "i + lo"]
  by (auto simp: bits_def bit_and_iff bit_mask_n bit_drop_bit_eq add.commute)

lemma bit_mbits: "bit (mbits val hi lo) i \<longleftrightarrow> lo \<le> i \<and> i \<le> hi \<and> bit val i"
  using bit_imp_le_length [of val i] by (auto simp: mbits_def bit_and_iff bit_not_iff bit_mask_n)

lemma unat_bits: "unat (bits val hi lo) = unat val div 2 ^ lo mod 2 ^ (hi + 1 - lo)"
proof -
  have "unat (bits val hi lo) = take_bit (hi + 1 - lo) (unat (drop_bit lo val))"
    by (simp add: bits_def mask_n_eq unsigned_take_bit_eq flip: take_bit_eq_mask)
  then show ?thesis by (simp add: unat_drop take_bit_eq_mod)
qed

lemma bit_insertBits:
  assumes "lo \<le> hi" "i < 64"
  shows "bit (insertBits val hi lo b) i \<longleftrightarrow>
    (if lo \<le> i \<and> i \<le> hi then bit b (i - lo) else bit val i)"
  using assms by (auto simp: insertBits_def Let_def bit_or_iff bit_and_iff bit_not_iff bit_push_bit_iff bit_mask_n)

lemma bit_sext:
  assumes "0 < N" "N \<le> 64" "i < 64"
  shows "bit (sext N val) i \<longleftrightarrow> (if i < N then bit val i else bit val (N - 1) \<or> bit val i)"
proof -
  have "bits val (N - 1) (N - 1) \<noteq> 0 \<longleftrightarrow> bit val (N - 1)"
  proof -
    have "bits val (N - 1) (N - 1) = 0 \<longleftrightarrow> (\<forall>i. \<not> bit (bits val (N - 1) (N - 1)) i)"
      by (rule word_zero_bits)
    then show ?thesis using assms by (auto simp: bit_bits)
  qed
  then show ?thesis using assms by (auto simp: sext_def bit_or_iff bit_not_iff bit_mask_n)
qed

lemma bits_zero: "lo \<le> hi \<Longrightarrow> bits val hi lo = 0 \<longleftrightarrow> (\<forall>i. lo \<le> i \<and> i \<le> hi \<longrightarrow> \<not> bit val i)"
proof -
  assume lh: "lo \<le> hi"
  have "bits val hi lo = 0 \<longleftrightarrow> (\<forall>i. \<not> bit (bits val hi lo) i)"
    by (rule word_zero_bits)
  also have "\<dots> \<longleftrightarrow> (\<forall>i. lo \<le> i \<and> i \<le> hi \<longrightarrow> \<not> bit val i)"
  proof (intro iffI allI impI)
    fix i
    assume "\<forall>i. \<not> bit (bits val hi lo) i" and "lo \<le> i \<and> i \<le> hi"
    then show "\<not> bit val i"
      using bit_bits [OF lh, of val "i - lo"] bit_imp_le_length [of val i] by auto
  qed (auto simp: bit_bits [OF lh])
  finally show ?thesis .
qed

subsection \<open>Searching for a bit\<close>

text \<open>Between the lines of the search the value is the argument shifted by what was counted, and its
  highest set bit is among the lowest \<open>w\<close>.\<close>

definition msb_inv :: "u64 \<Rightarrow> nat \<Rightarrow> nat \<times> u64 \<Rightarrow> bool" where
  "msb_inv x w = (\<lambda>(m, v). unat v = unat x div 2 ^ m \<and> v \<noteq> 0 \<and> unat v < 2 ^ w)"

lemma unat_bits_top: "unat v < 2 ^ (2 * k) \<Longrightarrow> 0 < k \<Longrightarrow> unat (bits v (2 * k - 1) k) = unat v div 2 ^ k"
proof -
  assume v: "unat v < 2 ^ (2 * k)" and k: "0 < k"
  have "unat v div 2 ^ k < 2 ^ k"
    using v by (simp add: less_mult_imp_div_less power_add mult_2)
  then show ?thesis using k by (simp add: unat_bits)
qed

lemma msb_step_inv:
  assumes "msb_inv x (2 * k) p" "0 < k"
  shows "msb_inv x k (msb_step k p)"
proof -
  obtain m v where p: "p = (m, v)" by (cases p)
  have v: "unat v = unat x div 2 ^ m" "v \<noteq> 0" "unat v < 2 ^ (2 * k)" using assms(1) by (auto simp: p msb_inv_def)
  note u = unat_bits_top [OF v(3) assms(2)]
  have lt: "unat v div 2 ^ k < 2 ^ k" using v(3) by (simp add: less_mult_imp_div_less power_add mult_2)
  show ?thesis
  proof (cases "bits v (2 * k - 1) k = 0")
    case True
    then have "unat v div 2 ^ k = 0" using u by simp
    then have "unat v < 2 ^ k" by (simp add: div_eq_0_iff)
    then show ?thesis using True v by (simp add: p msb_step_def msb_inv_def)
  next
    case False
    then have "unat v div 2 ^ k \<noteq> 0" using u by (metis unat_eq_0)
    then have "unat (drop_bit k v) \<noteq> 0" by (simp add: unat_drop)
    then have "drop_bit k v \<noteq> 0" by auto
    then show ?thesis
      using False v(1) lt by (simp add: p msb_step_def msb_inv_def unat_drop div_mult2_eq power_add)
  qed
qed

lemma findMsbSet_spec:
  assumes "x \<noteq> 0"
  shows "2 ^ findMsbSet x \<le> unat x" "unat x < 2 ^ (findMsbSet x + 1)"
proof -
  have "msb_inv x 64 (0, x)" using assms unsigned_less [of x, where ?'a = nat] by (simp add: msb_inv_def)
  from msb_step_inv [of x 32, simplified, OF this] have "msb_inv x 32 (msb_step 32 (0, x))" .
  from msb_step_inv [of x 16, simplified, OF this] have "msb_inv x 16 (msb_step 16 (msb_step 32 (0, x)))" .
  from msb_step_inv [of x 8, simplified, OF this] have "msb_inv x 8 (msb_step 8 (msb_step 16 (msb_step 32 (0, x))))" .
  from msb_step_inv [of x 4, simplified, OF this]
  have "msb_inv x 4 (msb_step 4 (msb_step 8 (msb_step 16 (msb_step 32 (0, x)))))" .
  from msb_step_inv [of x 2, simplified, OF this]
  have "msb_inv x 2 (msb_step 2 (msb_step 4 (msb_step 8 (msb_step 16 (msb_step 32 (0, x))))))" .
  from msb_step_inv [of x 1, simplified, OF this] obtain v where
    "msb_inv x 1 (findMsbSet x, v)"
    using assms by (cases "msb_step 1 (msb_step 2 (msb_step 4 (msb_step 8 (msb_step 16 (msb_step 32 (0, x))))))")
      (auto simp: findMsbSet_def)
  then have "unat v = unat x div 2 ^ findMsbSet x" "v \<noteq> 0" "unat v < 2" by (auto simp: msb_inv_def)
  then have "unat x div 2 ^ findMsbSet x = 1" by (metis One_nat_def less_2_cases unat_eq_0)
  then show "2 ^ findMsbSet x \<le> unat x" "unat x < 2 ^ (findMsbSet x + 1)"
    using div_bracket [of "unat x" "findMsbSet x"] by auto
qed

text \<open>The same for the lowest set bit: what was shifted out is zero, and a set bit is among the lowest \<open>w\<close>.\<close>

definition lsb_inv :: "u64 \<Rightarrow> nat \<Rightarrow> nat \<times> u64 \<Rightarrow> bool" where
  "lsb_inv x w = (\<lambda>(l, v). v = drop_bit l x \<and> (\<forall>i < l. \<not> bit x i) \<and> (\<exists>i < w. bit v i))"

lemma lsb_step_inv:
  assumes "lsb_inv x (2 * k) p" "0 < k"
  shows "lsb_inv x k (lsb_step k p)"
proof -
  obtain l v where p: "p = (l, v)" by (cases p)
  have v: "v = drop_bit l x" "\<forall>i < l. \<not> bit x i" and ex: "\<exists>i < 2 * k. bit v i"
    using assms(1) by (auto simp: p lsb_inv_def)
  have z: "bits v (k - 1) 0 = 0 \<longleftrightarrow> (\<forall>i < k. \<not> bit v i)" using assms(2) by (subst bits_zero) auto
  show ?thesis
  proof (cases "bits v (k - 1) 0 = 0")
    case True
    have "\<forall>i < l + k. \<not> bit x i"
    proof (intro allI impI)
      fix i
      assume "i < l + k"
      then show "\<not> bit x i"
        using v True z by (cases "i < l") (auto simp: bit_drop_bit_eq dest: spec [of _ "i - l"])
    qed
    moreover obtain j where "j < 2 * k" "bit v j" using ex by blast
    moreover from this have "k \<le> j" using True z by (meson not_le)
    ultimately have "\<exists>i < k. bit (drop_bit k v) i"
      by (intro exI [of _ "j - k"]) (auto simp: bit_drop_bit_eq)
    with \<open>\<forall>i < l + k. \<not> bit x i\<close> show ?thesis
      using True v by (simp add: p lsb_step_def lsb_inv_def drop_bit_drop_bit add.commute)
  next
    case False
    then show ?thesis using v z by (auto simp: p lsb_step_def lsb_inv_def)
  qed
qed

lemma findLsbSet_spec:
  assumes "x \<noteq> 0"
  shows "bit x (findLsbSet x)" "\<forall>i < findLsbSet x. \<not> bit x i"
proof -
  obtain i where i: "bit x i" using assms by (auto simp: word_zero_bits)
  then have "lsb_inv x 64 (0, x)" using bit_imp_le_length [OF i] by (auto simp: lsb_inv_def)
  from lsb_step_inv [of x 32, simplified, OF this] have "lsb_inv x 32 (lsb_step 32 (0, x))" .
  from lsb_step_inv [of x 16, simplified, OF this] have "lsb_inv x 16 (lsb_step 16 (lsb_step 32 (0, x)))" .
  from lsb_step_inv [of x 8, simplified, OF this] have "lsb_inv x 8 (lsb_step 8 (lsb_step 16 (lsb_step 32 (0, x))))" .
  from lsb_step_inv [of x 4, simplified, OF this]
  have "lsb_inv x 4 (lsb_step 4 (lsb_step 8 (lsb_step 16 (lsb_step 32 (0, x)))))" .
  from lsb_step_inv [of x 2, simplified, OF this]
  have "lsb_inv x 2 (lsb_step 2 (lsb_step 4 (lsb_step 8 (lsb_step 16 (lsb_step 32 (0, x))))))" .
  from lsb_step_inv [of x 1, simplified, OF this] obtain v where
    "lsb_inv x 1 (findLsbSet x, v)"
    using assms by (cases "lsb_step 1 (lsb_step 2 (lsb_step 4 (lsb_step 8 (lsb_step 16 (lsb_step 32 (0, x))))))")
      (auto simp: findLsbSet_def)
  then show "bit x (findLsbSet x)" "\<forall>i < findLsbSet x. \<not> bit x i" by (auto simp: lsb_inv_def bit_drop_bit_eq)
qed

subsection \<open>Rounding up to a power of two\<close>

definition smeared :: "u64 \<Rightarrow> nat \<Rightarrow> u64 \<Rightarrow> bool" where
  "smeared x k v \<longleftrightarrow> (\<forall>i. bit v i \<longleftrightarrow> (\<exists>j < k. bit x (i + j)))"

lemma smear_step:
  assumes "smeared x k v"
  shows "smeared x (2 * k) (smear k v)"
  unfolding smeared_def
proof
  fix i
  have "bit (smear k v) i \<longleftrightarrow> (\<exists>j < k. bit x (i + j)) \<or> (\<exists>j < k. bit x (i + (k + j)))"
    using assms by (simp add: smeared_def smear_def bit_or_iff bit_drop_bit_eq ac_simps)
  also have "\<dots> \<longleftrightarrow> (\<exists>j < 2 * k. bit x (i + j))"
  proof (intro iffI)
    assume "(\<exists>j < k. bit x (i + j)) \<or> (\<exists>j < k. bit x (i + (k + j)))"
    then obtain j where "j < k" "bit x (i + j) \<or> bit x (i + (k + j))" by blast
    then show "\<exists>j < 2 * k. bit x (i + j)"
      by (elim disjE) (rule exI [of _ j], simp, rule exI [of _ "k + j"], simp)
  next
    assume "\<exists>j < 2 * k. bit x (i + j)"
    then obtain j where "j < 2 * k" "bit x (i + j)" by blast
    then show "(\<exists>j < k. bit x (i + j)) \<or> (\<exists>j < k. bit x (i + (k + j)))"
      by (cases "j < k") (auto intro: exI [of _ "j - k"])
  qed
  finally show "bit (smear k v) i \<longleftrightarrow> (\<exists>j < 2 * k. bit x (i + j))" .
qed

lemma smeared_all: "smeared x 64 (smear 32 (smear 16 (smear 8 (smear 4 (smear 2 (smear 1 x))))))"
proof -
  have "smeared x 1 x" by (simp add: smeared_def)
  from smear_step [OF this] have "smeared x 2 (smear 1 x)" by simp
  from smear_step [OF this] have "smeared x 4 (smear 2 (smear 1 x))" by simp
  from smear_step [OF this] have "smeared x 8 (smear 4 (smear 2 (smear 1 x)))" by simp
  from smear_step [OF this] have "smeared x 16 (smear 8 (smear 4 (smear 2 (smear 1 x))))" by simp
  from smear_step [OF this] have "smeared x 32 (smear 16 (smear 8 (smear 4 (smear 2 (smear 1 x)))))" by simp
  from smear_step [OF this] show ?thesis by simp
qed

lemma smeared_mask:
  assumes "2 ^ m \<le> unat x" "unat x < 2 ^ (m + 1)"
  shows "smear 32 (smear 16 (smear 8 (smear 4 (smear 2 (smear 1 x))))) = mask (m + 1)"
proof (rule bit_word_eqI)
  fix i
  assume "i < LENGTH(64)"
  then have i: "i < 64" by simp
  have top: "bit x m" by (rule top_bit) (use assms in auto)
  have below: "bit x j \<Longrightarrow> j \<le> m" for j using bit_below [OF assms(2)] by fastforce
  have m: "m < 64" using bit_imp_le_length [OF top] by simp
  have "(\<exists>j < 64. bit x (i + j)) \<longleftrightarrow> i \<le> m"
  proof
    assume "i \<le> m"
    then show "\<exists>j < 64. bit x (i + j)" using top m by (intro exI [of _ "m - i"]) simp
  qed (auto dest: below)
  then show "bit (smear 32 (smear 16 (smear 8 (smear 4 (smear 2 (smear 1 x)))))) i \<longleftrightarrow> bit (mask (m + 1) :: u64) i"
    using smeared_all [of x] i by (auto simp: smeared_def bit_mask_iff)
qed

lemma floorLog2_unique:
  assumes "2 ^ m \<le> unat x" "unat x < 2 ^ (m + 1)"
  shows "floorLog2 x = Inr m"
proof -
  have "x \<noteq> 0" using assms(1) by auto
  then obtain y where y: "floorLog2 x = Inr y" using floorLog2_total by blast
  have b: "2 ^ y \<le> unat x" "unat x < 2 ^ (y + 1)" using floorLog2_bounds y by blast+
  have "m < y + 1" using assms(1) b(2) by (metis le_less_trans nat_power_less_imp_less numeral_2_eq_2 zero_less_Suc)
  moreover have "y < m + 1" using assms(2) b(1) by (metis le_less_trans nat_power_less_imp_less numeral_2_eq_2 zero_less_Suc)
  ultimately show ?thesis using y by simp
qed

subsection \<open>Properties\<close>

text \<open>The binary search of \<^verbatim>\<open>findMsbSet\<close> and the table-free logarithm \<^verbatim>\<open>floorLog2\<close> compute the same
  number, the position of the highest set bit, and \<^verbatim>\<open>findLsbSet\<close> the position of the lowest.\<close>

theorem find_set_bit:
  assumes "x \<noteq> 0"
  shows "floorLog2 x = Inr (findMsbSet x) \<and> bit x (findMsbSet x) \<and> (\<forall>i > findMsbSet x. \<not> bit x i) \<and>
    bit x (findLsbSet x) \<and> (\<forall>i < findLsbSet x. \<not> bit x i)"
proof -
  note m = findMsbSet_spec [OF assms]
  have "\<forall>i > findMsbSet x. \<not> bit x i" using bit_below [OF m(2)] by fastforce
  with floorLog2_unique [OF m] top_bit [OF m] findLsbSet_spec [OF assms] show ?thesis by blast
qed

text \<open>\<^verbatim>\<open>alignToPowerOfTwo\<close> returns the least power of two that is not below its argument, for arguments up
  to 2^63.\<close>

theorem align_to_power:
  assumes "0 < unat x" and "unat x \<le> 2 ^ 63"
  shows "\<exists>k < 64. alignToPowerOfTwo x = 2 ^ k \<and> unat x \<le> 2 ^ k \<and> (\<forall>j. unat x \<le> 2 ^ j \<longrightarrow> k \<le> j)"
proof (cases "unat x = 1")
  case True
  then have "x = 1" by (metis unsigned_1 word_unat_eq_iff)
  then have "alignToPowerOfTwo x = 2 ^ 0" by (simp add: alignToPowerOfTwo_def smear_def)
  with True show ?thesis by (intro exI [of _ 0]) simp
next
  case False
  then have u: "unat (x - 1) = unat x - 1" "x - 1 \<noteq> 0" using assms(1) by (auto simp: unat_sub_if' unat_eq_0)
  define m where "m = findMsbSet (x - 1)"
  have b: "2 ^ m \<le> unat (x - 1)" "unat (x - 1) < 2 ^ (m + 1)"
    unfolding m_def by (rule findMsbSet_spec [OF u(2)])+
  have "(2::nat) ^ m < 2 ^ 63" using b(1) u(1) assms by linarith
  then have m: "m < 63" by (rule power_less_imp_less_exp [rotated]) simp
  have "alignToPowerOfTwo x = mask (m + 1) + 1" unfolding alignToPowerOfTwo_def smeared_mask [OF b] ..
  also have "\<dots> = 2 ^ (m + 1)" by (simp add: mask_eq_exp_minus_1)
  finally have e: "alignToPowerOfTwo x = 2 ^ (m + 1)" .
  have "m + 1 \<le> j" if "unat x \<le> 2 ^ j" for j
  proof -
    have "(2::nat) ^ m < 2 ^ j" using b(1) u(1) assms(1) that by linarith
    then have "m < j" by (rule power_less_imp_less_exp [rotated]) simp
    then show ?thesis by simp
  qed
  with e m b(2) u(1) show ?thesis by (intro exI [of _ "m + 1"]) auto
qed

text \<open>A field that was inserted is read back, and the bits outside the field are unchanged.\<close>

theorem insert_extract:
  assumes "lo \<le> hi" and "hi < 64"
  shows "bits (insertBits val hi lo b) hi lo = b AND mask_n (hi + 1 - lo) \<and>
    (\<forall>i < 64. i < lo \<or> hi < i \<longrightarrow> bit (insertBits val hi lo b) i = bit val i)"
proof
  show "bits (insertBits val hi lo b) hi lo = b AND mask_n (hi + 1 - lo)"
    by (rule bit_word_eqI) (use assms in \<open>auto simp: bit_bits bit_insertBits bit_and_iff bit_mask_n split: if_splits\<close>)
  show "\<forall>i < 64. i < lo \<or> hi < i \<longrightarrow> bit (insertBits val hi lo b) i = bit val i"
    using assms by (auto simp: bit_insertBits)
qed

end
