(* ===== verification/Clocked_Object.thy ===== *)
theory Clocked_Object
  imports HetSim_Prelude Int_Math
begin

text \<open>
  Clocks: \<^verbatim>\<open>Clocked\<close> of \<^verbatim>\<open>gem5/src/sim/clocked_object.hh\<close> (the tick of the next clock edge and the
  cycle count at it, brought up to date on demand) and the clock domains of
  \<^verbatim>\<open>gem5/src/sim/clock_domain.cc\<close> (a source domain and the tree of derived domains below it).
  The queue's current tick and the domain's period are arguments of the operations, as
  \<^verbatim>\<open>curTick()\<close> and \<^verbatim>\<open>clockPeriod()\<close> are calls in the code. All arithmetic is at 64 bits.
\<close>

subsection \<open>Clocked objects\<close>

record clocked =
  ctick :: Tick
  ccycle :: u64

definition new_clocked :: clocked where
  "new_clocked = \<lparr>ctick = 0, ccycle = 0\<rparr>"

definition update :: "Tick \<Rightarrow> Tick \<Rightarrow> clocked \<Rightarrow> clocked res" where
  "update cur period c =
     (if ctick c \<ge> cur then Inr c
      else
        let c1 = c\<lparr>ctick := ctick c + period, ccycle := ccycle c + 1\<rparr> in
        if ctick c1 \<ge> cur then Inr c1
        else rbind (divCeil (cur - ctick c1) period) (\<lambda>elapsed.
               Inr (c1\<lparr>ccycle := ccycle c1 + elapsed, ctick := ctick c1 + elapsed * period\<rparr>)))"

definition resetClock :: "Tick \<Rightarrow> Tick \<Rightarrow> clocked \<Rightarrow> clocked res" where
  "resetClock cur period c =
     rbind (divCeil cur period) (\<lambda>elapsed.
       Inr (c\<lparr>ccycle := elapsed, ctick := elapsed * period\<rparr>))"

definition clockEdge :: "Tick \<Rightarrow> Tick \<Rightarrow> u64 \<Rightarrow> clocked \<Rightarrow> (Tick \<times> clocked) res" where
  "clockEdge cur period cycles c =
     rbind (update cur period c) (\<lambda>c'. Inr (ctick c' + period * cycles, c'))"

definition curCycle :: "Tick \<Rightarrow> Tick \<Rightarrow> clocked \<Rightarrow> (u64 \<times> clocked) res" where
  "curCycle cur period c = rbind (update cur period c) (\<lambda>c'. Inr (ccycle c', c'))"

definition nextCycle :: "Tick \<Rightarrow> Tick \<Rightarrow> clocked \<Rightarrow> (Tick \<times> clocked) res" where
  "nextCycle cur period c = clockEdge cur period 1 c"

definition ticksToCycles :: "Tick \<Rightarrow> Tick \<Rightarrow> u64 res" where
  "ticksToCycles period t = divCeil t period"

definition cyclesToTicks :: "Tick \<Rightarrow> u64 \<Rightarrow> Tick" where
  "cyclesToTicks period c = period * c"

subsection \<open>Clock domains\<close>

text \<open>A domain with its members and the derived domains registered with it; \<open>divider\<close> is the
  \<^verbatim>\<open>clockDivider\<close> of a derived domain (a source domain does not read it).\<close>

datatype domain = ClkDomain (period: Tick) (divider: u64) (members: "clocked list") (children: "domain list")

fun update_all :: "Tick \<Rightarrow> Tick \<Rightarrow> clocked list \<Rightarrow> clocked list res" where
  "update_all cur p [] = Inr []"
| "update_all cur p (c # cs) =
     rbind (update cur p c) (\<lambda>c'. rbind (update_all cur p cs) (\<lambda>cs'. Inr (c' # cs')))"

text \<open>\<^verbatim>\<open>DerivedClockDomain::updateClockPeriod\<close>: align the members at the old period, take the period
  from the parent's, tell the children.\<close>

fun derived_update :: "Tick \<Rightarrow> Tick \<Rightarrow> domain \<Rightarrow> domain res"
  and derived_update_list :: "Tick \<Rightarrow> Tick \<Rightarrow> domain list \<Rightarrow> domain list res" where
  "derived_update cur parent (ClkDomain p dv ms cs) =
     rbind (update_all cur p ms) (\<lambda>ms'.
       let p' = parent * dv in
       rbind (derived_update_list cur p' cs) (\<lambda>cs'. Inr (ClkDomain p' dv ms' cs')))"
| "derived_update_list cur parent [] = Inr []"
| "derived_update_list cur parent (d # ds) =
     rbind (derived_update cur parent d) (\<lambda>d'.
       rbind (derived_update_list cur parent ds) (\<lambda>ds'. Inr (d' # ds')))"

text \<open>\<^verbatim>\<open>SrcClockDomain::clockPeriod(Tick)\<close>.\<close>

definition src_set_period :: "Tick \<Rightarrow> Tick \<Rightarrow> domain \<Rightarrow> domain res" where
  "src_set_period cur p' d =
     (case d of ClkDomain p dv ms cs \<Rightarrow>
        require (p' \<noteq> 0) (Fatal ''clock period of zero'')
        (rbind (update_all cur p ms) (\<lambda>ms'.
           rbind (derived_update_list cur p' cs) (\<lambda>cs'. Inr (ClkDomain p' dv ms' cs')))))"

text \<open>The constructor of a derived domain below a parent whose period is given.\<close>

definition new_derived :: "Tick \<Rightarrow> Tick \<Rightarrow> u64 \<Rightarrow> domain res" where
  "new_derived cur parent dv =
     require (1 \<le> dv) (Fatal ''Clock divider param cannot be less than 1'')
     (derived_update cur parent (ClkDomain 0 dv [] []))"

subsection \<open>Edges\<close>

lemma divCeil_nat:
  assumes "b \<noteq> 0" "unat a + unat b \<le> 2 ^ 64"
  shows "divCeil a b = Inr q \<longleftrightarrow> unat q = (unat a + unat b - 1) div unat b"
proof -
  have b: "0 < unat b" using assms(1) by (simp add: unat_gt_0)
  have "unat (a + (b - 1)) = unat a + (unat b - 1)"
    using assms b by (subst unat_add_no_wrap) (simp_all add: unat_minus_one)
  then have s: "unat (a + b - 1) = unat a + unat b - 1"
    using b by (simp add: add_diff_eq)
  have "divCeil a b = Inr ((a + b - 1) div b)" using assms(1) by (simp add: divCeil_def)
  moreover have "unat ((a + b - 1) div b) = (unat a + unat b - 1) div unat b"
    by (simp add: unat_div s)
  ultimately show ?thesis by (metis Inr_inject unsigned_word_eqI)
qed

lemma ceil_bracket:
  fixes a b :: nat
  assumes "0 < b"
  defines "q \<equiv> (a + b - 1) div b"
  shows "a \<le> q * b" "q * b < a + b"
proof -
  have "a + b - 1 < b + q * b" "q * b \<le> a + b - 1"
    unfolding q_def using assms(1) by (simp_all only: dividend_less_div_times div_times_less_eq_dividend)
  then show "a \<le> q * b" "q * b < a + b" using assms(1) by linarith+
qed

text \<open>What \<^verbatim>\<open>update\<close> establishes: \<open>n\<close> whole periods were added, the edge is not in the past, and the
  edge before it was.\<close>

definition edge_after :: "Tick \<Rightarrow> Tick \<Rightarrow> clocked \<Rightarrow> nat \<Rightarrow> clocked \<Rightarrow> bool" where
  "edge_after cur p c n c' \<longleftrightarrow>
     unat (ctick c') = unat (ctick c) + n * unat p \<and> ccycle c' = ccycle c + of_nat n
     \<and> cur \<le> ctick c' \<and> (n \<noteq> 0 \<longrightarrow> unat (ctick c') < unat cur + unat p)"

lemma update_edge:
  assumes "p \<noteq> 0" "unat cur + unat p \<le> 2 ^ 64"
  shows "\<exists>c' n. update cur p c = Inr c' \<and> edge_after cur p c n c'"
proof (cases "ctick c \<ge> cur")
  case True
  then have "update cur p c = Inr c" "edge_after cur p c 0 c"
    by (simp_all add: update_def edge_after_def)
  then show ?thesis by blast
next
  case late: False
  have p: "0 < unat p" using assms(1) by (simp add: unat_gt_0)
  have t1: "unat (ctick c + p) = unat (ctick c) + unat p"
    using late assms(2) by (intro unat_add_no_wrap) (simp add: word_le_nat_alt)
  show ?thesis
  proof (cases "ctick c + p \<ge> cur")
    case True
    define c1 where "c1 = c\<lparr>ctick := ctick c + p, ccycle := ccycle c + 1\<rparr>"
    have "update cur p c = Inr c1" using late True by (simp add: update_def c1_def)
    moreover have "edge_after cur p c 1 c1"
      using late True t1 p by (simp add: edge_after_def c1_def word_le_nat_alt)
    ultimately show ?thesis by blast
  next
    case False
    define r where "r = unat cur - unat (ctick c + p)"
    have r: "unat (cur - (ctick c + p)) = r" "unat (ctick c) + unat p + r = unat cur" "0 < r"
      using False t1 by (simp_all add: r_def unat_sub word_le_nat_alt)
    define q where "q = (r + unat p - 1) div unat p"
    obtain e where e: "divCeil (cur - (ctick c + p)) p = Inr e"
      using assms(1) by (simp add: divCeil_def)
    have uq: "unat e = q"
      using divCeil_nat [of p "cur - (ctick c + p)" e] e r assms by (simp add: q_def)
    have q: "r \<le> q * unat p" "q * unat p < r + unat p"
      using ceil_bracket [OF p, of r] by (simp_all add: q_def)
    have m: "unat (e * p) = q * unat p"
      using q(2) r(2) assms(2) by (subst unat_mult_no_wrap) (simp_all add: uq)
    have t2: "unat (ctick c + p + e * p) = unat (ctick c) + unat p + q * unat p"
      using q(2) r(2) assms(2) by (subst unat_add_no_wrap) (simp_all add: m t1)
    define c2 where "c2 = c\<lparr>ctick := ctick c + p + e * p, ccycle := ccycle c + 1 + e\<rparr>"
    have "update cur p c = Inr c2" using late False e by (simp add: update_def c2_def)
    moreover have "edge_after cur p c (Suc q) c2"
      using t2 q r(2) uq by (auto simp: edge_after_def c2_def word_le_nat_alt algebra_simps)
    ultimately show ?thesis by blast
  qed
qed

lemma update_idem: "update cur p c = Inr c' \<Longrightarrow> cur \<le> ctick c' \<Longrightarrow> update cur p c' = Inr c'"
  by (simp add: update_def)

lemma clockEdge_edge:
  assumes "p \<noteq> 0" "unat cur + unat p \<le> 2 ^ 64" "unat (ctick c) < unat cur + unat p"
    "unat cur + unat p + unat p * unat k \<le> 2 ^ 64"
  shows "\<exists>t c' n. clockEdge cur p k c = Inr (t, c') \<and> edge_after cur p c n c'
    \<and> unat t = unat (ctick c') + unat p * unat k \<and> unat (ctick c') < unat cur + unat p"
proof -
  obtain c' n where u: "update cur p c = Inr c'" and e: "edge_after cur p c n c'"
    using update_edge [OF assms(1,2)] by blast
  have lt: "unat (ctick c') < unat cur + unat p"
    using e assms(3) by (cases "n = 0") (auto simp: edge_after_def)
  have m: "unat (p * k) = unat p * unat k"
    using assms(4) unsigned_less [of cur, where ?'a = nat] lt
    by (intro unat_mult_no_wrap) (use assms(1) in \<open>simp add: unat_gt_0 [symmetric]\<close>)
  have "unat (ctick c' + p * k) = unat (ctick c') + unat p * unat k"
    using lt assms(4) by (subst unat_add_no_wrap) (simp_all add: m)
  then show ?thesis using u e lt by (auto simp: clockEdge_def)
qed

subsection \<open>Propagation through the domains\<close>

text \<open>Every period below a domain is the parent's times the divider.\<close>

fun coherent :: "Tick \<Rightarrow> domain \<Rightarrow> bool" where
  "coherent parent (ClkDomain p dv ms cs) \<longleftrightarrow> p = parent * dv \<and> list_all (coherent p) cs"

text \<open>The domain tree without periods and clocks: what no update may change.\<close>

datatype shape = Shape u64 nat "shape list"

fun shape_of :: "domain \<Rightarrow> shape" where
  "shape_of (ClkDomain p dv ms cs) = Shape dv (length ms) (map shape_of cs)"

lemma update_all_length: "update_all cur p ms = Inr ms' \<Longrightarrow> length ms' = length ms"
  by (induction cur p ms arbitrary: ms' rule: update_all.induct) auto

lemma derived_update_coherent:
  "derived_update cur parent d = Inr d' \<Longrightarrow> coherent parent d' \<and> shape_of d' = shape_of d"
  "derived_update_list cur parent ds = Inr ds' \<Longrightarrow>
     list_all (coherent parent) ds' \<and> map shape_of ds' = map shape_of ds"
  by (induction cur parent d and cur parent ds arbitrary: d' and ds'
      rule: derived_update_derived_update_list.induct)
    (auto simp: Let_def dest: update_all_length)

text \<open>Periods that are not zero stay so, and no member is left behind the current tick.\<close>

fun clocks_ok :: "Tick \<Rightarrow> domain \<Rightarrow> bool" where
  "clocks_ok cur (ClkDomain p dv ms cs) \<longleftrightarrow>
     (\<forall>c \<in> set ms. cur \<le> ctick c) \<and> list_all (clocks_ok cur) cs"

fun periods_ok :: "Tick \<Rightarrow> domain \<Rightarrow> bool" where
  "periods_ok cur (ClkDomain p dv ms cs) \<longleftrightarrow>
     p \<noteq> 0 \<and> unat cur + unat p \<le> 2 ^ 64 \<and> list_all (periods_ok cur) cs"

lemma update_all_total:
  assumes "p \<noteq> 0" "unat cur + unat p \<le> 2 ^ 64"
  shows "\<exists>ms'. update_all cur p ms = Inr ms' \<and> (\<forall>c \<in> set ms'. cur \<le> ctick c)"
proof (induction ms)
  case (Cons c ms)
  then show ?case using update_edge [OF assms, of c] by (auto simp: edge_after_def)
qed simp

lemma derived_update_total:
  "periods_ok cur d \<Longrightarrow> \<exists>d'. derived_update cur parent d = Inr d' \<and> clocks_ok cur d'"
  "list_all (periods_ok cur) ds \<Longrightarrow>
     \<exists>ds'. derived_update_list cur parent ds = Inr ds' \<and> list_all (clocks_ok cur) ds'"
proof (induction cur parent d and cur parent ds rule: derived_update_derived_update_list.induct)
  case (1 cur parent p dv ms cs)
  then obtain ms' where ms: "update_all cur p ms = Inr ms'" "\<forall>c \<in> set ms'. cur \<le> ctick c"
    using update_all_total [of p cur ms] by auto
  then obtain cs' where "derived_update_list cur (parent * dv) cs = Inr cs'" "list_all (clocks_ok cur) cs'"
    using "1.IH" [OF ms(1) refl] "1.prems" by auto
  then show ?case using ms by (simp add: Let_def)
qed auto

subsection \<open>Properties\<close>



text \<open>C29: changing the period of a source domain: a zero period is the fatal error; otherwise, when the
  old periods are sound, the change reaches every derived domain (each has its parent's new period times
  its divider), every member of every domain was first aligned to an edge that is not in the past, and
  the tree of domains is otherwise as before.\<close>

theorem src_set_period_propagates:
  assumes "periods_ok cur d" "p' \<noteq> 0"
  shows "\<exists>d'. src_set_period cur p' d = Inr d' \<and> period d' = p' \<and> divider d' = divider d
    \<and> list_all (coherent p') (children d') \<and> clocks_ok cur d'
    \<and> map shape_of (children d') = map shape_of (children d)
    \<and> src_set_period cur 0 d = Inl (Fatal ''clock period of zero'')"
proof (cases d)
  case (ClkDomain p dv ms cs)
  obtain ms' where ms: "update_all cur p ms = Inr ms'" "\<forall>c \<in> set ms'. cur \<le> ctick c"
    using update_all_total [of p cur ms] assms(1) by (auto simp: ClkDomain)
  obtain cs' where cs: "derived_update_list cur p' cs = Inr cs'" "list_all (clocks_ok cur) cs'"
    using derived_update_total(2) [of cur cs p'] assms(1) by (auto simp: ClkDomain)
  show ?thesis
    using ms cs assms(2) derived_update_coherent(2) [OF cs(1)]
    by (simp add: src_set_period_def ClkDomain)
qed

theorem src_set_period_propagates_witness:
  "let d = ClkDomain 10 1 [new_clocked] [ClkDomain 20 2 [new_clocked] []] in
   \<exists>d'. src_set_period 25 7 d = Inr d' \<and> period d' = 7 \<and> divider d' = divider d
    \<and> list_all (coherent 7) (children d') \<and> clocks_ok 25 d'
    \<and> map shape_of (children d') = map shape_of (children d)
    \<and> src_set_period 25 0 d = Inl (Fatal ''clock period of zero'')"
  unfolding Let_def by (rule src_set_period_propagates) simp_all

end
