(* ===== verification/Trace_Stream.thy ===== *)
theory Trace_Stream
  imports HetSim_Prelude
begin

text \<open>
  The trace file as \<^verbatim>\<open>TRE\<close> reads it (\<^verbatim>\<open>gem5/src/cpu/tre/tre.cc\<close>): an \<^verbatim>\<open>std::ifstream\<close> with its
  position and its two state bits, the whitespace-separated extraction of
  \<^verbatim>\<open>readNextToken\<close>, \<^verbatim>\<open>tellg\<close> and \<^verbatim>\<open>seekg\<close>, and the conversions \<^verbatim>\<open>std::stol\<close> and \<^verbatim>\<open>std::stoi\<close>
  with the exceptions they throw.  The lemmas describe reading a text that consists
  of tokens and separators, and that printing a number and converting it back is
  the identity.
\<close>

subsection \<open>Streams\<close>

record istream =
  sbuf :: string
  spos :: nat
  seof :: bool
  sfail :: bool
  sopen :: bool

definition open_stream :: "string \<Rightarrow> istream" where
  "open_stream text = \<lparr>sbuf = text, spos = 0, seof = False, sfail = False, sopen = True\<rparr>"

definition isspace :: "char \<Rightarrow> bool" where
  "isspace c \<longleftrightarrow> c \<in> {CHR '' '', CHR 0x09, CHR 0x0A, CHR 0x0B, CHR 0x0C, CHR 0x0D}"

definition unread :: "istream \<Rightarrow> string" where
  "unread st = (if sopen st then drop (spos st) (sbuf st) else [])"

definition readNextToken :: "istream \<Rightarrow> string \<times> istream" where
  "readNextToken st =
     (if seof st \<or> sfail st then ('''', st\<lparr>sfail := True\<rparr>)
      else
        let r = dropWhile isspace (unread st) in
        if r = [] then ('''', st\<lparr>spos := length (sbuf st), seof := True, sfail := True\<rparr>)
        else
          let w = takeWhile (\<lambda>c. \<not> isspace c) r; r' = dropWhile (\<lambda>c. \<not> isspace c) r in
          (w, st\<lparr>spos := length (sbuf st) - length r', seof := (r' = [])\<rparr>))"

definition tellg :: "istream \<Rightarrow> int \<times> istream" where
  "tellg st =
     (if seof st \<or> sfail st then (-1, st\<lparr>sfail := True\<rparr>)
      else (if sopen st then int (spos st) else -1, st))"

definition seekg :: "int \<Rightarrow> istream \<Rightarrow> istream" where
  "seekg p st =
     (let st1 = st\<lparr>seof := False\<rparr> in
      if sfail st1 then st1
      else if p < 0 \<or> \<not> sopen st1 then st1\<lparr>sfail := True\<rparr>
      else st1\<lparr>spos := nat p\<rparr>)"

definition close_stream :: "istream \<Rightarrow> istream" where
  "close_stream st = st\<lparr>sopen := False\<rparr>"

subsection \<open>Number conversion\<close>

definition digit_val :: "char \<Rightarrow> nat" where
  "digit_val c =
     (let n = of_char c :: nat in
      if 48 \<le> n \<and> n \<le> 57 then n - 48
      else if 97 \<le> n \<and> n \<le> 122 then n - 87
      else if 65 \<le> n \<and> n \<le> 90 then n - 55
      else 36)"

fun digits_val :: "nat \<Rightarrow> nat \<Rightarrow> string \<Rightarrow> nat" where
  "digits_val base acc [] = acc"
| "digits_val base acc (c # cs) =
     (if digit_val c < base then digits_val base (acc * base + digit_val c) cs else acc)"

definition has_digit :: "nat \<Rightarrow> string \<Rightarrow> bool" where
  "has_digit base s \<longleftrightarrow> (case s of [] \<Rightarrow> False | c # _ \<Rightarrow> digit_val c < base)"

text \<open>\<^verbatim>\<open>strtol\<close>: white space, a sign, the prefix of base 16, digits; \<^const>\<open>None\<close> when nothing was
  converted.  What follows the digits is ignored.\<close>

definition strip_prefix :: "nat \<Rightarrow> string \<Rightarrow> string" where
  "strip_prefix base s =
     (case s of
        z # x # r \<Rightarrow> if base = 16 \<and> z = CHR ''0'' \<and> (x = CHR ''x'' \<or> x = CHR ''X'') \<and> has_digit 16 r
                       then r else s
      | _ \<Rightarrow> s)"

definition strtol_mag :: "nat \<Rightarrow> string \<Rightarrow> nat option" where
  "strtol_mag base s =
     (let r = strip_prefix base s in
      if has_digit base r then Some (digits_val base 0 r) else None)"

definition strtol :: "nat \<Rightarrow> string \<Rightarrow> int option" where
  "strtol base s =
     (case dropWhile isspace s of
        [] \<Rightarrow> None
      | c # r \<Rightarrow>
          if c = CHR ''-'' then map_option (\<lambda>n. - int n) (strtol_mag base r)
          else if c = CHR ''+'' then map_option int (strtol_mag base r)
          else map_option int (strtol_mag base (c # r)))"

definition stol :: "nat \<Rightarrow> string \<Rightarrow> int res" where
  "stol base s =
     (case strtol base s of
        None \<Rightarrow> Inl (Thrown ''invalid_argument'')
      | Some v \<Rightarrow> if - (2 ^ 63) \<le> v \<and> v < 2 ^ 63 then Inr v else Inl (Thrown ''out_of_range''))"

definition stoi :: "string \<Rightarrow> int res" where
  "stoi s =
     rbind (stol 10 s) (\<lambda>v. if - (2 ^ 31) \<le> v \<and> v < 2 ^ 31 then Inr v else Inl (Thrown ''out_of_range''))"

subsection \<open>Reading a text of tokens\<close>

definition token :: "string \<Rightarrow> bool" where
  "token w \<longleftrightarrow> w \<noteq> [] \<and> (\<forall>c \<in> set w. \<not> isspace c)"

definition blank :: "string \<Rightarrow> bool" where
  "blank s \<longleftrightarrow> s \<noteq> [] \<and> (\<forall>c \<in> set s. isspace c)"

text \<open>\<open>at st s\<close>: the stream can be read and \<open>s\<close> is what is left of it.\<close>

definition at :: "istream \<Rightarrow> string \<Rightarrow> bool" where
  "at st s \<longleftrightarrow> \<not> seof st \<and> \<not> sfail st \<and> sopen st \<and> spos st \<le> length (sbuf st) \<and> unread st = s"

lemma takeWhile_token: "token w \<Longrightarrow> (r = [] \<or> isspace (hd r)) \<Longrightarrow>
    takeWhile (\<lambda>c. \<not> isspace c) (w @ r) = w \<and> dropWhile (\<lambda>c. \<not> isspace c) (w @ r) = r"
  unfolding token_def by (cases r) (auto simp: takeWhile_append dropWhile_append)

lemma read_token:
  assumes "at st (pre @ w @ r)" "pre = [] \<or> blank pre" "token w" "r \<noteq> []" "isspace (hd r)"
  shows "\<exists>st'. readNextToken st = (w, st') \<and> at st' r \<and> sbuf st' = sbuf st"
proof -
  have ws: "dropWhile isspace (pre @ w @ r) = w @ r"
  proof -
    have "\<not> isspace (hd (w @ r))" "w @ r \<noteq> []" using assms(3) by (auto simp: token_def)
    then have "dropWhile isspace (w @ r) = w @ r" by (cases "w @ r") auto
    then show ?thesis using assms(2) by (auto simp: blank_def dropWhile_append)
  qed
  note tw = takeWhile_token [OF assms(3), of r] assms(5)
  have u: "unread st = pre @ w @ r" "sopen st" "spos st \<le> length (sbuf st)"
    using assms(1) by (auto simp: at_def)
  then have len: "length (sbuf st) = spos st + length pre + length w + length r"
    by (auto simp: unread_def dest!: arg_cong [where f = length])
  have "drop (length (sbuf st) - length r) (sbuf st) = r"
  proof -
    have "drop (spos st) (sbuf st) = (pre @ w) @ r" using u by (simp add: unread_def)
    then have "drop (length pre + length w) (drop (spos st) (sbuf st)) = r" by simp
    then show ?thesis by (simp add: len add.commute add.left_commute)
  qed
  then show ?thesis
    using assms(1,3,4) u tw ws
    by (auto simp: readNextToken_def at_def unread_def Let_def token_def)
qed

subsection \<open>Printing numbers\<close>

definition digit_char :: "nat \<Rightarrow> char" where
  "digit_char d = char_of (if d < 10 then 48 + d else 87 + d)"

function show_base :: "nat \<Rightarrow> nat \<Rightarrow> string" where
  "show_base base n =
     (if n < base \<or> base < 2 then [digit_char n]
      else show_base base (n div base) @ [digit_char (n mod base)])"
  by pat_completeness auto
termination by (relation "measure snd") (auto simp: div_less_dividend)

declare show_base.simps [simp del]

text \<open>\<^verbatim>\<open>std::to_string\<close> of an unsigned number and the output of a pointer through a stream.\<close>

definition to_string :: "nat \<Rightarrow> string" where
  "to_string n = show_base 10 n"

definition toHex :: "Addr \<Rightarrow> string" where
  "toHex a = (if a = 0 then ''0'' else ''0x'' @ show_base 16 (unat a))"

lemma digit_val_char: "d < 36 \<Longrightarrow> digit_val (digit_char d) = d"
  by (auto simp: digit_val_def digit_char_def Let_def)

lemma digit_char_token: "d < 36 \<Longrightarrow> \<not> isspace (digit_char d)"
  using digit_val_char [of d] by (auto simp: isspace_def digit_val_def)

lemma show_base_digits:
  assumes "2 \<le> base" "base \<le> 36" "c \<in> set (show_base base n)"
  shows "\<exists>d < base. c = digit_char d"
  using assms
proof (induction base n rule: show_base.induct)
  case (1 base n)
  show ?case
  proof (cases "n < base")
    case True
    with 1(4) show ?thesis by (auto simp: show_base.simps [of base n])
  next
    case False
    then consider "c \<in> set (show_base base (n div base))" | "c = digit_char (n mod base)"
      using 1(2,4) by (auto simp: show_base.simps [of base n])
    then show ?thesis
    proof cases
      case 1
      then show ?thesis using "1.IH" False "1.prems" by simp
    next
      case 2
      then show ?thesis using "1.prems" by (intro exI [of _ "n mod base"]) simp
    qed
  qed
qed

lemma show_base_nonempty: "show_base base n \<noteq> []"
  by (cases "n < base \<or> base < 2") (simp_all add: show_base.simps [of base n])

lemma show_base_has_digit:
  assumes "2 \<le> base" "base \<le> 36"
  shows "has_digit base (show_base base n @ r)"
proof (cases "show_base base n")
  case Nil
  then show ?thesis by (simp add: show_base_nonempty)
next
  case (Cons c cs)
  then obtain d where "d < base" "c = digit_char d"
    using show_base_digits [OF assms, of c n] by auto
  with Cons assms(2) show ?thesis by (simp add: has_digit_def digit_val_char)
qed

lemma digits_val_append:
  "(\<forall>c \<in> set xs. digit_val c < base) \<Longrightarrow>
     digits_val base acc (xs @ ys) = digits_val base (digits_val base acc xs) ys"
  by (induction xs arbitrary: acc) auto

lemma digits_val_show:
  assumes "2 \<le> base" "base \<le> 36"
  shows "digits_val base 0 (show_base base n) = n"
  using assms
proof (induction base n rule: show_base.induct)
  case (1 base n)
  show ?case
  proof (cases "n < base")
    case True
    with 1(3) show ?thesis by (simp add: show_base.simps [of base n] digit_val_char)
  next
    case False
    have all: "\<forall>c \<in> set (show_base base (n div base)). digit_val c < base"
    proof
      fix c
      assume "c \<in> set (show_base base (n div base))"
      then obtain d where "d < base" "c = digit_char d"
        using show_base_digits [OF 1(2,3)] by blast
      then show "digit_val c < base" using 1(3) by (simp add: digit_val_char)
    qed
    have lt: "n mod base < base" using 1(2) by simp
    then have dv: "digit_val (digit_char (n mod base)) = n mod base"
      using 1(3) by (intro digit_val_char) linarith
    have "digits_val base 0 (show_base base n) =
        digits_val base (digits_val base 0 (show_base base (n div base))) [digit_char (n mod base)]"
      using False 1(2) by (simp add: show_base.simps [of base n] digits_val_append [OF all])
    also have "digits_val base 0 (show_base base (n div base)) = n div base"
      using 1 False by simp
    finally show ?thesis using lt dv by (simp add: 1)
  qed
qed

lemma strtol_show:
  assumes "2 \<le> base" "base \<le> 16"
  shows "strtol_mag base (show_base base n) = Some n"
proof -
  have "strip_prefix base (show_base base n) = show_base base n"
  proof (cases "show_base base n")
    case Nil
    then show ?thesis by (simp add: show_base_nonempty)
  next
    case (Cons c cs)
    show ?thesis
    proof (cases cs)
      case Nil
      then show ?thesis using Cons by (simp add: strip_prefix_def)
    next
      case more: (Cons x r)
      obtain d where "d < base" "x = digit_char d"
        using show_base_digits [of base x n] assms Cons more by auto
      then have "x \<noteq> CHR ''x''" "x \<noteq> CHR ''X''"
        using digit_val_char [of d] assms(2) by (auto simp: digit_val_def Let_def)
      then show ?thesis using Cons more by (simp add: strip_prefix_def)
    qed
  qed
  then show ?thesis
    using show_base_has_digit [of base n "[]"] digits_val_show [of base n] assms
    by (simp add: strtol_mag_def)
qed

lemma strtol_plain:
  assumes "strtol_mag base s = Some n" "s \<noteq> []" "\<not> isspace (hd s)" "hd s \<noteq> CHR ''-''" "hd s \<noteq> CHR ''+''"
  shows "strtol base s = Some (int n)"
  using assms by (cases s) (simp_all add: strtol_def)

lemma show_base_hd:
  assumes "2 \<le> base" "base \<le> 36"
  shows "\<exists>d<base. hd (show_base base n) = digit_char d"
  using show_base_digits [OF assms, of "hd (show_base base n)" n] show_base_nonempty by simp

lemma digit_char_sign: "d < 36 \<Longrightarrow> digit_char d \<noteq> CHR ''-'' \<and> digit_char d \<noteq> CHR ''+''"
  using digit_val_char [of d] by (auto simp: digit_val_def Let_def)

lemma stol_to_string: "n < 2 ^ 63 \<Longrightarrow> stol 10 (to_string n) = Inr (int n)"
proof -
  assume n: "n < 2 ^ 63"
  obtain d where d: "d < 10" "hd (show_base 10 n) = digit_char d" using show_base_hd [of 10 n] by auto
  have "strtol 10 (show_base 10 n) = Some (int n)"
    using d digit_char_token [of d] digit_char_sign [of d]
    by (intro strtol_plain strtol_show) (simp_all add: show_base_nonempty)
  then show ?thesis using n by (simp add: stol_def to_string_def)
qed

lemma stol_toHex: "unat a < 2 ^ 63 \<Longrightarrow> stol 16 (toHex a) = Inr (int (unat a))"
proof -
  assume n: "unat a < 2 ^ 63"
  have "strtol_mag 16 (toHex a) = Some (unat a)"
  proof (cases "a = 0")
    case True
    then show ?thesis by (simp add: toHex_def strtol_mag_def strip_prefix_def has_digit_def digit_val_def)
  next
    case False
    have "strip_prefix 16 (toHex a) = show_base 16 (unat a)"
      using False show_base_has_digit [of 16 "unat a" "[]"] by (simp add: toHex_def strip_prefix_def)
    then show ?thesis
      using show_base_has_digit [of 16 "unat a" "[]"] digits_val_show [of 16 "unat a"]
      by (simp add: strtol_mag_def)
  qed
  then have "strtol 16 (toHex a) = Some (int (unat a))"
    by (rule strtol_plain) (simp_all add: toHex_def isspace_def)
  moreover have "int (unat a) < 2 ^ 63" using n zless_nat_eq_int_zless [of "unat a" "2 ^ 63"] by simp
  moreover have "- (2 ^ 63) \<le> int (unat a)" by (rule order_trans [of _ 0]) simp_all
  ultimately show ?thesis by (simp only: stol_def option.case if_True simp_thms)
qed

lemma token_show:
  assumes "2 \<le> base" "base \<le> 36"
  shows "token (show_base base n)"
proof -
  have "\<not> isspace c" if "c \<in> set (show_base base n)" for c
    using show_base_digits [OF assms that] digit_char_token assms(2) by force
  then show ?thesis by (simp add: token_def show_base_nonempty)
qed

lemma token_to_string: "token (to_string n)"
  by (simp add: to_string_def token_show)

lemma token_toHex: "token (toHex a)"
  using token_show [of 16 "unat a"] by (auto simp: toHex_def token_def isspace_def)

end
