(* ===== verification/TRE_Model.thy ===== *)
theory TRE_Model
  imports Event_Queue Clocked_Object Trace_Stream
begin

text \<open>
  The trace replay engine (\<^verbatim>\<open>gem5/src/cpu/tre/tre.hh\<close> and \<^verbatim>\<open>tre.cc\<close>): its data, and one
  definition per method.  A \<^verbatim>\<open>TRE *\<close> is a natural number, the objects live in the field
  \<open>tres\<close>; the class's static maps, the two counters of the translation unit and the event
  queue are fields of the same system state.  A method takes the object it is called on
  and the system, and returns the new system or the way it failed.  The memory system on
  the other side of the port and \<^verbatim>\<open>rand()\<close> are an environment, a parameter of the
  definitions: the answers of \<^verbatim>\<open>sendTimingReq\<close> and \<^verbatim>\<open>sendAtomic\<close>, the memory events it
  schedules, and what such an event does (answer packets it holds, ask for retries).
  Statistics are exact counts; debug output is left out.
\<close>

subsection \<open>Data\<close>

datatype tre_event =
    tickEvent | noRequestEvent | noResponseEvent
  | initMutexEvent | lockMutexEvent | unlockMutexEvent
  | initBarrierEvent | waitAtBarrierEvent
  | sleepEvent | wakeEvent | pushEvent | popEvent
  | dumpStatsEvent | resetStatsEvent | dumpResetStatsEvent

text \<open>An event of the system: one of a TRE, the \<open>n\<close>-th exit event, the \<open>n\<close>-th statistics event
  with its \<^verbatim>\<open>dump\<close>, \<^verbatim>\<open>reset\<close> and \<^verbatim>\<open>repeat\<close>, or an event of the memory system.\<close>

datatype tev = OfTRE nat tre_event | SimLoopExit nat | StatEvent nat bool bool Tick | MemEvent nat

datatype TRECmd = LD | ST | STALL

record blockedPkt =
  bp_addr :: Addr
  bp_cmd :: TRECmd
  bp_data :: u32
  bp_uncacheable :: bool
  bp_blking :: bool
  bp_deps :: "Addr set"

record packet =
  pk_addr :: Addr
  pk_size :: nat
  pk_read :: bool
  pk_uncacheable :: bool
  pk_pc :: "Addr option"
  pk_context :: u32

record tre =
  tid :: u32
  interval :: u64
  queueDepth :: u64
  progressInterval :: u32
  progressCheck :: u64
  atomic :: bool
  suppressFuncErrors :: bool
  maxNumOutstandingAddrs :: u64
  clk_period :: Tick
  clk :: clocked
  retryPkt :: "packet option"
  trace_fh :: istream
  lastTokEntryPos :: int
  outstandingAddrs :: "(Addr \<times> bool) list"
  blkPkt :: blockedPkt
  blocked :: bool
  paddr :: Addr
  tdata :: u32
  nextProgressMessage :: Tick
  numLoads :: nat
  numStores :: nat
  numStalls :: nat
  numBlkingAccesses :: nat
  numTraceEntries :: nat

record TREMutex =
  owner :: "nat option"
  waiting :: "nat list"

record TREBarrier =
  bcount :: u32
  arrived :: "nat list"

record TREQueue =
  items :: "int list"
  qsize :: u64
  waitingToPush :: "nat option"
  waitingToPop :: "nat option"

text \<open>\<open>atMem i\<close> are the packets of TRE \<open>i\<close> the memory system took and has not answered;
  \<open>calls\<close> counts the answers taken from the environment.\<close>

record sys = "tev eventq" +
  tres :: "nat \<Rightarrow> tre"
  allTREs :: "nat list"
  mutexMap :: "Addr \<rightharpoonup> TREMutex"
  barrierMap :: "Addr \<rightharpoonup> TREBarrier"
  queues :: "u32 \<times> u32 \<rightharpoonup> TREQueue"
  TESTER_ALLOCATOR :: u32
  numIdleTREs :: u32
  simQuantum :: Tick
  numExits :: nat
  numStatEvents :: nat
  statLog :: "(bool \<times> bool) list"
  atMem :: "nat \<Rightarrow> packet list"
  calls :: nat

text \<open>What a memory event may do: answer the \<open>k\<close>-th packet it holds of TRE \<open>i\<close> (with an error or not),
  ask TRE \<open>i\<close> to retry, schedule a memory event.  \<open>onSend\<close> are the memory events scheduled when a
  request arrives.  The \<open>n\<close>-th question to the environment has the \<open>n\<close>-th answer.\<close>

datatype mem_action = Respond nat nat bool | RetryReq nat | MemEventAt nat Tick

record env =
  acceptsReq :: "nat \<Rightarrow> bool"
  onSend :: "nat \<Rightarrow> (nat \<times> Tick) list"
  atomicError :: "nat \<Rightarrow> bool"
  rand :: "nat \<Rightarrow> nat"
  memActions :: "nat \<Rightarrow> mem_action list"

definition cmd2str :: "TRECmd \<Rightarrow> string" where
  "cmd2str c = (case c of LD \<Rightarrow> ''LD'' | ST \<Rightarrow> ''ST'' | STALL \<Rightarrow> ''STALL'')"

definition blockAlign :: "u32 \<Rightarrow> Addr \<Rightarrow> Addr" where
  "blockAlign blockSize a = a AND NOT (ucast (blockSize - 1))"

subsection \<open>Access to the state\<close>

definition set_tre :: "nat \<Rightarrow> tre \<Rightarrow> sys \<Rightarrow> sys" where
  "set_tre i t s = s\<lparr>tres := (tres s)(i := t)\<rparr>"

definition upd_tre :: "nat \<Rightarrow> (tre \<Rightarrow> tre) \<Rightarrow> sys \<Rightarrow> sys" where
  "upd_tre i f s = set_tre i (f (tres s i)) s"

text \<open>\<^verbatim>\<open>clockEdge\<close> of TRE \<open>i\<close>, and scheduling an event at such an edge.\<close>

definition clock_edge :: "nat \<Rightarrow> u64 \<Rightarrow> sys \<Rightarrow> (Tick \<times> sys) res" where
  "clock_edge i cycles s =
     rbind (clockEdge (curTick s) (clk_period (tres s i)) cycles (clk (tres s i))) (\<lambda>(w, c).
       Inr (w, upd_tre i (\<lambda>t. t\<lparr>clk := c\<rparr>) s))"

definition schedule_edge :: "nat \<Rightarrow> u64 \<Rightarrow> tev \<Rightarrow> sys \<Rightarrow> sys res" where
  "schedule_edge i cycles e s = rbind (clock_edge i cycles s) (\<lambda>(w, s1). schedule e w False s1)"

definition reschedule_edge :: "nat \<Rightarrow> u64 \<Rightarrow> tev \<Rightarrow> bool \<Rightarrow> sys \<Rightarrow> sys res" where
  "reschedule_edge i cycles e always s =
     rbind (clock_edge i cycles s) (\<lambda>(w, s1). reschedule e w always s1)"

text \<open>\<^verbatim>\<open>schedule(tickEvent, clockEdge(interval))\<close>: start ticking again.\<close>

definition next_tick :: "nat \<Rightarrow> sys \<Rightarrow> sys res" where
  "next_tick i s = schedule_edge i (interval (tres s i)) (OfTRE i tickEvent) s"

definition count_entry :: "nat \<Rightarrow> sys \<Rightarrow> sys" where
  "count_entry i = upd_tre i (\<lambda>t. t\<lparr>numTraceEntries := numTraceEntries t + 1\<rparr>)"

subsection \<open>Exit and statistics events\<close>

definition Sim_Exit_Pri :: u8 where "Sim_Exit_Pri = 100"
definition Stat_Event_Pri :: u8 where "Stat_Event_Pri = 90"

definition new_event :: "tev \<Rightarrow> u8 \<Rightarrow> u16 \<Rightarrow> sys \<Rightarrow> sys" where
  "new_event e p f s =
     s\<lparr>ev := (ev s)(e := blank_event\<lparr>epriority := p, eflags := Initialized OR f\<rparr>)\<rparr>"

definition exitSimLoop :: "sys \<Rightarrow> sys res" where
  "exitSimLoop s =
     (let e = SimLoopExit (numExits s);
          s1 = new_event e Sim_Exit_Pri IsExitEvent (s\<lparr>numExits := numExits s + 1\<rparr>) in
      schedule e (curTick s1 + simQuantum s1) True s1)"

definition schedStatEvent :: "bool \<Rightarrow> bool \<Rightarrow> Tick \<Rightarrow> Tick \<Rightarrow> sys \<Rightarrow> sys res" where
  "schedStatEvent dump reset w rep s =
     (let e = StatEvent (numStatEvents s) dump reset rep;
          s1 = new_event e Stat_Event_Pri 0 (s\<lparr>numStatEvents := numStatEvents s + 1\<rparr>) in
      schedule e (w + simQuantum s1) True s1)"

definition stat_process :: "bool \<Rightarrow> bool \<Rightarrow> Tick \<Rightarrow> sys \<Rightarrow> sys res" where
  "stat_process dump reset rep s =
     (let s1 = s\<lparr>statLog := statLog s @ [(dump, reset)]\<rparr> in
      if rep \<noteq> 0 then schedStatEvent dump reset (curTick s1 + rep) rep s1 else Inr s1)"

subsection \<open>Addresses in flight\<close>

definition inFlight :: "Addr \<Rightarrow> (Addr \<times> bool) list \<Rightarrow> bool" where
  "inFlight a outs \<longleftrightarrow> list_ex (\<lambda>e. fst e = a) outs"

fun erase_addr :: "Addr \<Rightarrow> (Addr \<times> bool) list \<Rightarrow> (Addr \<times> bool) list" where
  "erase_addr a [] = []"
| "erase_addr a (e # es) = (if fst e = a then es else e # erase_addr a es)"

definition addrInFlight :: "Addr \<Rightarrow> bool \<Rightarrow> tre \<Rightarrow> (bool \<times> tre) res" where
  "addrInFlight a erase t =
     (let found = inFlight a (outstandingAddrs t);
          t1 = (if erase then t\<lparr>outstandingAddrs := erase_addr a (outstandingAddrs t)\<rparr> else t) in
      require (\<not> erase \<or> found) (AssertFail ''!erase || found'') (Inr (found, t1)))"

definition INVALID_PADDR :: Addr where "INVALID_PADDR = -1"

fun blkingAcc :: "(Addr \<times> bool) list \<Rightarrow> Addr" where
  "blkingAcc [] = INVALID_PADDR"
| "blkingAcc (e # es) = (if snd e then fst e else blkingAcc es)"

definition blkingAccAddrInFlight :: "tre \<Rightarrow> Addr" where
  "blkingAccAddrInFlight t = blkingAcc (outstandingAddrs t)"

subsection \<open>Completion of a request\<close>

definition count_completion :: "packet \<Rightarrow> tre \<Rightarrow> tre" where
  "count_completion pkt t =
     (if pk_read pkt then
        let t1 = t\<lparr>numLoads := numLoads t + 1\<rparr> in
        if numLoads t1 = unat (nextProgressMessage t1)
        then t1\<lparr>nextProgressMessage := nextProgressMessage t1 + ucast (progressInterval t1)\<rparr>
        else t1
      else t\<lparr>numStores := numStores t + 1\<rparr>)"

definition shift_response_timeout :: "nat \<Rightarrow> sys \<Rightarrow> sys res" where
  "shift_response_timeout i s =
     (if outstandingAddrs (tres s i) \<noteq> []
      then reschedule_edge i (progressCheck (tres s i)) (OfTRE i noResponseEvent) False s
      else if scheduled s (OfTRE i noResponseEvent) then deschedule (OfTRE i noResponseEvent) s
      else Inr s)"

definition completeRequest :: "nat \<Rightarrow> packet \<Rightarrow> bool \<Rightarrow> bool \<Rightarrow> sys \<Rightarrow> sys res" where
  "completeRequest i pkt isError functional s =
     require (pk_size pkt = 4) (AssertFail ''req->getSize() == 4'')
     (rbind (addrInFlight (pk_addr pkt) True (tres s i)) (\<lambda>(found, t).
      require found (Fatal ''Received unsolicited response to TRE'')
      (rbind (if isError then
                if \<not> functional \<or> \<not> suppressFuncErrors t then Inl (Panic ''access failed'') else Inr t
              else Inr (count_completion pkt t)) (\<lambda>t1.
       let s1 = set_tre i t1 s in
       rbind (if \<not> scheduled s1 (OfTRE i tickEvent) \<and> blocked t1 then next_tick i s1 else Inr s1)
         (shift_response_timeout i)))))"

definition recvTimingResp :: "nat \<Rightarrow> packet \<Rightarrow> bool \<Rightarrow> sys \<Rightarrow> sys res" where
  "recvTimingResp i pkt isError s = completeRequest i pkt isError False s"

subsection \<open>Sending\<close>

definition mem_event_at :: "nat \<Rightarrow> Tick \<Rightarrow> sys \<Rightarrow> sys res" where
  "mem_event_at n w s =
     (if curTick s \<le> w \<and> \<not> scheduled s (MemEvent n) then schedule (MemEvent n) w False s else Inr s)"

fun mem_events_at :: "(nat \<times> Tick) list \<Rightarrow> sys \<Rightarrow> sys res" where
  "mem_events_at [] s = Inr s"
| "mem_events_at ((n, w) # ms) s = rbind (mem_event_at n w s) (mem_events_at ms)"

definition send_timing :: "env \<Rightarrow> nat \<Rightarrow> packet \<Rightarrow> sys \<Rightarrow> (bool \<times> sys) res" where
  "send_timing E i pkt s =
     (let ok = acceptsReq E (calls s);
          s1 = (if ok then s\<lparr>atMem := (atMem s)(i := atMem s i @ [pkt])\<rparr> else s) in
      rbind (mem_events_at (onSend E (calls s)) (s1\<lparr>calls := calls s1 + 1\<rparr>)) (\<lambda>s2. Inr (ok, s2)))"

definition sendPkt :: "env \<Rightarrow> nat \<Rightarrow> packet \<Rightarrow> sys \<Rightarrow> (bool \<times> sys) res" where
  "sendPkt E i pkt s =
     (if atomic (tres s i) then
        rbind (completeRequest i pkt (atomicError E (calls s)) False (s\<lparr>calls := calls s + 1\<rparr>))
          (\<lambda>s1. Inr (True, s1))
      else
        rbind (send_timing E i pkt s) (\<lambda>(ok, s1).
          if \<not> ok then Inr (False, upd_tre i (\<lambda>t. t\<lparr>retryPkt := Some pkt\<rparr>) s1)
          else Inr (True, s1)))"

definition recvRetry :: "env \<Rightarrow> nat \<Rightarrow> sys \<Rightarrow> sys res" where
  "recvRetry E i s =
     (case retryPkt (tres s i) of
        None \<Rightarrow> Inl (AssertFail ''retryPkt'')
      | Some pkt \<Rightarrow>
          rbind (send_timing E i pkt s) (\<lambda>(ok, s1).
          if ok then
            let s2 = upd_tre i (\<lambda>t. t\<lparr>retryPkt := None\<rparr>) s1 in
            rbind (if \<not> blocked (tres s2 i) then next_tick i s2 else Inr s2) (\<lambda>s3.
              reschedule_edge i (progressCheck (tres s3 i)) (OfTRE i noRequestEvent) True s3)
          else Inr s1))"

definition recvReqRetry :: "env \<Rightarrow> nat \<Rightarrow> sys \<Rightarrow> sys res" where
  "recvReqRetry E i s = recvRetry E i s"

definition noRequest :: "nat \<Rightarrow> sys \<Rightarrow> sys res" where
  "noRequest i s = Inl (Panic ''did not send a request'')"

definition noResponse :: "nat \<Rightarrow> sys \<Rightarrow> sys res" where
  "noResponse i s = Inl (Panic ''did not see a response'')"

definition halt :: "nat \<Rightarrow> sys \<Rightarrow> sys res" where
  "halt i s =
     (let s1 = s\<lparr>numIdleTREs := numIdleTREs s + 1\<rparr> in
      require (numIdleTREs s1 \<le> TESTER_ALLOCATOR s1) (AssertFail ''numIdleTREs <= TESTER_ALLOCATOR'')
      (if numIdleTREs s1 = TESTER_ALLOCATOR s1
       then exitSimLoop (upd_tre i (\<lambda>t. t\<lparr>trace_fh := close_stream (trace_fh t)\<rparr>) s1)
       else Inr s1))"

subsection \<open>Statistics requests\<close>

text \<open>\<^verbatim>\<open>SimClock::Int::ns\<close> multiplies a delay that is always zero here.\<close>

definition stats_request :: "bool \<Rightarrow> bool \<Rightarrow> nat \<Rightarrow> sys \<Rightarrow> sys res" where
  "stats_request dump reset i s =
     rbind (schedStatEvent dump reset (curTick s) 0 s) (\<lambda>s1. next_tick i (count_entry i s1))"

definition resetstats :: "nat \<Rightarrow> sys \<Rightarrow> sys res" where
  "resetstats = stats_request False True"

definition dumpstats :: "nat \<Rightarrow> sys \<Rightarrow> sys res" where
  "dumpstats = stats_request True False"

definition dumpresetstats :: "nat \<Rightarrow> sys \<Rightarrow> sys res" where
  "dumpresetstats = stats_request True True"

subsection \<open>Mutexes\<close>

definition set_paddr :: "Addr \<Rightarrow> nat \<Rightarrow> sys \<Rightarrow> sys" where
  "set_paddr a i = upd_tre i (\<lambda>t. t\<lparr>paddr := a\<rparr>)"

definition set_data :: "u32 \<Rightarrow> nat \<Rightarrow> sys \<Rightarrow> sys" where
  "set_data d i = upd_tre i (\<lambda>t. t\<lparr>tdata := d\<rparr>)"

text \<open>\<^verbatim>\<open>trace_fh.seekg(lastTokEntryPos)\<close> and tick again: the token is read anew.\<close>

definition retry_token :: "nat \<Rightarrow> sys \<Rightarrow> sys res" where
  "retry_token i s =
     next_tick i (upd_tre i (\<lambda>t. t\<lparr>trace_fh := seekg (lastTokEntryPos t) (trace_fh t)\<rparr>) s)"

definition initMutex :: "nat \<Rightarrow> sys \<Rightarrow> sys res" where
  "initMutex i s =
     (let a = paddr (tres s i) in
      require (a \<noteq> 0) (AssertFail ''paddr'')
      (require (mutexMap s a = None) (Fatal ''Mutex cannot be re-initialized!'')
       (let s1 = s\<lparr>mutexMap := (mutexMap s)(a \<mapsto> \<lparr>owner = None, waiting = []\<rparr>)\<rparr> in
        rbind (next_tick i (count_entry i s1)) (\<lambda>s2. Inr (set_paddr 0 i s2)))))"

definition lockMutex :: "nat \<Rightarrow> sys \<Rightarrow> sys res" where
  "lockMutex i s =
     (let a = paddr (tres s i) in
      require (a \<noteq> 0) (AssertFail ''paddr'')
      (case mutexMap s a of
         None \<Rightarrow> retry_token i s
       | Some m \<Rightarrow>
           rbind (case owner m of
                    None \<Rightarrow> next_tick i (s\<lparr>mutexMap := (mutexMap s)(a \<mapsto> m\<lparr>owner := Some i\<rparr>)\<rparr>)
                  | Some j \<Rightarrow>
                      require (j \<noteq> i) (Fatal ''Double lock on mutex not allowed!'')
                      (Inr (s\<lparr>mutexMap := (mutexMap s)(a \<mapsto> m\<lparr>waiting := waiting m @ [i]\<rparr>)\<rparr>)))
             (\<lambda>s1. Inr (set_paddr 0 i (count_entry i s1)))))"

definition unlockMutex :: "env \<Rightarrow> nat \<Rightarrow> sys \<Rightarrow> sys res" where
  "unlockMutex E i s =
     (let a = paddr (tres s i) in
      require (a \<noteq> 0) (AssertFail ''paddr'')
      (case mutexMap s a of
         None \<Rightarrow> Inl (Thrown ''out_of_range'')
       | Some m \<Rightarrow>
           require (owner m = Some i) (Fatal ''Non-owner attempted to call unlock on mutex!'')
           (rbind (if waiting m = [] then
                     Inr (s\<lparr>mutexMap := (mutexMap s)(a \<mapsto> m\<lparr>owner := None, waiting := []\<rparr>)\<rparr>)
                   else
                     let idx = rand E (calls s) mod length (waiting m);
                         target = waiting m ! idx;
                         s1 = s\<lparr>calls := calls s + 1\<rparr> in
                     rbind (schedule_edge i (interval (tres s1 i)) (OfTRE target tickEvent) s1) (\<lambda>s2.
                       Inr (s2\<lparr>mutexMap := (mutexMap s2)(a \<mapsto> m\<lparr>owner := Some target,
                              waiting := take idx (waiting m) @ drop (Suc idx) (waiting m)\<rparr>)\<rparr>)))
              (\<lambda>s3. rbind (next_tick i (count_entry i s3)) (\<lambda>s4. Inr (set_paddr 0 i s4))))))"

subsection \<open>Barriers\<close>

definition initBarrier :: "nat \<Rightarrow> sys \<Rightarrow> sys res" where
  "initBarrier i s =
     (let a = paddr (tres s i); d = tdata (tres s i) in
      require (a \<noteq> 0) (AssertFail ''paddr'')
      (require (d \<noteq> 0) (AssertFail ''data'')
      (require (barrierMap s a = None) (Fatal ''Barrier cannot be re-initialized!'')
       (let s1 = s\<lparr>barrierMap := (barrierMap s)(a \<mapsto> \<lparr>bcount = d, arrived = []\<rparr>)\<rparr> in
        rbind (next_tick i (count_entry i s1)) (\<lambda>s2. Inr (set_data 0 i (set_paddr 0 i s2)))))))"

fun release_all :: "nat \<Rightarrow> nat list \<Rightarrow> sys \<Rightarrow> sys res" where
  "release_all i [] s = Inr s"
| "release_all i (t # ts) s =
     rbind (schedule_edge i (interval (tres s i)) (OfTRE t tickEvent) s) (release_all i ts)"

definition waitAtBarrier :: "nat \<Rightarrow> sys \<Rightarrow> sys res" where
  "waitAtBarrier i s =
     (let a = paddr (tres s i) in
      require (a \<noteq> 0) (AssertFail ''paddr'')
      (case barrierMap s a of
         None \<Rightarrow> retry_token i s
       | Some b \<Rightarrow>
           let b1 = b\<lparr>arrived := arrived b @ [i]\<rparr>; s1 = s\<lparr>barrierMap := (barrierMap s)(a \<mapsto> b1)\<rparr> in
           rbind (if length (arrived b1) = unat (bcount b1) then
                    rbind (release_all i (arrived b1) s1) (\<lambda>s2.
                      Inr (s2\<lparr>barrierMap := (barrierMap s2)(a \<mapsto> b1\<lparr>arrived := []\<rparr>)\<rparr>))
                  else Inr s1)
             (\<lambda>s3. Inr (set_paddr 0 i (count_entry i s3)))))"

subsection \<open>Sleep, wake and the queues\<close>

definition wake :: "nat \<Rightarrow> sys \<Rightarrow> sys res" where
  "wake i s =
     (let d = tdata (tres s i) in
      require (d \<noteq> 0) (AssertFail ''data'')
      (require (unat d < length (allTREs s)) (Undefined ''allTREs[targetTRE]'')
       (let target = allTREs s ! unat d in
        require (\<not> scheduled s (OfTRE target tickEvent)) (Fatal ''Target TRE already awake!'')
        (rbind (schedule_edge i (interval (tres s i)) (OfTRE target tickEvent) s) (\<lambda>s1.
          rbind (next_tick i (count_entry i s1)) (\<lambda>s2. Inr (set_data 0 i s2)))))))"

definition sleep :: "nat \<Rightarrow> sys \<Rightarrow> sys res" where
  "sleep i s = Inr s"

definition set_queue :: "u32 \<times> u32 \<Rightarrow> TREQueue \<Rightarrow> sys \<Rightarrow> sys" where
  "set_queue k q s = s\<lparr>queues := (queues s)(k \<mapsto> q)\<rparr>"

definition push :: "nat \<Rightarrow> sys \<Rightarrow> sys res" where
  "push i s =
     (let k = (tid (tres s i), tdata (tres s i)) in
      case queues s k of
        None \<Rightarrow> Inl (ExitWith 1)
      | Some q \<Rightarrow>
          if length (items q) = unat (qsize q) then Inr (set_queue k (q\<lparr>waitingToPush := Some i\<rparr>) s)
          else
            let q1 = q\<lparr>items := items q @ [0]\<rparr> in
            rbind (case waitingToPop q1 of
                     None \<Rightarrow> Inr (set_queue k q1 s)
                   | Some t \<Rightarrow>
                       rbind (schedule_edge i (interval (tres s i)) (OfTRE t popEvent) (set_queue k q1 s))
                         (\<lambda>s1. Inr (set_queue k (q1\<lparr>waitingToPop := None\<rparr>) s1)))
              (\<lambda>s2. rbind (next_tick i (count_entry i s2)) (\<lambda>s3. Inr (set_data 0 i s3))))"

definition pop :: "nat \<Rightarrow> sys \<Rightarrow> sys res" where
  "pop i s =
     (let k = (tdata (tres s i), tid (tres s i)) in
      case queues s k of
        None \<Rightarrow> Inl (ExitWith 1)
      | Some q \<Rightarrow>
          if items q = [] then Inr (set_queue k (q\<lparr>waitingToPop := Some i\<rparr>) s)
          else
            let q1 = q\<lparr>items := tl (items q)\<rparr> in
            rbind (case waitingToPush q1 of
                     None \<Rightarrow> Inr (set_queue k q1 s)
                   | Some t \<Rightarrow>
                       rbind (schedule_edge i (interval (tres s i)) (OfTRE t pushEvent) (set_queue k q1 s))
                         (\<lambda>s1. Inr (set_queue k (q1\<lparr>waitingToPush := None\<rparr>) s1)))
              (\<lambda>s2. rbind (next_tick i (count_entry i s2)) (\<lambda>s3. Inr (set_data 0 i s3))))"

subsection \<open>Reading a trace entry\<close>

definition take_token :: "tre \<Rightarrow> string \<times> tre" where
  "take_token t = (let (w, st) = readNextToken (trace_fh t) in (w, t\<lparr>trace_fh := st\<rparr>))"

definition take_long :: "nat \<Rightarrow> tre \<Rightarrow> (int \<times> tre) res" where
  "take_long base t = (let (w, t1) = take_token t in rbind (stol base w) (\<lambda>v. Inr (v, t1)))"

definition take_int :: "tre \<Rightarrow> (int \<times> tre) res" where
  "take_int t = (let (w, t1) = take_token t in rbind (stoi w) (\<lambda>v. Inr (v, t1)))"

lemma unread_shorter:
  "readNextToken st = (w, st') \<Longrightarrow> w \<noteq> [] \<Longrightarrow> length (unread st') < length (unread st)"
proof -
  assume r: "readNextToken st = (w, st')" and w: "w \<noteq> []"
  define u where "u = dropWhile isspace (unread st)"
  have ok: "\<not> seof st" "\<not> sfail st" "u \<noteq> []" "w = takeWhile (\<lambda>c. \<not> isspace c) u"
    "st' = st\<lparr>spos := length (sbuf st) - length (dropWhile (\<lambda>c. \<not> isspace c) u),
              seof := (dropWhile (\<lambda>c. \<not> isspace c) u = [])\<rparr>"
    using r w by (auto simp: readNextToken_def u_def Let_def split: if_splits)
  have "length w + length (dropWhile (\<lambda>c. \<not> isspace c) u) = length u"
    unfolding ok(4) by (metis length_append takeWhile_dropWhile_id)
  moreover have "length u \<le> length (unread st)" unfolding u_def by (rule length_dropWhile_le)
  moreover have "0 < length w" using w by simp
  ultimately have lt: "length (dropWhile (\<lambda>c. \<not> isspace c) u) < length (unread st)" by linarith
  then have le: "length (dropWhile (\<lambda>c. \<not> isspace c) u) \<le> length (sbuf st)" and o: "sopen st"
    by (auto simp: unread_def split: if_splits)
  have "length (unread st') \<le> length (dropWhile (\<lambda>c. \<not> isspace c) u)"
    using le o by (simp add: ok(5) unread_def)
  with lt show ?thesis by simp
qed

lemma stol_empty: "stol base [] = Inl (Thrown ''invalid_argument'')"
  by (simp add: stol_def strtol_def)

text \<open>The loop over the dependency list: it ends because every round consumes a token, and the
  empty token of an exhausted stream is not a number.\<close>

function read_deps :: "bool \<Rightarrow> Addr set \<Rightarrow> tre \<Rightarrow> (bool \<times> Addr set \<times> tre) res" where
  "read_deps blk deps t =
     (let (w, t1) = take_token t in
      if w = '')'' then Inr (blk, deps, t1)
      else rbind (stol 16 w) (\<lambda>v.
             let d = word_of_int v in
             if inFlight d (outstandingAddrs t1) then read_deps True (insert d deps) t1
             else read_deps blk deps t1))"
  by pat_completeness auto
termination
proof (relation "measure (\<lambda>(b, d, t). length (unread (trace_fh t)))")
  show "wf (measure (\<lambda>(b, d, t). length (unread (trace_fh t))))" by simp
next
  fix blk :: bool and deps :: "Addr set" and t t1 :: tre and x v d
  fix w :: string
  assume a: "x = take_token t" "(w, t1) = x" "w \<noteq> '')''" "stol 16 w = Inr v"
  have w: "w \<noteq> []" using a(4) by (auto simp: stol_empty)
  obtain st where st: "readNextToken (trace_fh t) = (w, st)" "t1 = t\<lparr>trace_fh := st\<rparr>"
    using a(1,2) by (auto simp: take_token_def split: prod.splits)
  from unread_shorter [OF st(1) w] st(2)
  have l: "length (unread (trace_fh t1)) < length (unread (trace_fh t))" by simp
  show "((True, insert d deps, t1), blk, deps, t) \<in> measure (\<lambda>(b, d, t). length (unread (trace_fh t)))"
    using l by simp
  show "((blk, deps, t1), blk, deps, t) \<in> measure (\<lambda>(b, d, t). length (unread (trace_fh t)))"
    using l by simp
qed

declare read_deps.simps [simp del]

text \<open>What a tick hands to its last part: the command, \<^verbatim>\<open>uncacheable\<close>, \<^verbatim>\<open>blkingAccess\<close> and \<^verbatim>\<open>pc\<close>.\<close>

type_synonym access = "TRECmd \<times> bool \<times> bool \<times> Addr"

definition load_tokens :: "string list" where
  "load_tokens = [''LD'', ''LDU'', ''LDB'', ''LDUB'']"

definition access_tokens :: "string list" where
  "access_tokens = load_tokens @ [''ST'', ''STU'', ''STB'', ''STUB'']"

definition set_deps :: "bool \<Rightarrow> Addr set \<Rightarrow> tre \<Rightarrow> tre" where
  "set_deps b ds t = t\<lparr>blocked := b, blkPkt := (blkPkt t)\<lparr>bp_deps := ds\<rparr>\<rparr>"

text \<open>The test for a blocking access in flight, the same in both branches.\<close>

definition block_on_blocking :: "tre \<Rightarrow> tre res" where
  "block_on_blocking t =
     (let dep = blkingAccAddrInFlight t in
      if dep \<noteq> INVALID_PADDR then
        require (bp_deps (blkPkt t) = {}) (AssertFail ''blockedPkt.deps.empty()'')
        (Inr (set_deps True (insert dep (bp_deps (blkPkt t))) t))
      else Inr t)"

definition take_deps :: "tre \<Rightarrow> tre res" where
  "take_deps t =
     rbind (read_deps (blocked t) (bp_deps (blkPkt t)) t) (\<lambda>(b, ds, t1). Inr (set_deps b ds t1))"

text \<open>The parts of the branch for loads and stores: the optional virtual PC, the hazards that block the
  access, the dependency list.\<close>

definition access_pc :: "string \<Rightarrow> tre \<Rightarrow> (Addr \<times> string \<times> tre) res" where
  "access_pc w t =
     require (w \<noteq> []) (Undefined ''word.front()'')
     (if hd w = CHR ''@''
      then rbind (stol 10 (tl w)) (\<lambda>v. let (w1, t1) = take_token t in Inr (word_of_int v, w1, t1))
      else Inr (-1, w, t))"

definition access_hazards :: "Addr \<Rightarrow> tre \<Rightarrow> tre res" where
  "access_hazards a t =
     (let t1 = t\<lparr>paddr := a\<rparr>;
          t2 = (if unat (maxNumOutstandingAddrs t1) \<le> length (outstandingAddrs t1)
                then t1\<lparr>blocked := True\<rparr> else t1) in
      block_on_blocking t2)"

definition access_deps :: "TRECmd \<Rightarrow> bool \<Rightarrow> bool \<Rightarrow> tre \<Rightarrow> tre res" where
  "access_deps cmd unc blk t =
     (let (w, t1) = take_token t in
      require (w = ''('') (Fatal ''Expecting parenthesis indicating the start of dependency list'')
      (rbind (take_deps t1) (\<lambda>t2.
        let t3 = (if blocked t2 then t2\<lparr>blkPkt := (blkPkt t2)\<lparr>bp_addr := paddr t2, bp_cmd := cmd,
                     bp_uncacheable := unc, bp_blking := blk\<rparr>\<rparr> else t2) in
        Inr (t3\<lparr>numTraceEntries := numTraceEntries t3 + 1\<rparr>))))"

definition tick_access :: "string \<Rightarrow> tre \<Rightarrow> (tre \<times> access) res" where
  "tick_access w t =
     (let cmd = (if w \<in> set load_tokens then LD else ST);
          blk = (w \<in> set [''LDB'', ''LDUB'', ''STB'', ''STUB'']);
          unc = (w \<in> set [''LDU'', ''LDUB'', ''STU'', ''STUB'']);
          t1 = (if blk then t\<lparr>numBlkingAccesses := numBlkingAccesses t + 1\<rparr> else t);
          (w1, t2) = take_token t1 in
      rbind (access_pc w1 t2) (\<lambda>(pc, w2, t3).
      rbind (stol 16 w2) (\<lambda>v.
      rbind (access_hazards (word_of_int v) t3) (\<lambda>t4.
      rbind (access_deps cmd unc blk t4) (\<lambda>t5.
        Inr (t5, cmd, unc, blk, pc))))))"

definition stall_deps :: "bool \<Rightarrow> tre \<Rightarrow> tre res" where
  "stall_deps blk t =
     rbind (take_deps t) (\<lambda>t1.
     rbind (block_on_blocking t1) (\<lambda>t2.
     rbind (if blocked t2
            then require (bp_deps (blkPkt t2) \<noteq> {}) (AssertFail ''!blockedPkt.deps.empty()'')
                 (Inr (t2\<lparr>blkPkt := (blkPkt t2)\<lparr>bp_cmd := STALL, bp_data := tdata t2, bp_blking := blk\<rparr>\<rparr>))
            else Inr t2) (\<lambda>t3.
       Inr (t3\<lparr>numStalls := numStalls t3 + unat (tdata t3),
               numTraceEntries := numTraceEntries t3 + unat (tdata t3)\<rparr>))))"

definition tick_stall :: "string \<Rightarrow> tre \<Rightarrow> (tre \<times> access) res" where
  "tick_stall w t =
     (let blk = (w = ''STALLB'');
          t1 = (if blk then t\<lparr>numBlkingAccesses := numBlkingAccesses t + 1\<rparr> else t) in
      rbind (take_long 10 t1) (\<lambda>(v, t2).
      let (w1, t3) = take_token (t2\<lparr>tdata := word_of_int v\<rparr>) in
      require (w1 = ''('') (AssertFail ''Expecting paranthesis indicating start of dependency list'')
      (rbind (stall_deps blk t3) (\<lambda>t4. Inr (t4, STALL, False, blk, -1)))))"

text \<open>The blocked packet, once no dependency is in flight; its virtual PC is not kept.\<close>

definition unblock :: "tre \<Rightarrow> (tre \<times> access) option" where
  "unblock t =
     (let b = blkPkt t in
      if \<exists>d \<in> bp_deps b. inFlight d (outstandingAddrs t) then None
      else Some (set_deps False {} (t\<lparr>paddr := bp_addr b, tdata := bp_data b\<rparr>),
                 bp_cmd b, bp_uncacheable b, bp_blking b, -1))"

definition make_pkt :: "tre \<Rightarrow> access \<Rightarrow> packet" where
  "make_pkt t = (\<lambda>(cmd, unc, blk, pc).
     \<lparr>pk_addr = paddr t, pk_size = 4, pk_read = (cmd = LD), pk_uncacheable = unc,
      pk_pc = (if pc = -1 then None else Some pc), pk_context = tid t\<rparr>)"

definition tick_issue :: "env \<Rightarrow> nat \<Rightarrow> access \<Rightarrow> sys \<Rightarrow> sys res" where
  "tick_issue E i ac s =
     (let t = tres s i; (cmd, unc, blk, pc) = ac in
      if blocked t then Inr s
      else if cmd = STALL
      then schedule_edge i (interval t * ucast (tdata t)) (OfTRE i tickEvent) s
      else
        let s1 = set_tre i (t\<lparr>outstandingAddrs := outstandingAddrs t @ [(paddr t, blk)]\<rparr>) s in
        require (length (outstandingAddrs (tres s1 i)) \<le> 100)
          (Panic ''more than 100 outstanding requests'')
        (rbind (sendPkt E i (make_pkt t ac) s1) (\<lambda>(keep_ticking, s2).
         rbind (if keep_ticking then
                  rbind (next_tick i s2) (\<lambda>s3.
                    reschedule_edge i (progressCheck (tres s3 i)) (OfTRE i noRequestEvent) True s3)
                else Inr s2) (\<lambda>s4.
         if \<not> scheduled s4 (OfTRE i noResponseEvent) \<and> outstandingAddrs (tres s4 i) \<noteq> []
         then schedule_edge i (progressCheck (tres s4 i)) (OfTRE i noResponseEvent) s4
         else Inr s4))))"

text \<open>The primitives: read the arguments, then act at once or after the given number of cycles.\<close>

definition after_cycles :: "nat \<Rightarrow> int \<Rightarrow> tre_event \<Rightarrow> (nat \<Rightarrow> sys \<Rightarrow> sys res) \<Rightarrow> sys \<Rightarrow> sys res" where
  "after_cycles i c e handler s =
     (let cycles = word_of_int c :: u32 in
      if cycles = 0 then handler i s else schedule_edge i (ucast cycles) (OfTRE i e) s)"

definition tick_addr_sync :: "env \<Rightarrow> string \<Rightarrow> nat \<Rightarrow> sys \<Rightarrow> sys res" where
  "tick_addr_sync E w i s =
     rbind (take_long 16 (tres s i)) (\<lambda>(a, t1).
     rbind (take_long 10 t1) (\<lambda>(c, t2).
       let s1 = set_tre i (t2\<lparr>paddr := word_of_int a\<rparr>) s in
       if w = ''MTXINIT'' then after_cycles i c initMutexEvent initMutex s1
       else if w = ''MTXLOCK'' then after_cycles i c lockMutexEvent lockMutex s1
       else if w = ''MTXUNLOCK'' then after_cycles i c unlockMutexEvent (unlockMutex E) s1
       else after_cycles i c waitAtBarrierEvent waitAtBarrier s1))"

definition tick_barinit :: "nat \<Rightarrow> sys \<Rightarrow> sys res" where
  "tick_barinit i s =
     rbind (take_long 16 (tres s i)) (\<lambda>(a, t1).
     rbind (take_long 10 t1) (\<lambda>(d, t2).
     rbind (take_long 10 t2) (\<lambda>(c, t3).
       after_cycles i c initBarrierEvent initBarrier
         (set_tre i (t3\<lparr>paddr := word_of_int a, tdata := word_of_int d\<rparr>) s))))"

definition tick_data_sync :: "string \<Rightarrow> nat \<Rightarrow> sys \<Rightarrow> sys res" where
  "tick_data_sync w i s =
     rbind (take_int (tres s i)) (\<lambda>(d, t1).
     rbind (take_long 10 t1) (\<lambda>(c, t2).
       let s1 = set_tre i (t2\<lparr>tdata := word_of_int d\<rparr>) s in
       if w = ''WAKE'' then after_cycles i c wakeEvent wake s1
       else if w = ''POP'' then after_cycles i c popEvent pop s1
       else after_cycles i c pushEvent push s1))"

definition tick_plain :: "string \<Rightarrow> nat \<Rightarrow> sys \<Rightarrow> sys res" where
  "tick_plain w i s =
     rbind (take_long 10 (tres s i)) (\<lambda>(c, t1).
       let s1 = set_tre i t1 s in
       if w = ''SLEEP'' then after_cycles i c sleepEvent sleep s1
       else if w = ''DMP'' then after_cycles i c dumpStatsEvent dumpstats s1
       else if w = ''RST'' then after_cycles i c resetStatsEvent resetstats s1
       else after_cycles i c dumpResetStatsEvent dumpresetstats s1)"

definition tick_entry :: "env \<Rightarrow> string \<Rightarrow> nat \<Rightarrow> sys \<Rightarrow> sys res" where
  "tick_entry E w i s =
     (if w = ''EOF'' then halt i s
      else if w \<in> set access_tokens then
        rbind (tick_access w (tres s i)) (\<lambda>(t, ac). tick_issue E i ac (set_tre i t s))
      else if w = ''STALL'' \<or> w = ''STALLB'' then
        rbind (tick_stall w (tres s i)) (\<lambda>(t, ac). tick_issue E i ac (set_tre i t s))
      else if w \<in> set [''MTXINIT'', ''MTXLOCK'', ''MTXUNLOCK'', ''BARWAIT''] then tick_addr_sync E w i s
      else if w = ''BARINIT'' then tick_barinit i s
      else if w \<in> set [''WAKE'', ''POP'', ''PUSH''] then tick_data_sync w i s
      else if w \<in> set [''SLEEP'', ''DMP'', ''RST'', ''DMPRST''] then tick_plain w i s
      else Inl (Fatal ''Invalid token read''))"

definition tick :: "env \<Rightarrow> nat \<Rightarrow> sys \<Rightarrow> sys res" where
  "tick E i s =
     (let t = tres s i in
      require (retryPkt t = None) (AssertFail ''!retryPkt'')
      (if blocked t then
         (case unblock t of
            None \<Rightarrow> Inr s
          | Some (t1, ac) \<Rightarrow> tick_issue E i ac (set_tre i t1 s))
       else
         let (p, st) = tellg (trace_fh t);
             (w, t1) = take_token (t\<lparr>trace_fh := st, lastTokEntryPos := p\<rparr>) in
         tick_entry E w i (set_tre i t1 s)))"

subsection \<open>Events\<close>

definition mem_action :: "env \<Rightarrow> mem_action \<Rightarrow> sys \<Rightarrow> sys res" where
  "mem_action E a s =
     (case a of
        Respond i k err \<Rightarrow>
          if k < length (atMem s i)
          then recvTimingResp i (atMem s i ! k) err
                 (s\<lparr>atMem := (atMem s)(i := take k (atMem s i) @ drop (Suc k) (atMem s i))\<rparr>)
          else Inr s
      | RetryReq i \<Rightarrow> if retryPkt (tres s i) \<noteq> None then recvReqRetry E i s else Inr s
      | MemEventAt n w \<Rightarrow> mem_event_at n w s)"

fun mem_actions :: "env \<Rightarrow> mem_action list \<Rightarrow> sys \<Rightarrow> sys res" where
  "mem_actions E [] s = Inr s"
| "mem_actions E (a # as) s = rbind (mem_action E a s) (mem_actions E as)"

definition process :: "env \<Rightarrow> tev \<Rightarrow> sys \<Rightarrow> sys res" where
  "process E e s =
     (case e of
        OfTRE i k \<Rightarrow>
          (case k of
             tickEvent \<Rightarrow> tick E i s
           | noRequestEvent \<Rightarrow> noRequest i s
           | noResponseEvent \<Rightarrow> noResponse i s
           | initMutexEvent \<Rightarrow> initMutex i s
           | lockMutexEvent \<Rightarrow> lockMutex i s
           | unlockMutexEvent \<Rightarrow> unlockMutex E i s
           | initBarrierEvent \<Rightarrow> initBarrier i s
           | waitAtBarrierEvent \<Rightarrow> waitAtBarrier i s
           | sleepEvent \<Rightarrow> sleep i s
           | wakeEvent \<Rightarrow> wake i s
           | pushEvent \<Rightarrow> push i s
           | popEvent \<Rightarrow> pop i s
           | dumpStatsEvent \<Rightarrow> dumpstats i s
           | resetStatsEvent \<Rightarrow> resetstats i s
           | dumpResetStatsEvent \<Rightarrow> dumpresetstats i s)
      | SimLoopExit n \<Rightarrow> Inr s
      | StatEvent n dump reset rep \<Rightarrow> stat_process dump reset rep s
      | MemEvent n \<Rightarrow> mem_actions E (memActions E (calls s)) (s\<lparr>calls := calls s + 1\<rparr>))"

subsection \<open>Construction and destruction\<close>

record tre_params =
  p_id :: u32
  p_interval :: u64
  p_queue_depth :: u64
  p_progress_interval :: u32
  p_progress_check :: u64
  p_atomic :: bool
  p_suppress :: bool
  p_max_outstanding :: u64
  p_period :: Tick

definition insert_new :: "'k \<Rightarrow> 'v \<Rightarrow> ('k \<rightharpoonup> 'v) \<Rightarrow> ('k \<rightharpoonup> 'v)" where
  "insert_new k v m = (case m k of None \<Rightarrow> m(k \<mapsto> v) | Some _ \<Rightarrow> m)"

definition new_queue :: "u64 \<Rightarrow> TREQueue" where
  "new_queue depth = \<lparr>items = [], qsize = ucast (ucast depth :: u32), waitingToPush = None, waitingToPop = None\<rparr>"

definition initQueues :: "u64 \<Rightarrow> sys \<Rightarrow> sys" where
  "initQueues depth s =
     s\<lparr>queues := insert_new (0, 4) (new_queue depth) (insert_new (0, 3) (new_queue depth)
        (insert_new (0, 2) (new_queue depth) (insert_new (0, 1) (new_queue depth) (queues s))))\<rparr>"

definition teardownQueues :: "sys \<Rightarrow> sys" where
  "teardownQueues s = s\<lparr>queues := Map.empty\<rparr>"

definition new_tre :: "tre_params \<Rightarrow> istream \<Rightarrow> tre" where
  "new_tre p st =
     \<lparr>tid = p_id p, interval = p_interval p, queueDepth = p_queue_depth p,
      progressInterval = p_progress_interval p, progressCheck = p_progress_check p,
      atomic = p_atomic p, suppressFuncErrors = p_suppress p,
      maxNumOutstandingAddrs = p_max_outstanding p, clk_period = p_period p, clk = new_clocked,
      retryPkt = None, trace_fh = st, lastTokEntryPos = 0, outstandingAddrs = [],
      blkPkt = \<lparr>bp_addr = 0, bp_cmd = LD, bp_data = 0, bp_uncacheable = False, bp_blking = False, bp_deps = {}\<rparr>,
      blocked = False, paddr = 0, tdata = 0,
      nextProgressMessage = ucast (p_progress_interval p),
      numLoads = 0, numStores = 0, numStalls = 0, numBlkingAccesses = 0, numTraceEntries = 0\<rparr>"

text \<open>The constructor of the \<open>i\<close>-th object; the trace file may be missing.\<close>

definition construct :: "nat \<Rightarrow> tre_params \<Rightarrow> string option \<Rightarrow> sys \<Rightarrow> sys res" where
  "construct i p file s =
     (case file of
        None \<Rightarrow> Inr (set_tre i (new_tre p (open_stream [])\<lparr>trace_fh := (open_stream [])\<lparr>sfail := True, sopen := False\<rparr>\<rparr>) s)
      | Some text \<Rightarrow>
          let s1 = set_tre i (new_tre p (open_stream text)) s; s2 = s1\<lparr>allTREs := allTREs s1 @ [i]\<rparr> in
          rbind (schedule (OfTRE i tickEvent) (curTick s2) False s2) (\<lambda>s3.
          rbind (schedule_edge i (p_progress_check p) (OfTRE i noRequestEvent) s3) (\<lambda>s4.
          let s5 = (if TESTER_ALLOCATOR s4 = 0 \<and> p_queue_depth p \<noteq> 0 then initQueues (p_queue_depth p) s4 else s4) in
          Inr (s5\<lparr>TESTER_ALLOCATOR := TESTER_ALLOCATOR s5 + 1\<rparr>))))"

definition destruct :: "nat \<Rightarrow> sys \<Rightarrow> sys" where
  "destruct i s =
     (let s1 = s\<lparr>TESTER_ALLOCATOR := TESTER_ALLOCATOR s - 1\<rparr> in
      if TESTER_ALLOCATOR s1 = 0 \<and> queueDepth (tres s1 i) \<noteq> 0 then teardownQueues s1 else s1)"

definition empty_sys :: sys where
  "empty_sys =
     \<lparr>head = None, curTick = 0, async_queue = [], ev = (\<lambda>_. blank_event), inParallelMode = False,
      onCurQueue = True, freed = [],
      tres = (\<lambda>_. new_tre \<lparr>p_id = 0, p_interval = 1, p_queue_depth = 0, p_progress_interval = 1000000,
        p_progress_check = 5000000, p_atomic = False, p_suppress = False, p_max_outstanding = 1, p_period = 1\<rparr>
        (open_stream [])),
      allTREs = [], mutexMap = Map.empty, barrierMap = Map.empty, queues = Map.empty,
      TESTER_ALLOCATOR = 0, numIdleTREs = 0, simQuantum = 0, numExits = 0, numStatEvents = 0,
      statLog = [], atMem = (\<lambda>_. []), calls = 0\<rparr>"

fun construct_all :: "nat \<Rightarrow> (tre_params \<times> string option) list \<Rightarrow> sys \<Rightarrow> sys res" where
  "construct_all i [] s = Inr s"
| "construct_all i ((p, f) # ps) s = rbind (construct i p f s) (construct_all (Suc i) ps)"

end
