(* ===== verification/TRE_Invariant.thy ===== *)
theory TRE_Invariant
  imports TRE_Model
begin

text \<open>
  The invariant of a system of trace replay engines, and that every event keeps it.  The
  first part describes what the calls into the clock and the event queue change; the
  second part states the invariant component by component (requests in flight, the
  blocked packet, mutexes, barriers, queues); the third shows for each handler that it is
  kept.  The interpretation of the queue's client interface at the end carries it to every
  state of the simulation loop.
\<close>

subsection \<open>What scheduling changes\<close>

text \<open>A step that moves events and clocks only.\<close>

definition core :: "tre \<Rightarrow> tre" where
  "core t = t\<lparr>clk := new_clocked\<rparr>"

definition rest :: "sys \<Rightarrow> sys" where
  "rest s = s\<lparr>head := None, ev := (\<lambda>_. blank_event), freed := [], async_queue := [],
     onCurQueue := True, tres := (\<lambda>i. core (tres s i))\<rparr>"

lemma rest_fields:
  assumes "rest s' = rest s"
  shows "curTick s' = curTick s" "allTREs s' = allTREs s" "mutexMap s' = mutexMap s"
    "barrierMap s' = barrierMap s" "queues s' = queues s" "TESTER_ALLOCATOR s' = TESTER_ALLOCATOR s"
    "numIdleTREs s' = numIdleTREs s" "simQuantum s' = simQuantum s" "numExits s' = numExits s"
    "numStatEvents s' = numStatEvents s" "statLog s' = statLog s" "atMem s' = atMem s" "calls s' = calls s"
    "core (tres s' i) = core (tres s i)"
  using assms
  by (cases s; cases s'; simp add: rest_def fun_eq_iff)+

lemma core_fields:
  assumes "core t' = core t"
  shows "tid t' = tid t" "interval t' = interval t" "queueDepth t' = queueDepth t"
    "progressInterval t' = progressInterval t" "progressCheck t' = progressCheck t"
    "atomic t' = atomic t" "suppressFuncErrors t' = suppressFuncErrors t"
    "maxNumOutstandingAddrs t' = maxNumOutstandingAddrs t" "clk_period t' = clk_period t"
    "retryPkt t' = retryPkt t" "trace_fh t' = trace_fh t" "lastTokEntryPos t' = lastTokEntryPos t"
    "outstandingAddrs t' = outstandingAddrs t" "blkPkt t' = blkPkt t" "blocked t' = blocked t"
    "paddr t' = paddr t" "tdata t' = tdata t" "nextProgressMessage t' = nextProgressMessage t"
    "numLoads t' = numLoads t" "numStores t' = numStores t" "numStalls t' = numStalls t"
    "numBlkingAccesses t' = numBlkingAccesses t" "numTraceEntries t' = numTraceEntries t"
  using assms by (cases t; cases t'; simp add: core_def)+

lemma rest_keeps: "keeps s s' \<Longrightarrow> rest s' = rest s" for s :: sys
  by (cases s; cases s') (simp add: keeps_def rest_def)

definition event_known :: "sys \<Rightarrow> tev \<Rightarrow> bool" where
  "event_known s e \<longleftrightarrow>
     (case e of SimLoopExit n \<Rightarrow> n < numExits s | StatEvent n d r p \<Rightarrow> n < numStatEvents s | _ \<Rightarrow> True)"

definition queue_inv :: "sys \<Rightarrow> bool" where
  "queue_inv s \<longleftrightarrow> eq_ok s \<and> eq_future s \<and> (\<forall>e. initialized s e \<and> \<not> squashed s e) \<and>
     (\<forall>e. scheduled s e \<longrightarrow> event_known s e)"

lemma event_known_rest: "rest s' = rest s \<Longrightarrow> event_known s' e = event_known s e"
  using rest_fields(9,10) [of s' s] by (simp add: event_known_def split: tev.splits)

lemma event_known_tre [simp]: "event_known s (OfTRE i k)" "event_known s (MemEvent n)"
  by (simp_all add: event_known_def)

lemma schedule_step:
  assumes "queue_inv s" "event_known s e" "schedule e w g s = Inr s'"
  shows "queue_inv s'" "rest s' = rest s" "\<And>x. scheduled s' x \<longleftrightarrow> x = e \<or> scheduled s x" "\<not> scheduled s e"
proof -
  have q: "eq_ok s" "eq_future s" using assms(1) by (auto simp: queue_inv_def)
  note ok = schedule_ok [OF q(1) assms(3)]
  show r: "rest s' = rest s" by (rule rest_keeps [OF ok(2)])
  show s: "\<And>x. scheduled s' x \<longleftrightarrow> x = e \<or> scheduled s x" and "\<not> scheduled s e" using ok by auto
  have "initialized s' x = initialized s x" for x using ok(2) by (simp add: keeps_def)
  with ok(1) ok(7) [OF q(2)] show "queue_inv s'"
    using assms(1,2) by (auto simp: queue_inv_def s event_known_rest [OF r] schedule_squashed [OF assms(3)])
qed

lemma reschedule_step:
  assumes "queue_inv s" "event_known s e" "reschedule e w a s = Inr s'"
  shows "queue_inv s'" "rest s' = rest s" "\<And>x. scheduled s' x \<longleftrightarrow> x = e \<or> scheduled s x" "a \<or> scheduled s e"
proof -
  have q: "eq_ok s" "eq_future s" using assms(1) by (auto simp: queue_inv_def)
  note ok = reschedule_ok [OF q(1) assms(3)]
  show r: "rest s' = rest s" by (rule rest_keeps [OF ok(2)])
  show s: "\<And>x. scheduled s' x \<longleftrightarrow> x = e \<or> scheduled s x" and "a \<or> scheduled s e" using ok by auto
  have "initialized s' x = initialized s x" for x using ok(2) by (simp add: keeps_def)
  with ok(1) ok(6) [OF q(2)] show "queue_inv s'"
    using assms(1,2) by (auto simp: queue_inv_def s event_known_rest [OF r] dest: reschedule_squashed [OF assms(3)])
qed

lemma deschedule_step:
  assumes "queue_inv s" "deschedule e s = Inr s'"
  shows "queue_inv s'" "rest s' = rest s" "\<And>x. scheduled s' x \<longleftrightarrow> x \<noteq> e \<and> scheduled s x"
proof -
  have q: "eq_ok s" "eq_future s" using assms(1) by (auto simp: queue_inv_def)
  note ok = deschedule_ok [OF q(1) assms(2)]
  show r: "rest s' = rest s" by (rule rest_keeps [OF ok(2)])
  show s: "\<And>x. scheduled s' x \<longleftrightarrow> x \<noteq> e \<and> scheduled s x" using ok by auto
  have "initialized s' x = initialized s x" for x using ok(2) by (simp add: keeps_def)
  with ok(1) ok(5) [OF q(2)] show "queue_inv s'"
    using assms(1) by (auto simp: queue_inv_def s event_known_rest [OF r] dest: deschedule_squashed [OF assms(2)])
qed

text \<open>An update that leaves the queue's own fields alone.\<close>

definition same_queue :: "sys \<Rightarrow> sys \<Rightarrow> bool" where
  "same_queue s s' \<longleftrightarrow> head s' = head s \<and> curTick s' = curTick s \<and> async_queue s' = async_queue s \<and>
     ev s' = ev s \<and> inParallelMode s' = inParallelMode s"

lemma same_queue_scheduled: "same_queue s s' \<Longrightarrow> scheduled s' e = scheduled s e"
  by (simp add: same_queue_def scheduled_def)

lemma same_queue_inv:
  assumes "same_queue s s'" "numExits s' = numExits s" "numStatEvents s' = numStatEvents s" "queue_inv s"
  shows "queue_inv s'"
proof -
  have "eq_ok s' = eq_ok s" "eq_future s' = eq_future s"
    using assms(1)
    by (simp_all add: same_queue_def eq_ok_def eq_wf_def eq_future_def scheduled_def represents_def)
  moreover have "event_known s' = event_known s"
    using assms(2,3) by (auto simp: event_known_def fun_eq_iff split: tev.splits)
  moreover have "initialized s' e = initialized s e" "squashed s' e = squashed s e" for e
    using assms(1) by (simp_all add: same_queue_def initialized_def squashed_def)
  ultimately show ?thesis
    using assms(4) by (simp add: queue_inv_def same_queue_scheduled [OF assms(1)])
qed

lemma clock_edge_step:
  assumes "clock_edge i c s = Inr (w, s')"
  shows "same_queue s s'" "rest s' = rest s" "\<exists>k. s' = upd_tre i (\<lambda>t. t\<lparr>clk := k\<rparr>) s"
proof -
  obtain k where s': "s' = upd_tre i (\<lambda>t. t\<lparr>clk := k\<rparr>) s" using assms by (auto simp: clock_edge_def)
  then show "same_queue s s'" "rest s' = rest s" "\<exists>k. s' = upd_tre i (\<lambda>t. t\<lparr>clk := k\<rparr>) s"
    by (auto simp: same_queue_def upd_tre_def set_tre_def rest_def core_def fun_eq_iff)
qed

lemma schedule_edge_step:
  assumes "queue_inv s" "event_known s e" "schedule_edge i c e s = Inr s'"
  shows "queue_inv s'" "rest s' = rest s" "\<And>x. scheduled s' x \<longleftrightarrow> x = e \<or> scheduled s x" "\<not> scheduled s e"
proof -
  obtain w s1 where c: "clock_edge i c s = Inr (w, s1)" and d: "schedule e w False s1 = Inr s'"
    using assms(3) by (auto simp: schedule_edge_def)
  note k = clock_edge_step [OF c]
  have q: "queue_inv s1" "event_known s1 e"
    using same_queue_inv [OF k(1) _ _ assms(1)] rest_fields [OF k(2)] assms(2) event_known_rest [OF k(2)]
    by auto
  note g = schedule_step [OF q d]
  show "queue_inv s'" "rest s' = rest s" "\<And>x. scheduled s' x \<longleftrightarrow> x = e \<or> scheduled s x" "\<not> scheduled s e"
    using g k(2) by (auto simp: same_queue_scheduled [OF k(1)])
qed

lemma reschedule_edge_step:
  assumes "queue_inv s" "event_known s e" "reschedule_edge i c e a s = Inr s'"
  shows "queue_inv s'" "rest s' = rest s" "\<And>x. scheduled s' x \<longleftrightarrow> x = e \<or> scheduled s x" "a \<or> scheduled s e"
proof -
  obtain w s1 where c: "clock_edge i c s = Inr (w, s1)" and d: "reschedule e w a s1 = Inr s'"
    using assms(3) by (auto simp: reschedule_edge_def)
  note k = clock_edge_step [OF c]
  have q: "queue_inv s1" "event_known s1 e"
    using same_queue_inv [OF k(1) _ _ assms(1)] rest_fields [OF k(2)] assms(2) event_known_rest [OF k(2)]
    by auto
  note g = reschedule_step [OF q d]
  show "queue_inv s'" "rest s' = rest s" "\<And>x. scheduled s' x \<longleftrightarrow> x = e \<or> scheduled s x" "a \<or> scheduled s e"
    using g k(2) by (auto simp: same_queue_scheduled [OF k(1)])
qed

lemma next_tick_step:
  assumes "queue_inv s" "next_tick i s = Inr s'"
  shows "queue_inv s'" "rest s' = rest s"
    "\<And>x. scheduled s' x \<longleftrightarrow> x = OfTRE i tickEvent \<or> scheduled s x" "\<not> scheduled s (OfTRE i tickEvent)"
  using schedule_edge_step [OF assms(1) _ assms(2) [unfolded next_tick_def]] by auto

subsection \<open>The invariant\<close>

text \<open>Requests in flight: what the engine believes to be outstanding is what the memory system
  holds plus the packet that waits for a retry.\<close>

definition retry_addrs :: "tre \<Rightarrow> Addr list" where
  "retry_addrs t = (case retryPkt t of None \<Rightarrow> [] | Some p \<Rightarrow> [pk_addr p])"

definition flight_inv :: "tre \<Rightarrow> packet list \<Rightarrow> bool" where
  "flight_inv t held \<longleftrightarrow>
     mset (map fst (outstandingAddrs t)) = mset (map pk_addr held @ retry_addrs t) \<and>
     (\<forall>p \<in> set held. pk_size p = 4) \<and> (\<forall>p. retryPkt t = Some p \<longrightarrow> pk_size p = 4) \<and>
     (atomic t \<longrightarrow> outstandingAddrs t = [])"

text \<open>The blocked packet: dependencies are recorded only while blocked, and a blocked engine that is
  not about to tick has a response to wait for.\<close>

definition blocked_inv :: "tre \<Rightarrow> bool \<Rightarrow> bool" where
  "blocked_inv t ticking \<longleftrightarrow>
     (\<not> blocked t \<longrightarrow> bp_deps (blkPkt t) = {}) \<and>
     (blocked t \<and> \<not> ticking \<and> maxNumOutstandingAddrs t \<noteq> 0 \<longrightarrow> outstandingAddrs t \<noteq> [])"

definition tre_inv :: "sys \<Rightarrow> nat \<Rightarrow> bool" where
  "tre_inv s i \<longleftrightarrow>
     flight_inv (tres s i) (atMem s i) \<and>
     blocked_inv (tres s i) (scheduled s (OfTRE i tickEvent)) \<and>
     (outstandingAddrs (tres s i) \<noteq> [] \<longrightarrow> scheduled s (OfTRE i noResponseEvent)) \<and>
     (i \<in> set (allTREs s) \<longrightarrow> scheduled s (OfTRE i noRequestEvent))"

definition mutex_ok :: "TREMutex \<Rightarrow> bool" where
  "mutex_ok m \<longleftrightarrow> (waiting m \<noteq> [] \<longrightarrow> owner m \<noteq> None)"

definition barrier_ok :: "TREBarrier \<Rightarrow> bool" where
  "barrier_ok b \<longleftrightarrow> length (arrived b) < unat (bcount b)"

definition tqueue_ok :: "TREQueue \<Rightarrow> bool" where
  "tqueue_ok q \<longleftrightarrow> length (items q) \<le> unat (qsize q) \<and>
     (waitingToPop q \<noteq> None \<longrightarrow> items q = []) \<and>
     (waitingToPush q \<noteq> None \<longrightarrow> length (items q) = unat (qsize q))"

definition sync_inv :: "sys \<Rightarrow> bool" where
  "sync_inv s \<longleftrightarrow>
     (\<forall>a m. mutexMap s a = Some m \<longrightarrow> mutex_ok m) \<and>
     (\<forall>a b. barrierMap s a = Some b \<longrightarrow> barrier_ok b) \<and>
     (\<forall>k q. queues s k = Some q \<longrightarrow> tqueue_ok q)"

definition sys_inv :: "sys \<Rightarrow> bool" where
  "sys_inv s \<longleftrightarrow> queue_inv s \<and> sync_inv s \<and> (\<forall>i. tre_inv s i)"

text \<open>A step that only adds events and changes what \<^const>\<open>tre_inv\<close> does not look at.\<close>

definition lite where
  "lite t = (outstandingAddrs t, retryPkt t, atomic t, blocked t, bp_deps (blkPkt t), maxNumOutstandingAddrs t)"

definition light :: "sys \<Rightarrow> sys \<Rightarrow> bool" where
  "light s s' \<longleftrightarrow> queue_inv s' \<and> (\<forall>x. scheduled s x \<longrightarrow> scheduled s' x) \<and> curTick s' = curTick s \<and>
     (\<forall>j. lite (tres s' j) = lite (tres s j)) \<and> atMem s' = atMem s \<and> allTREs s' = allTREs s"

lemma light_refl: "queue_inv s \<Longrightarrow> light s s"
  by (simp add: light_def)

lemma light_trans: "light s s1 \<Longrightarrow> light s1 s2 \<Longrightarrow> light s s2"
  by (simp add: light_def)

lemma light_queue: "light s s' \<Longrightarrow> queue_inv s'"
  by (simp add: light_def)

lemma lite_core: "core t' = core t \<Longrightarrow> lite t' = lite t"
  by (simp add: lite_def core_fields [of t' t])

lemma lite_eq:
  assumes "lite t' = lite t"
  shows "outstandingAddrs t' = outstandingAddrs t" "retryPkt t' = retryPkt t" "atomic t' = atomic t"
    "blocked t' = blocked t" "bp_deps (blkPkt t') = bp_deps (blkPkt t)"
    "maxNumOutstandingAddrs t' = maxNumOutstandingAddrs t"
  using assms by (simp_all add: lite_def)

lemma light_rest:
  assumes "queue_inv s'" "rest s' = rest s" "\<And>x. scheduled s x \<Longrightarrow> scheduled s' x"
  shows "light s s'"
  using assms(1,3) rest_fields(1,2,12) [OF assms(2)] lite_core [OF rest_fields(14) [OF assms(2)]]
  by (simp add: light_def)

lemma tre_inv_mono:
  assumes "lite (tres s' i) = lite (tres s i)" "atMem s' i = atMem s i" "allTREs s' = allTREs s"
    "\<And>x. scheduled s x \<Longrightarrow> scheduled s' x" "tre_inv s i"
  shows "tre_inv s' i"
  using assms(2-) lite_eq [OF assms(1)]
  by (auto simp: tre_inv_def flight_inv_def blocked_inv_def retry_addrs_def)

lemma light_inv: "light s s' \<Longrightarrow> sync_inv s' \<Longrightarrow> sys_inv s \<Longrightarrow> sys_inv s'"
  using tre_inv_mono [of s' _ s] by (auto simp: sys_inv_def light_def)

lemma sync_inv_rest: "rest s' = rest s \<Longrightarrow> sync_inv s' = sync_inv s"
  using rest_fields(3-5) [of s' s] by (simp add: sync_inv_def)

lemma next_tick_light: "queue_inv s \<Longrightarrow> next_tick i s = Inr s' \<Longrightarrow> light s s' \<and> rest s' = rest s"
  using next_tick_step [of s i s'] by (auto intro: light_rest)

lemma schedule_edge_light:
  "queue_inv s \<Longrightarrow> event_known s e \<Longrightarrow> schedule_edge i c e s = Inr s' \<Longrightarrow> light s s' \<and> rest s' = rest s"
  using schedule_edge_step [of s e i c s'] by (auto intro: light_rest)

lemma reschedule_edge_light:
  "queue_inv s \<Longrightarrow> event_known s e \<Longrightarrow> reschedule_edge i c e a s = Inr s' \<Longrightarrow> light s s' \<and> rest s' = rest s"
  using reschedule_edge_step [of s e i c a s'] by (auto intro: light_rest)

text \<open>Plain updates of the state.\<close>

lemma light_upd:
  assumes "queue_inv s" "same_queue s s'" "numExits s' = numExits s" "numStatEvents s' = numStatEvents s"
    "\<And>j. lite (tres s' j) = lite (tres s j)" "atMem s' = atMem s" "allTREs s' = allTREs s"
  shows "light s s'"
  using assms(5-) same_queue_inv [OF assms(2-4,1)] same_queue_scheduled [OF assms(2)] assms(2)
  by (simp add: light_def same_queue_def)

lemma light_upd_tre:
  assumes "queue_inv s" "lite (f (tres s i)) = lite (tres s i)"
  shows "light s (upd_tre i f s)"
  by (rule light_upd) (use assms in \<open>auto simp: same_queue_def upd_tre_def set_tre_def\<close>)

lemma light_set_tre: "queue_inv s \<Longrightarrow> lite t = lite (tres s i) \<Longrightarrow> light s (set_tre i t s)"
  by (rule light_upd) (auto simp: same_queue_def set_tre_def)

lemma light_count [simp]: "queue_inv s \<Longrightarrow> light s (count_entry i s)"
  by (simp add: count_entry_def light_upd_tre lite_def)

lemma light_paddr [simp]: "queue_inv s \<Longrightarrow> light s (set_paddr a i s)"
  by (simp add: set_paddr_def light_upd_tre lite_def)

lemma light_data [simp]: "queue_inv s \<Longrightarrow> light s (set_data a i s)"
  by (simp add: set_data_def light_upd_tre lite_def)

lemma light_maps [simp]:
  "queue_inv s \<Longrightarrow> light s (s\<lparr>mutexMap := M\<rparr>)"
  "queue_inv s \<Longrightarrow> light s (s\<lparr>barrierMap := B\<rparr>)"
  "queue_inv s \<Longrightarrow> light s (s\<lparr>queues := Q\<rparr>)"
  "queue_inv s \<Longrightarrow> light s (s\<lparr>calls := n\<rparr>)"
  "queue_inv s \<Longrightarrow> light s (s\<lparr>numIdleTREs := d\<rparr>)"
  "queue_inv s \<Longrightarrow> light s (s\<lparr>statLog := l\<rparr>)"
  by (rule light_upd; simp add: same_queue_def)+

lemma sync_inv_upd [simp]:
  "sync_inv (upd_tre i f s) = sync_inv s" "sync_inv (set_tre i t s) = sync_inv s"
  "sync_inv (count_entry i s) = sync_inv s" "sync_inv (set_paddr a i s) = sync_inv s"
  "sync_inv (set_data d i s) = sync_inv s" "sync_inv (s\<lparr>calls := n\<rparr>) = sync_inv s"
  "sync_inv (s\<lparr>numIdleTREs := k\<rparr>) = sync_inv s" "sync_inv (s\<lparr>statLog := l\<rparr>) = sync_inv s"
  by (simp_all add: sync_inv_def upd_tre_def set_tre_def count_entry_def set_paddr_def set_data_def)

lemma sync_inv_mutex: "sync_inv s \<Longrightarrow> mutex_ok m \<Longrightarrow> sync_inv (s\<lparr>mutexMap := (mutexMap s)(a \<mapsto> m)\<rparr>)"
  by (simp add: sync_inv_def)

lemma sync_inv_barrier: "sync_inv s \<Longrightarrow> barrier_ok b \<Longrightarrow> sync_inv (s\<lparr>barrierMap := (barrierMap s)(a \<mapsto> b)\<rparr>)"
  by (simp add: sync_inv_def)

lemma sync_inv_queue: "sync_inv s \<Longrightarrow> tqueue_ok q \<Longrightarrow> sync_inv (set_queue k q s)"
  by (simp add: sync_inv_def set_queue_def)

lemma light_queue_upd [simp]: "queue_inv s \<Longrightarrow> light s (set_queue k q s)"
  by (simp add: set_queue_def)

subsection \<open>The primitives keep the invariant\<close>

text \<open>\<open>calm s s'\<close>: from a sound state the step is \<^const>\<open>light\<close> and keeps the shared objects sound.\<close>

definition calm :: "sys \<Rightarrow> sys \<Rightarrow> bool" where
  "calm s s' \<longleftrightarrow> (queue_inv s \<and> sync_inv s \<longrightarrow> light s s' \<and> sync_inv s')"

lemma calm_refl: "calm s s"
  by (simp add: calm_def light_refl)

lemma calm_trans: "calm s s1 \<Longrightarrow> calm s1 s2 \<Longrightarrow> calm s s2"
  unfolding calm_def using light_trans [of s s1 s2] light_queue [of s s1] by blast

lemma calm_inv: "calm s s' \<Longrightarrow> sys_inv s \<Longrightarrow> sys_inv s' \<and> curTick s' = curTick s"
  using light_inv [of s s'] by (auto simp: calm_def sys_inv_def light_def)

lemma calm_schedule_edge:
  "schedule_edge i c (OfTRE j k) s1 = Inr s2 \<Longrightarrow> calm s s1 \<Longrightarrow> calm s s2"
  using schedule_edge_light [of s1 "OfTRE j k" i c s2] sync_inv_rest [of s2 s1]
  by (intro calm_trans [of s s1 s2]) (simp_all add: calm_def)

lemma calm_reschedule_edge:
  "reschedule_edge i c (OfTRE j k) a s1 = Inr s2 \<Longrightarrow> calm s s1 \<Longrightarrow> calm s s2"
  using reschedule_edge_light [of s1 "OfTRE j k" i c a s2] sync_inv_rest [of s2 s1]
  by (intro calm_trans [of s s1 s2]) (simp_all add: calm_def)

lemma calm_next_tick: "next_tick i s1 = Inr s2 \<Longrightarrow> calm s s1 \<Longrightarrow> calm s s2"
  unfolding next_tick_def by (rule calm_schedule_edge)

lemma calm_upd_tre:
  assumes "calm s s1" "lite (f (tres s1 i)) = lite (tres s1 i)"
  shows "calm s (upd_tre i f s1)"
  by (rule calm_trans [OF assms(1)]) (simp add: calm_def light_upd_tre assms(2))

lemma calm_set_tre:
  assumes "calm s s1" "lite t = lite (tres s1 i)"
  shows "calm s (set_tre i t s1)"
  by (rule calm_trans [OF assms(1)]) (simp add: calm_def light_set_tre assms(2))

lemma calm_fields:
  assumes "calm s s1"
  shows "calm s (count_entry i s1)" "calm s (set_paddr a i s1)" "calm s (set_data d i s1)"
    "calm s (s1\<lparr>calls := n\<rparr>)" "calm s (s1\<lparr>numIdleTREs := k\<rparr>)" "calm s (s1\<lparr>statLog := l\<rparr>)"
  by (rule calm_trans [OF assms]; simp add: calm_def)+

lemma calm_mutex:
  assumes "calm s s1" "queue_inv s \<Longrightarrow> sync_inv s \<Longrightarrow> mutex_ok m"
  shows "calm s (s1\<lparr>mutexMap := (mutexMap s1)(a \<mapsto> m)\<rparr>)"
  using assms light_trans [of s s1] light_maps(1) [of s1] light_queue [of s s1] sync_inv_mutex [of s1 m a]
  by (auto simp: calm_def)

lemma calm_barrier:
  assumes "calm s s1" "queue_inv s \<Longrightarrow> sync_inv s \<Longrightarrow> barrier_ok b"
  shows "calm s (s1\<lparr>barrierMap := (barrierMap s1)(a \<mapsto> b)\<rparr>)"
  using assms light_trans [of s s1] light_maps(2) [of s1] light_queue [of s s1] sync_inv_barrier [of s1 b a]
  by (auto simp: calm_def)

lemma calm_queue:
  assumes "calm s s1" "queue_inv s \<Longrightarrow> sync_inv s \<Longrightarrow> tqueue_ok q"
  shows "calm s (set_queue k q s1)"
  using assms light_trans [of s s1] light_queue_upd [of s1] light_queue [of s s1] sync_inv_queue [of s1 q k]
  by (auto simp: calm_def)

lemma sync_invD:
  "sync_inv s \<Longrightarrow> mutexMap s a = Some m \<Longrightarrow> mutex_ok m"
  "sync_inv s \<Longrightarrow> barrierMap s a = Some b \<Longrightarrow> barrier_ok b"
  "sync_inv s \<Longrightarrow> queues s k = Some q \<Longrightarrow> tqueue_ok q"
  unfolding sync_inv_def by blast+

lemma retry_token_calm: "retry_token i s = Inr s' \<Longrightarrow> calm s s'"
  unfolding retry_token_def
  by (erule calm_next_tick) (simp add: calm_upd_tre calm_refl lite_def)

lemma initMutex_calm:
  assumes "initMutex i s = Inr s'"
  shows "calm s s'"
proof -
  obtain s2 where n: "next_tick i (count_entry i (s\<lparr>mutexMap := (mutexMap s)(paddr (tres s i) \<mapsto>
      \<lparr>owner = None, waiting = []\<rparr>)\<rparr>)) = Inr s2" and s': "s' = set_paddr 0 i s2"
    using assms by (auto simp: initMutex_def Let_def)
  show ?thesis unfolding s'
    by (intro calm_fields calm_next_tick [OF n] calm_mutex calm_refl) (simp add: mutex_ok_def)
qed

lemma lockMutex_calm:
  assumes "lockMutex i s = Inr s'"
  shows "calm s s'"
proof (cases "mutexMap s (paddr (tres s i))")
  case None
  then show ?thesis using assms by (auto simp: lockMutex_def Let_def intro: retry_token_calm)
next
  case (Some m)
  show ?thesis
  proof (cases "owner m")
    case None
    then obtain s1 where n: "next_tick i (s\<lparr>mutexMap := (mutexMap s)(paddr (tres s i) \<mapsto>
        m\<lparr>owner := Some i\<rparr>)\<rparr>) = Inr s1" and s': "s' = set_paddr 0 i (count_entry i s1)"
      using assms Some by (auto simp: lockMutex_def Let_def)
    show ?thesis unfolding s'
      by (intro calm_fields calm_next_tick [OF n] calm_mutex calm_refl) (simp add: mutex_ok_def)
  next
    case (Some j)
    then have s': "s' = set_paddr 0 i (count_entry i
        (s\<lparr>mutexMap := (mutexMap s)(paddr (tres s i) \<mapsto> m\<lparr>waiting := waiting m @ [i]\<rparr>)\<rparr>))"
      using assms \<open>mutexMap s (paddr (tres s i)) = Some m\<close> by (auto simp: lockMutex_def Let_def)
    show ?thesis unfolding s'
      by (intro calm_fields calm_mutex calm_refl) (simp add: mutex_ok_def Some)
  qed
qed

lemma unlockMutex_calm:
  assumes "unlockMutex E i s = Inr s'"
  shows "calm s s'"
proof -
  let ?a = "paddr (tres s i)"
  obtain m s3 s4 where m: "mutexMap s ?a = Some m"
    and s3: "(if waiting m = [] then Inr (s\<lparr>mutexMap := (mutexMap s)(?a \<mapsto> m\<lparr>owner := None, waiting := []\<rparr>)\<rparr>)
       else let idx = rand E (calls s) mod length (waiting m); target = waiting m ! idx; s1 = s\<lparr>calls := calls s + 1\<rparr> in
         rbind (schedule_edge i (interval (tres s1 i)) (OfTRE target tickEvent) s1) (\<lambda>s2.
           Inr (s2\<lparr>mutexMap := (mutexMap s2)(?a \<mapsto> m\<lparr>owner := Some target,
             waiting := take idx (waiting m) @ drop (Suc idx) (waiting m)\<rparr>)\<rparr>))) = Inr s3"
    and s4: "next_tick i (count_entry i s3) = Inr s4" and s': "s' = set_paddr 0 i s4"
    using assms by (auto simp: unlockMutex_def Let_def split: option.splits)
  have "calm s s3"
  proof (cases "waiting m = []")
    case True
    then have "s3 = s\<lparr>mutexMap := (mutexMap s)(?a \<mapsto> m\<lparr>owner := None, waiting := []\<rparr>)\<rparr>" using s3 by simp
    then show ?thesis by (auto intro!: calm_mutex calm_refl simp: mutex_ok_def)
  next
    case False
    then obtain t w s2 where e: "schedule_edge i (interval (tres s i)) (OfTRE t tickEvent) (s\<lparr>calls := calls s + 1\<rparr>) = Inr s2"
      and "s3 = s2\<lparr>mutexMap := (mutexMap s2)(?a \<mapsto> m\<lparr>owner := Some t, waiting := w\<rparr>)\<rparr>"
      using s3 by (auto simp: Let_def)
    then show ?thesis
      by (auto intro!: calm_mutex calm_schedule_edge [OF e] calm_fields calm_refl simp: mutex_ok_def)
  qed
  then show ?thesis unfolding s' by (intro calm_fields calm_next_tick [OF s4])
qed

lemma initBarrier_calm:
  assumes "initBarrier i s = Inr s'"
  shows "calm s s'"
proof -
  obtain s2 where n: "next_tick i (count_entry i (s\<lparr>barrierMap := (barrierMap s)(paddr (tres s i) \<mapsto>
      \<lparr>bcount = tdata (tres s i), arrived = []\<rparr>)\<rparr>)) = Inr s2"
    and s': "s' = set_data 0 i (set_paddr 0 i s2)" and d: "tdata (tres s i) \<noteq> 0"
    using assms by (auto simp: initBarrier_def Let_def)
  show ?thesis unfolding s'
    by (intro calm_fields calm_next_tick [OF n] calm_barrier calm_refl)
      (simp add: barrier_ok_def d unat_gt_0)
qed

lemma release_all_light:
  "queue_inv s \<Longrightarrow> release_all i ts s = Inr s' \<Longrightarrow> light s s' \<and> rest s' = rest s"
proof (induction ts arbitrary: s)
  case Nil
  then show ?case by (simp add: light_refl)
next
  case (Cons t ts)
  then obtain s1 where e: "schedule_edge i (interval (tres s i)) (OfTRE t tickEvent) s = Inr s1"
    and r: "release_all i ts s1 = Inr s'" by auto
  have l: "light s s1 \<and> rest s1 = rest s" using schedule_edge_light [OF Cons.prems(1) _ e] by simp
  then have "light s1 s' \<and> rest s' = rest s1" using Cons.IH [OF _ r] light_queue by blast
  with l show ?case using light_trans by auto
qed

lemma waitAtBarrier_calm:
  assumes "waitAtBarrier i s = Inr s'"
  shows "calm s s'"
proof (cases "barrierMap s (paddr (tres s i))")
  case None
  then show ?thesis using assms by (auto simp: waitAtBarrier_def Let_def intro: retry_token_calm)
next
  case (Some b)
  define a where "a = paddr (tres s i)"
  define b1 where "b1 = b\<lparr>arrived := arrived b @ [i]\<rparr>"
  define s1 where "s1 = s\<lparr>barrierMap := (barrierMap s)(a \<mapsto> b1)\<rparr>"
  obtain s3 where s3: "(if length (arrived b1) = unat (bcount b1) then
        rbind (release_all i (arrived b1) s1) (\<lambda>s2.
          Inr (s2\<lparr>barrierMap := (barrierMap s2)(a \<mapsto> b1\<lparr>arrived := []\<rparr>)\<rparr>))
      else Inr s1) = Inr s3"
    and s': "s' = set_paddr 0 i (count_entry i s3)"
    using assms Some unfolding waitAtBarrier_def Let_def a_def b1_def s1_def
    by (auto simp del: TREBarrier.simps)
  have "calm s s3"
  proof (cases "length (arrived b1) = unat (bcount b1)")
    case False
    then have "s3 = s1" using s3 by simp
    moreover have "barrier_ok b1" if "sync_inv s"
      using False sync_invD(2) [OF that Some] by (simp add: barrier_ok_def b1_def)
    ultimately show ?thesis unfolding s1_def by (auto intro: calm_barrier calm_refl)
  next
    case True
    then obtain s2 where s2: "release_all i (arrived b1) s1 = Inr s2"
      and s3: "s3 = s2\<lparr>barrierMap := (barrierMap s2)(a \<mapsto> b1\<lparr>arrived := []\<rparr>)\<rparr>"
      using s3 by auto
    show ?thesis unfolding calm_def
    proof (intro impI)
      assume i: "queue_inv s \<and> sync_inv s"
      then have l1: "light s s1" unfolding s1_def by simp
      have l2: "light s1 s2 \<and> rest s2 = rest s1" by (rule release_all_light [OF light_queue [OF l1] s2])
      then have l3: "light s2 s3" unfolding s3 using light_queue [of s1 s2] by simp
      have "barrier_ok (b1\<lparr>arrived := []\<rparr>)"
        using True by (simp add: barrier_ok_def b1_def)
      then have "sync_inv s3"
        using i rest_fields(3-5) [of s2 s1] l2 by (auto simp: s3 s1_def sync_inv_def split: if_splits)
      with l1 l2 l3 show "light s s3 \<and> sync_inv s3" using light_trans by blast
    qed
  qed
  then show ?thesis unfolding s' by (intro calm_fields)
qed

lemma wake_calm:
  assumes "wake i s = Inr s'"
  shows "calm s s'"
proof -
  obtain t s1 s2 where e: "schedule_edge i (interval (tres s i)) (OfTRE t tickEvent) s = Inr s1"
    and n: "next_tick i (count_entry i s1) = Inr s2" and s': "s' = set_data 0 i s2"
    using assms by (auto simp: wake_def Let_def)
  show ?thesis unfolding s'
    by (intro calm_fields calm_next_tick [OF n] calm_schedule_edge [OF e] calm_refl)
qed

text \<open>The common end of \<^verbatim>\<open>push\<close> and \<^verbatim>\<open>pop\<close>: release the other side, if it waits.\<close>

lemma queue_release_calm:
  assumes e: "schedule_edge i c (OfTRE t e) (set_queue k q1 s) = Inr s1"
    and n: "next_tick i (count_entry i (set_queue k q2 s1)) = Inr s3"
    and ok: "sync_inv s \<Longrightarrow> tqueue_ok q2"
  shows "calm s (set_data 0 i s3)"
proof -
  have "calm s (set_queue k q2 s1)" unfolding calm_def
  proof (intro impI)
    assume i: "queue_inv s \<and> sync_inv s"
    then have l1: "light s (set_queue k q1 s)" by simp
    have l2: "light (set_queue k q1 s) s1 \<and> rest s1 = rest (set_queue k q1 s)"
      using schedule_edge_light [OF light_queue [OF l1] _ e] by simp
    then have l3: "light s1 (set_queue k q2 s1)"
      using light_queue [of "set_queue k q1 s" s1] by simp
    have "sync_inv (set_queue k q2 s1)"
      using i ok rest_fields(3-5) [of s1 "set_queue k q1 s"] l2
      by (auto simp: sync_inv_def set_queue_def split: if_splits)
    with l1 l2 l3 show "light s (set_queue k q2 s1) \<and> sync_inv (set_queue k q2 s1)"
      using light_trans by blast
  qed
  then show ?thesis by (intro calm_fields calm_next_tick [OF n])
qed

lemma push_calm:
  assumes "push i s = Inr s'"
  shows "calm s s'"
proof -
  define k where "k = (tid (tres s i), tdata (tres s i))"
  obtain q where q: "queues s k = Some q"
    using assms by (auto simp: push_def Let_def k_def split: option.splits)
  have ok: "sync_inv s \<Longrightarrow> tqueue_ok q" using sync_invD(3) [OF _ q] .
  show ?thesis
  proof (cases "length (items q) = unat (qsize q)")
    case True
    then have "s' = set_queue k (q\<lparr>waitingToPush := Some i\<rparr>) s"
      using assms q by (simp add: push_def Let_def k_def)
    then show ?thesis using ok True by (auto intro!: calm_queue calm_refl simp: tqueue_ok_def)
  next
    case False
    show ?thesis
    proof (cases "waitingToPop q")
      case None
      then obtain s3 where n: "next_tick i (count_entry i (set_queue k (q\<lparr>items := items q @ [0]\<rparr>) s)) = Inr s3"
        and s': "s' = set_data 0 i s3"
        using assms q False by (auto simp: push_def Let_def k_def)
      show ?thesis unfolding s'
        using ok None False
        by (intro calm_fields calm_next_tick [OF n] calm_queue calm_refl) (auto simp: tqueue_ok_def)
    next
      case (Some t)
      then obtain s1 s3 where
        e: "schedule_edge i (interval (tres s i)) (OfTRE t popEvent) (set_queue k (q\<lparr>items := items q @ [0]\<rparr>) s) = Inr s1"
        and n: "next_tick i (count_entry i (set_queue k (q\<lparr>items := items q @ [0], waitingToPop := None\<rparr>) s1)) = Inr s3"
        and s': "s' = set_data 0 i s3"
        using assms q False by (auto simp: push_def Let_def k_def)
      show ?thesis unfolding s'
        using ok Some False by (intro queue_release_calm [OF e n]) (auto simp: tqueue_ok_def)
    qed
  qed
qed

lemma pop_calm:
  assumes "pop i s = Inr s'"
  shows "calm s s'"
proof -
  define k where "k = (tdata (tres s i), tid (tres s i))"
  obtain q where q: "queues s k = Some q"
    using assms by (auto simp: pop_def Let_def k_def split: option.splits)
  have ok: "sync_inv s \<Longrightarrow> tqueue_ok q" using sync_invD(3) [OF _ q] .
  show ?thesis
  proof (cases "items q = []")
    case True
    then have "s' = set_queue k (q\<lparr>waitingToPop := Some i\<rparr>) s"
      using assms q by (simp add: pop_def Let_def k_def)
    then show ?thesis using ok True by (auto intro!: calm_queue calm_refl simp: tqueue_ok_def)
  next
    case False
    show ?thesis
    proof (cases "waitingToPush q")
      case None
      then obtain s3 where n: "next_tick i (count_entry i (set_queue k (q\<lparr>items := tl (items q)\<rparr>) s)) = Inr s3"
        and s': "s' = set_data 0 i s3"
        using assms q False by (auto simp: pop_def Let_def k_def)
      show ?thesis unfolding s'
        using ok None False
        by (intro calm_fields calm_next_tick [OF n] calm_queue calm_refl) (auto simp: tqueue_ok_def)
    next
      case (Some t)
      then obtain s1 s3 where
        e: "schedule_edge i (interval (tres s i)) (OfTRE t pushEvent) (set_queue k (q\<lparr>items := tl (items q)\<rparr>) s) = Inr s1"
        and n: "next_tick i (count_entry i (set_queue k (q\<lparr>items := tl (items q), waitingToPush := None\<rparr>) s1)) = Inr s3"
        and s': "s' = set_data 0 i s3"
        using assms q False by (auto simp: pop_def Let_def k_def)
      show ?thesis unfolding s'
        using ok Some False by (intro queue_release_calm [OF e n]) (auto simp: tqueue_ok_def)
    qed
  qed
qed

subsection \<open>Exit and statistics events\<close>

definition fresh_flags :: "u16 set" where
  "fresh_flags = {0, IsExitEvent}"

lemma fresh_event_flags:
  assumes "f \<in> fresh_flags"
  shows "\<not> flag_isSet (Initialized OR f) Scheduled" "\<not> flag_isSet (Initialized OR f) Squashed"
    "(Initialized OR f) AND InitMask = Initialized"
  using assms
  by (auto simp: fresh_flags_def flag_isSet_def Initialized_def Scheduled_def Squashed_def InitMask_def IsExitEvent_def)

lemma new_event_flags:
  assumes "f \<in> fresh_flags" "\<not> scheduled s e"
  shows "scheduled (new_event e p f s) x = scheduled s x"
    "initialized (new_event e p f s) x \<longleftrightarrow> x = e \<or> initialized s x"
    "squashed (new_event e p f s) x \<longleftrightarrow> x \<noteq> e \<and> squashed s x"
  using assms fresh_event_flags [OF assms(1)]
  by (auto simp: new_event_def scheduled_def initialized_def squashed_def)

lemma new_event_ok:
  assumes "f \<in> fresh_flags" "\<not> scheduled s e" "eq_ok s"
  shows "eq_ok (new_event e p f s)"
proof -
  obtain xs where xs: "represents s xs" "distinct xs" "\<And>x. scheduled s x \<longleftrightarrow> x \<in> set xs"
    "async_queue s = []" "\<not> inParallelMode s"
    using assms(3) by (auto simp: eq_ok_def eq_wf_def)
  have "e \<notin> set xs" using xs(3) assms(2) by simp
  then have "represents (new_event e p f s) xs"
    by (intro represents_frame [OF xs(1)]) (auto simp: new_event_def key_def)
  then show ?thesis
    using xs new_event_flags(1) [OF assms(1,2)]
    by (auto simp: eq_ok_def eq_wf_def new_event_def intro!: exI [of _ xs])
qed

lemma same_queue_parts:
  assumes "same_queue s t"
  shows "eq_ok t = eq_ok s" "eq_future t = eq_future s" "initialized t x = initialized s x"
    "squashed t x = squashed s x"
  using assms
  by (simp_all add: same_queue_def eq_ok_def eq_wf_def eq_future_def scheduled_def represents_def
      initialized_def squashed_def)

lemma fresh_light:
  assumes "queue_inv s" "\<not> event_known s e" "f \<in> fresh_flags" "same_queue s t"
    "tres t = tres s" "atMem t = atMem s" "allTREs t = allTREs s"
    "\<And>x. event_known s x \<Longrightarrow> event_known t x"
  shows "light s (new_event e p f t)"
proof -
  have ns: "\<not> scheduled s e" using assms(1,2) by (auto simp: queue_inv_def)
  then have nt: "\<not> scheduled t e" by (simp add: same_queue_scheduled [OF assms(4)])
  have sq: "eq_ok t" "eq_future t" "\<And>x. initialized t x" "\<And>x. \<not> squashed t x"
    using assms(1) by (simp_all add: queue_inv_def same_queue_parts [OF assms(4)])
  let ?u = "new_event e p f t"
  have kn: "event_known ?u x = event_known t x" for x
    by (auto simp: event_known_def new_event_def split: tev.splits)
  have "eq_future ?u"
    using sq(2) nt new_event_flags(1) [OF assms(3) nt]
    by (auto simp: eq_future_def new_event_def scheduled_def)
  then have "queue_inv ?u"
    using new_event_ok [OF assms(3) nt sq(1)] new_event_flags [OF assms(3) nt] sq kn assms(1,8)
    by (auto simp: queue_inv_def same_queue_scheduled [OF assms(4)])
  then show ?thesis
    using assms(4-7) new_event_flags(1) [OF assms(3) nt]
    by (auto simp: light_def same_queue_scheduled [OF assms(4)]) (auto simp: new_event_def same_queue_def)
qed

lemma sync_inv_new_event [simp]: "sync_inv (new_event e p f s) = sync_inv s"
  by (simp add: sync_inv_def new_event_def)

lemma exitSimLoop_calm: "exitSimLoop s = Inr s' \<Longrightarrow> calm s s'"
proof -
  define e where "e = SimLoopExit (numExits s)"
  define s1 where "s1 = new_event e Sim_Exit_Pri IsExitEvent (s\<lparr>numExits := numExits s + 1\<rparr>)"
  assume "exitSimLoop s = Inr s'"
  then have c: "schedule e (curTick s1 + simQuantum s1) True s1 = Inr s'"
    by (simp add: exitSimLoop_def Let_def e_def s1_def)
  show "calm s s'" unfolding calm_def
  proof (intro impI)
    assume i: "queue_inv s \<and> sync_inv s"
    then have l: "light s s1" unfolding s1_def
      by (intro fresh_light)
        (auto simp: e_def event_known_def fresh_flags_def same_queue_def split: tev.splits)
    have "event_known s1 e" by (simp add: event_known_def e_def s1_def new_event_def)
    note st = schedule_step [OF light_queue [OF l] this c]
    have "sync_inv s1" using i by (simp add: s1_def sync_inv_def new_event_def)
    then show "light s s' \<and> sync_inv s'"
      using light_trans [OF l light_rest [OF st(1,2)]] st(3) sync_inv_rest [OF st(2)] by simp
  qed
qed

lemma schedStatEvent_calm: "schedStatEvent d r w p s = Inr s' \<Longrightarrow> calm s s'"
proof -
  define e where "e = StatEvent (numStatEvents s) d r p"
  define s1 where "s1 = new_event e Stat_Event_Pri 0 (s\<lparr>numStatEvents := numStatEvents s + 1\<rparr>)"
  assume "schedStatEvent d r w p s = Inr s'"
  then have c: "schedule e (w + simQuantum s1) True s1 = Inr s'"
    by (simp add: schedStatEvent_def Let_def e_def s1_def)
  show "calm s s'" unfolding calm_def
  proof (intro impI)
    assume i: "queue_inv s \<and> sync_inv s"
    then have l: "light s s1" unfolding s1_def
      by (intro fresh_light)
        (auto simp: e_def event_known_def fresh_flags_def same_queue_def split: tev.splits)
    have "event_known s1 e" by (simp add: event_known_def e_def s1_def new_event_def)
    note st = schedule_step [OF light_queue [OF l] this c]
    have "sync_inv s1" using i by (simp add: s1_def sync_inv_def new_event_def)
    then show "light s s' \<and> sync_inv s'"
      using light_trans [OF l light_rest [OF st(1,2)]] st(3) sync_inv_rest [OF st(2)] by simp
  qed
qed

lemma halt_calm:
  assumes "halt i s = Inr s'"
  shows "calm s s'"
proof -
  let ?s1 = "s\<lparr>numIdleTREs := numIdleTREs s + 1\<rparr>"
  have "s' = ?s1 \<or> exitSimLoop (upd_tre i (\<lambda>t. t\<lparr>trace_fh := close_stream (trace_fh t)\<rparr>) ?s1) = Inr s'"
    using assms by (auto simp: halt_def Let_def split: if_splits)
  moreover have "calm s ?s1" by (intro calm_fields calm_refl)
  ultimately show ?thesis
    using calm_upd_tre [of s ?s1 "\<lambda>t. t\<lparr>trace_fh := close_stream (trace_fh t)\<rparr>" i] exitSimLoop_calm
    by (auto simp: lite_def intro: calm_trans)
qed

lemma stats_request_calm: "stats_request d r i s = Inr s' \<Longrightarrow> calm s s'"
  unfolding stats_request_def
  by (auto intro: calm_next_tick calm_fields schedStatEvent_calm)

lemmas stats_calm =
  stats_request_calm [of True False, folded dumpstats_def]
  stats_request_calm [of False True, folded resetstats_def]
  stats_request_calm [of True True, folded dumpresetstats_def]

lemma stat_process_calm:
  assumes "stat_process d r p s = Inr s'"
  shows "calm s s'"
proof -
  have "calm s (s\<lparr>statLog := statLog s @ [(d, r)]\<rparr>)" by (intro calm_fields calm_refl)
  with assms show ?thesis
    by (auto simp: stat_process_def Let_def intro: calm_trans schedStatEvent_calm split: if_splits)
qed

subsection \<open>Completing and sending requests\<close>

lemma inFlight_mset: "inFlight a outs \<longleftrightarrow> a \<in># mset (map fst outs)"
  by (induction outs) (auto simp: inFlight_def)

lemma mset_erase: "mset (map fst (erase_addr a outs)) = mset (map fst outs) - {#a#}"
  by (induction outs) (auto simp: add_mset_remove_trivial_eq)

lemma calm_shift_response:
  assumes "sys_inv s" "shift_response_timeout i s = Inr s'"
  shows "sys_inv s' \<and> curTick s' = curTick s"
proof -
  have q: "queue_inv s" "sync_inv s" using assms(1) by (auto simp: sys_inv_def)
  show ?thesis
  proof (cases "outstandingAddrs (tres s i) \<noteq> [] \<or> \<not> scheduled s (OfTRE i noResponseEvent)")
    case True
    then have "calm s s'"
      using assms(2) calm_refl [of s]
      by (auto simp: shift_response_timeout_def intro: calm_reschedule_edge split: if_splits)
    then show ?thesis by (rule calm_inv [OF _ assms(1)])
  next
    case False
    then have d: "deschedule (OfTRE i noResponseEvent) s = Inr s'"
      using assms(2) by (simp add: shift_response_timeout_def)
    note st = deschedule_step [OF q(1) d]
    note rf = rest_fields [OF st(2)]
    have "tre_inv s' j" for j
    proof -
      have t: "tre_inv s j" using assms(1) by (simp add: sys_inv_def)
      show ?thesis
      proof (cases "j = i")
        case False
        then show ?thesis
          using t lite_eq [OF lite_core [OF rf(14)], of j] rf(2,12)
          by (auto simp: tre_inv_def st(3) flight_inv_def blocked_inv_def retry_addrs_def)
      next
        case True
        then show ?thesis
          using t False lite_eq [OF lite_core [OF rf(14)], of j] rf(2,12)
          by (auto simp: tre_inv_def st(3) flight_inv_def blocked_inv_def retry_addrs_def)
      qed
    qed
    then show ?thesis
      using st(1) q(2) sync_inv_rest [OF st(2)] rf(1) by (simp add: sys_inv_def)
  qed
qed

text \<open>The state in which a response to \<open>pkt\<close> arrives: the memory system has given the packet up.\<close>

definition response_due :: "sys \<Rightarrow> nat \<Rightarrow> packet \<Rightarrow> bool" where
  "response_due s i pkt \<longleftrightarrow>
     queue_inv s \<and> sync_inv s \<and> (\<forall>j. j \<noteq> i \<longrightarrow> tre_inv s j) \<and>
     flight_inv ((tres s i)\<lparr>outstandingAddrs := erase_addr (pk_addr pkt) (outstandingAddrs (tres s i))\<rparr>) (atMem s i) \<and>
     inFlight (pk_addr pkt) (outstandingAddrs (tres s i)) \<and> pk_size pkt = 4 \<and>
     (\<not> blocked (tres s i) \<longrightarrow> bp_deps (blkPkt (tres s i)) = {}) \<and>
     (erase_addr (pk_addr pkt) (outstandingAddrs (tres s i)) \<noteq> [] \<longrightarrow> scheduled s (OfTRE i noResponseEvent)) \<and>
     (i \<in> set (allTREs s) \<longrightarrow> scheduled s (OfTRE i noRequestEvent))"

lemma count_completion_lite: "lite (count_completion pkt t) = lite t"
  by (simp add: lite_def count_completion_def Let_def)

lemma flight_inv_lite: "lite t' = lite t \<Longrightarrow> flight_inv t' h = flight_inv t h"
  by (simp add: lite_def flight_inv_def retry_addrs_def)

lemma completeRequest_inv:
  assumes d: "response_due s i pkt" and c: "completeRequest i pkt err f s = Inr s'"
  shows "sys_inv s' \<and> curTick s' = curTick s"
proof -
  define t0 where "t0 = (tres s i)\<lparr>outstandingAddrs := erase_addr (pk_addr pkt) (outstandingAddrs (tres s i))\<rparr>"
  have pre: "inFlight (pk_addr pkt) (outstandingAddrs (tres s i))" "pk_size pkt = 4"
    using d by (auto simp: response_due_def)
  obtain t1 where t1: "(if err then if \<not> f \<or> \<not> suppressFuncErrors t0 then Inl (Panic ''access failed'') else Inr t0
      else Inr (count_completion pkt t0)) = Inr t1"
    and r: "rbind (if \<not> scheduled (set_tre i t1 s) (OfTRE i tickEvent) \<and> blocked t1
       then next_tick i (set_tre i t1 s) else Inr (set_tre i t1 s)) (shift_response_timeout i) = Inr s'"
    using c unfolding completeRequest_def addrInFlight_def Let_def t0_def by (simp add: pre) blast
  have lt: "lite t1 = lite t0" using t1 by (auto simp: count_completion_lite split: if_splits)
  obtain s2 where s2: "(if \<not> scheduled (set_tre i t1 s) (OfTRE i tickEvent) \<and> blocked t1
              then next_tick i (set_tre i t1 s) else Inr (set_tre i t1 s)) = Inr s2"
    and s': "shift_response_timeout i s2 = Inr s'"
    using r unfolding rbind_eq_Inr by blast
  have q: "queue_inv s" "sync_inv s" using d by (auto simp: response_due_def)
  have s1: "same_queue s (set_tre i t1 s)" by (simp add: same_queue_def set_tre_def)
  have q1: "queue_inv (set_tre i t1 s)"
    by (rule same_queue_inv [OF s1 _ _ q(1)]) (simp_all add: set_tre_def)
  have st: "queue_inv s2 \<and> rest s2 = rest (set_tre i t1 s) \<and>
      (\<forall>x. scheduled s2 x \<longleftrightarrow> (x = OfTRE i tickEvent \<and> blocked t1 \<and> \<not> scheduled s (OfTRE i tickEvent)) \<or> scheduled s x)"
    using s2 q1 next_tick_step [OF q1, of i s2] same_queue_scheduled [OF s1] by (auto split: if_splits)
  then have rf: "rest s2 = rest (set_tre i t1 s)" by simp
  note f = rest_fields [OF rf]
  have li: "lite (tres s2 j) = lite (if j = i then t1 else tres s j)" for j
    using lite_core [OF f(14), of j] by (simp add: set_tre_def)
  have "tre_inv s2 j" for j
  proof (cases "j = i")
    case False
    then have "tre_inv s j" using d by (simp add: response_due_def)
    then show ?thesis
      by (rule tre_inv_mono [rotated 4]) (use False li f(2,12) st in \<open>auto simp: set_tre_def\<close>)
  next
    case True
    have l: "lite (tres s2 i) = lite t0" using li lt by simp
    have "flight_inv (tres s2 i) (atMem s2 i)"
      using d flight_inv_lite [OF l] f(12) by (simp add: response_due_def t0_def set_tre_def)
    moreover have "blocked_inv (tres s2 i) (scheduled s2 (OfTRE i tickEvent))"
      using d st lite_eq [OF l] lite_eq [OF lt] by (auto simp: response_due_def blocked_inv_def t0_def)
    ultimately show ?thesis
      using True d st lite_eq [OF l] f(2) by (auto simp: tre_inv_def response_due_def t0_def set_tre_def)
  qed
  then have "sys_inv s2" using st q(2) sync_inv_rest [OF rf] by (simp add: sys_inv_def)
  moreover have "curTick s2 = curTick s" using f(1) by (simp add: set_tre_def)
  ultimately show ?thesis using calm_shift_response [OF _ s'] by simp
qed

lemma mem_event_light:
  "queue_inv s \<Longrightarrow> mem_event_at n w s = Inr s' \<Longrightarrow> light s s' \<and> rest s' = rest s"
  using schedule_step [of s "MemEvent n" w False s']
  by (auto simp: mem_event_at_def light_refl intro: light_rest split: if_splits)

lemma mem_events_light:
  "queue_inv s \<Longrightarrow> mem_events_at ms s = Inr s' \<Longrightarrow> light s s' \<and> rest s' = rest s"
proof (induction ms arbitrary: s)
  case Nil
  then show ?case by (simp add: light_refl)
next
  case (Cons m ms)
  obtain n w where m: "m = (n, w)" by (cases m)
  from Cons.prems obtain s1 where e: "mem_event_at n w s = Inr s1" and r: "mem_events_at ms s1 = Inr s'"
    by (auto simp: m)
  have l: "light s s1 \<and> rest s1 = rest s" by (rule mem_event_light [OF Cons.prems(1) e])
  then have "light s1 s' \<and> rest s' = rest s1" using Cons.IH [OF _ r] light_queue by blast
  with l show ?case using light_trans by auto
qed

text \<open>The invariant of everything but the response timeout of TRE \<open>i\<close>.\<close>

definition issuing :: "nat \<Rightarrow> sys \<Rightarrow> bool" where
  "issuing i s \<longleftrightarrow> queue_inv s \<and> sync_inv s \<and> (\<forall>j. j \<noteq> i \<longrightarrow> tre_inv s j) \<and>
     flight_inv (tres s i) (atMem s i) \<and> blocked_inv (tres s i) (scheduled s (OfTRE i tickEvent)) \<and>
     (i \<in> set (allTREs s) \<longrightarrow> scheduled s (OfTRE i noRequestEvent))"

lemma issuing_inv:
  "issuing i s \<Longrightarrow> (outstandingAddrs (tres s i) \<noteq> [] \<longrightarrow> scheduled s (OfTRE i noResponseEvent)) \<Longrightarrow> sys_inv s"
  unfolding issuing_def sys_inv_def tre_inv_def by metis

lemma sys_inv_issuing: "sys_inv s \<Longrightarrow> issuing i s"
  by (simp add: issuing_def sys_inv_def tre_inv_def)

lemma issuing_light:
  assumes "issuing i s" "calm s s'"
  shows "issuing i s'" "lite (tres s' i) = lite (tres s i)" "curTick s' = curTick s"
    "\<And>x. scheduled s x \<Longrightarrow> scheduled s' x"
proof -
  have l: "light s s'" "sync_inv s'" using assms by (auto simp: calm_def issuing_def)
  then show li: "lite (tres s' i) = lite (tres s i)" and "curTick s' = curTick s"
    and sc: "\<And>x. scheduled s x \<Longrightarrow> scheduled s' x" by (auto simp: light_def)
  have "tre_inv s' j" if "j \<noteq> i" for j
    using tre_inv_mono [of s' j s] l(1) that assms(1) by (auto simp: light_def issuing_def)
  then show "issuing i s'"
    using assms(1) l sc lite_eq [OF li] flight_inv_lite [OF li]
    by (auto simp: issuing_def light_def blocked_inv_def)
qed

lemma end_of_issue:
  assumes i: "issuing i s2"
    and k: "(if keep then rbind (next_tick i s2) (\<lambda>s3.
               reschedule_edge i (progressCheck (tres s3 i)) (OfTRE i noRequestEvent) True s3)
             else Inr s2) = Inr s4"
    and e: "(if \<not> scheduled s4 (OfTRE i noResponseEvent) \<and> outstandingAddrs (tres s4 i) \<noteq> []
             then schedule_edge i (progressCheck (tres s4 i)) (OfTRE i noResponseEvent) s4
             else Inr s4) = Inr s'"
  shows "sys_inv s' \<and> curTick s' = curTick s2"
proof -
  have c4: "calm s2 s4"
  proof (cases keep)
    case True
    then obtain s3 where "next_tick i s2 = Inr s3"
      "reschedule_edge i (progressCheck (tres s3 i)) (OfTRE i noRequestEvent) True s3 = Inr s4"
      using k by auto
    then show ?thesis using calm_reschedule_edge calm_next_tick calm_refl by blast
  next
    case False
    then show ?thesis using k calm_refl by simp
  qed
  note i4 = issuing_light [OF i c4]
  have c': "calm s4 s'" using e by (auto intro: calm_schedule_edge calm_refl split: if_splits)
  note i' = issuing_light [OF i4(1) c']
  have "queue_inv s4" using i4(1) by (simp add: issuing_def)
  then have "outstandingAddrs (tres s' i) \<noteq> [] \<longrightarrow> scheduled s' (OfTRE i noResponseEvent)"
    using e i'(4) lite_eq(1) [OF i'(2)] schedule_edge_step(3) [of s4 "OfTRE i noResponseEvent"]
    by (auto split: if_splits)
  then show ?thesis using issuing_inv [OF i'(1)] i'(3) i4(3) by simp
qed

lemma send_timing_step:
  assumes "queue_inv s" "send_timing E i pkt s = Inr (ok, s')"
  shows "light ((if ok then s\<lparr>atMem := (atMem s)(i := atMem s i @ [pkt])\<rparr> else s)\<lparr>calls := calls s + 1\<rparr>) s'"
    "rest s' = rest ((if ok then s\<lparr>atMem := (atMem s)(i := atMem s i @ [pkt])\<rparr> else s)\<lparr>calls := calls s + 1\<rparr>)"
    "\<And>x. scheduled s x \<Longrightarrow> scheduled s' x" "queue_inv s'" "sync_inv s' = sync_inv s"
proof -
  let ?s1 = "(if ok then s\<lparr>atMem := (atMem s)(i := atMem s i @ [pkt])\<rparr> else s)\<lparr>calls := calls s + 1\<rparr>"
  have m: "mem_events_at (onSend E (calls s)) ?s1 = Inr s'"
    using assms(2) by (auto simp: send_timing_def Let_def split: if_splits)
  have sq: "same_queue s ?s1" by (simp add: same_queue_def)
  have q: "queue_inv ?s1" by (rule same_queue_inv [OF sq _ _ assms(1)]) simp_all
  note l = mem_events_light [OF q m]
  show "light ?s1 s'" "rest s' = rest ?s1" using l by auto
  show "scheduled s' x" if "scheduled s x" for x
    using that l same_queue_scheduled [OF sq] by (auto simp: light_def)
  show "queue_inv s'" using l by (simp add: light_def)
  show "sync_inv s' = sync_inv s" using l sync_inv_rest [of s' ?s1] by (simp add: sync_inv_def)
qed

text \<open>The state in which the packet is handed to the port: its address is already outstanding.\<close>

definition issue :: "nat \<Rightarrow> bool \<Rightarrow> sys \<Rightarrow> sys" where
  "issue i blk s =
     set_tre i ((tres s i)\<lparr>outstandingAddrs := outstandingAddrs (tres s i) @ [(paddr (tres s i), blk)]\<rparr>) s"

lemma issue_fields [simp]:
  "tres (issue i blk s) j = (if j = i then
     (tres s i)\<lparr>outstandingAddrs := outstandingAddrs (tres s i) @ [(paddr (tres s i), blk)]\<rparr> else tres s j)"
  "atMem (issue i blk s) = atMem s" "allTREs (issue i blk s) = allTREs s" "curTick (issue i blk s) = curTick s"
  "sync_inv (issue i blk s) = sync_inv s" "same_queue s (issue i blk s)"
  by (simp_all add: issue_def set_tre_def sync_inv_def same_queue_def)

lemma issue_queue [simp]: "queue_inv s \<Longrightarrow> queue_inv (issue i blk s)"
  by (rule same_queue_inv [of s]) (simp_all add: issue_def set_tre_def same_queue_def)

lemma sendPkt_atomic:
  assumes inv: "sys_inv s" and nb: "\<not> blocked (tres s i)" and at: "atomic (tres s i)"
    and pk: "pk_addr pkt = paddr (tres s i)" "pk_size pkt = 4"
    and sp: "sendPkt E i pkt (issue i blk s) = Inr (keep, s2)"
  shows "issuing i s2 \<and> curTick s2 = curTick s"
proof -
  have q: "queue_inv s" "sync_inv s" and ti: "\<And>j. tre_inv s j" using inv by (auto simp: sys_inv_def)
  have fl: "flight_inv (tres s i) (atMem s i)" "blocked_inv (tres s i) (scheduled s (OfTRE i tickEvent))"
    using ti [of i] by (auto simp: tre_inv_def)
  have o: "outstandingAddrs (tres s i) = []" using fl(1) at by (simp add: flight_inv_def)
  define s1 where "s1 = (issue i blk s)\<lparr>calls := calls (issue i blk s) + 1\<rparr>"
  have sq: "same_queue s s1" by (simp add: s1_def issue_def same_queue_def set_tre_def)
  have q1: "queue_inv s1" by (rule same_queue_inv [OF sq _ _ q(1)]) (simp_all add: s1_def issue_def set_tre_def)
  have tj: "tre_inv s1 j" if "j \<noteq> i" for j
    by (rule tre_inv_mono [of s1 j s]) (use that ti same_queue_scheduled [OF sq] in \<open>auto simp: s1_def\<close>)
  have "response_due s1 i pkt"
    using q1 q(2) tj fl nb o pk ti [of i] same_queue_scheduled [OF sq]
    by (simp add: response_due_def s1_def flight_inv_def retry_addrs_def inFlight_def blocked_inv_def tre_inv_def)
  moreover have "completeRequest i pkt (atomicError E (calls (issue i blk s))) False s1 = Inr s2"
    using sp at by (auto simp: sendPkt_def s1_def)
  ultimately have "sys_inv s2 \<and> curTick s2 = curTick s1" by (rule completeRequest_inv)
  then show ?thesis using sys_inv_issuing by (simp add: s1_def)
qed

lemma sendPkt_timing:
  assumes inv: "sys_inv s" and nb: "\<not> blocked (tres s i)" and tm: "\<not> atomic (tres s i)"
    and nr: "retryPkt (tres s i) = None" and pk: "pk_addr pkt = paddr (tres s i)" "pk_size pkt = 4"
    and sp: "sendPkt E i pkt (issue i blk s) = Inr (keep, s2)"
  shows "issuing i s2 \<and> curTick s2 = curTick s"
proof -
  let ?s1 = "issue i blk s"
  have q: "queue_inv s" "sync_inv s" and ti: "\<And>j. tre_inv s j" using inv by (auto simp: sys_inv_def)
  have fl: "flight_inv (tres s i) (atMem s i)" "blocked_inv (tres s i) (scheduled s (OfTRE i tickEvent))"
    using ti [of i] by (auto simp: tre_inv_def)
  obtain ok s3 where st: "send_timing E i pkt ?s1 = Inr (ok, s3)"
    using sp tm by (auto simp: sendPkt_def)
  have s2: "s2 = (if ok then s3 else upd_tre i (\<lambda>t. t\<lparr>retryPkt := Some pkt\<rparr>) s3)"
    using sp tm st by (auto simp: sendPkt_def split: if_splits)
  note f = send_timing_step [OF issue_queue [OF q(1)] st]
  note r = rest_fields [OF f(2)]
  have lj: "lite (tres s3 j) = lite (tres ?s1 j)" for j using lite_core [OF r(14), of j] by simp
  have mj: "atMem s3 j = (if ok \<and> j = i then atMem s i @ [pkt] else atMem s j)" for j
    using r(12) by simp
  have sq2: "same_queue s3 s2" by (simp add: s2 same_queue_def upd_tre_def set_tre_def)
  have q2: "queue_inv s2"
    by (rule same_queue_inv [OF sq2 _ _ f(4)]) (simp_all add: s2 upd_tre_def set_tre_def)
  have sc: "scheduled s2 x" if "scheduled s x" for x
    using that f(3) same_queue_scheduled [OF sq2] same_queue_scheduled [of s ?s1] by simp
  have tj: "tre_inv s2 j" if "j \<noteq> i" for j
  proof (rule tre_inv_mono [of s2 j s])
    show "lite (tres s2 j) = lite (tres s j)" "atMem s2 j = atMem s j" "allTREs s2 = allTREs s"
      using that lj [of j] mj [of j] r(2) by (simp_all add: s2 set_tre_def upd_tre_def)
  qed (use sc ti in auto)
  have "flight_inv (tres s2 i) (atMem s2 i)"
    using fl(1) nr lite_eq [OF lj [of i]] mj [of i] tm pk
    by (auto simp: s2 set_tre_def upd_tre_def flight_inv_def retry_addrs_def)
  moreover have "blocked_inv (tres s2 i) (scheduled s2 (OfTRE i tickEvent))"
    using fl(2) nb lite_eq [OF lj [of i]] by (auto simp: s2 set_tre_def upd_tre_def blocked_inv_def)
  moreover have "i \<in> set (allTREs s2) \<longrightarrow> scheduled s2 (OfTRE i noRequestEvent)"
    using ti [of i] sc r(2) by (simp add: s2 set_tre_def upd_tre_def tre_inv_def split: if_splits)
  moreover have "sync_inv s2" using q(2) f(5) by (simp add: s2)
  moreover have "curTick s2 = curTick s" using r(1) by (simp add: s2 set_tre_def upd_tre_def)
  ultimately show ?thesis using q2 tj by (simp add: issuing_def)
qed

lemma tick_issue_inv:
  assumes inv: "sys_inv s" and nr: "retryPkt (tres s i) = None" and c: "tick_issue E i ac s = Inr s'"
  shows "sys_inv s' \<and> curTick s' = curTick s"
proof -
  obtain cmd unc blk pc where ac: "ac = (cmd, unc, blk, pc)" by (cases ac) auto
  show ?thesis
  proof (cases "blocked (tres s i) \<or> cmd = STALL")
    case True
    then have "calm s s'"
      using c calm_refl [of s] by (auto simp: tick_issue_def ac Let_def intro: calm_schedule_edge split: if_splits)
    then show ?thesis by (rule calm_inv [OF _ inv])
  next
    case False
    define pkt where "pkt = make_pkt (tres s i) ac"
    obtain keep s2 s4 where sp: "sendPkt E i pkt (issue i blk s) = Inr (keep, s2)"
      and k: "(if keep then rbind (next_tick i s2) (\<lambda>s3.
               reschedule_edge i (progressCheck (tres s3 i)) (OfTRE i noRequestEvent) True s3)
             else Inr s2) = Inr s4"
      and e: "(if \<not> scheduled s4 (OfTRE i noResponseEvent) \<and> outstandingAddrs (tres s4 i) \<noteq> []
             then schedule_edge i (progressCheck (tres s4 i)) (OfTRE i noResponseEvent) s4
             else Inr s4) = Inr s'"
      using c False unfolding tick_issue_def ac Let_def prod.case issue_def pkt_def
      by (simp del: if_split_asm) blast
    have pk: "pk_addr pkt = paddr (tres s i)" "pk_size pkt = 4" by (simp_all add: pkt_def make_pkt_def ac)
    have "issuing i s2 \<and> curTick s2 = curTick s"
      using sendPkt_atomic [OF inv _ _ pk sp] sendPkt_timing [OF inv _ _ nr pk sp] False by blast
    then show ?thesis using end_of_issue [OF _ k e] by simp
  qed
qed

subsection \<open>Reading an entry keeps the invariant\<close>

definition parse_ok :: "tre \<Rightarrow> tre \<Rightarrow> bool" where
  "parse_ok t0 t \<longleftrightarrow>
     outstandingAddrs t = outstandingAddrs t0 \<and> retryPkt t = retryPkt t0 \<and> atomic t = atomic t0 \<and>
     maxNumOutstandingAddrs t = maxNumOutstandingAddrs t0 \<and>
     (\<not> blocked t \<longrightarrow> bp_deps (blkPkt t) = {}) \<and>
     (blocked t \<and> maxNumOutstandingAddrs t \<noteq> 0 \<longrightarrow> outstandingAddrs t \<noteq> [])"

lemma parse_ok_lite: "parse_ok t0 t \<Longrightarrow> lite t' = lite t \<Longrightarrow> parse_ok t0 t'"
  using lite_eq [of t' t] by (auto simp: parse_ok_def)

lemma take_token_lite: "take_token t = (w, t') \<Longrightarrow> lite t' = lite t"
  by (auto simp: take_token_def lite_def split: prod.splits)

lemma take_long_lite: "take_long b t = Inr (v, t') \<Longrightarrow> lite t' = lite t"
  by (auto simp: take_long_def dest: take_token_lite split: prod.splits)

lemma take_int_lite: "take_int t = Inr (v, t') \<Longrightarrow> lite t' = lite t"
  by (auto simp: take_int_def dest: take_token_lite split: prod.splits)

lemma inFlight_nonempty: "inFlight a outs \<Longrightarrow> outs \<noteq> []"
  by (auto simp: inFlight_def)

lemma blkingAcc_nonempty: "blkingAccAddrInFlight t \<noteq> INVALID_PADDR \<Longrightarrow> outstandingAddrs t \<noteq> []"
  by (auto simp: blkingAccAddrInFlight_def)

lemma read_deps_spec:
  "read_deps blk deps t = Inr (b, ds, t') \<Longrightarrow>
     lite t' = lite t \<and> (b \<longrightarrow> blk \<or> outstandingAddrs t \<noteq> []) \<and> (\<not> b \<longrightarrow> \<not> blk \<and> ds = deps)"
proof (induction blk deps t arbitrary: b ds t' rule: read_deps.induct)
  case (1 blk deps t)
  obtain w t1 where tk: "take_token t = (w, t1)" by (cases "take_token t")
  note l = take_token_lite [OF tk]
  show ?case
  proof (cases "w = '')''")
    case True
    then show ?thesis using 1(3) tk l by (simp add: read_deps.simps [of blk])
  next
    case False
    then obtain v where v: "stol 16 w = Inr v" using 1(3) tk by (auto simp: read_deps.simps [of blk])
    show ?thesis
    proof (cases "inFlight (word_of_int v) (outstandingAddrs t1)")
      case True
      then have "read_deps True (insert (word_of_int v) deps) t1 = Inr (b, ds, t')"
        using 1(3) tk False v by (simp add: read_deps.simps [of blk] Let_def)
      from 1(1) [OF tk [symmetric] refl False v refl True this] show ?thesis
        using l lite_eq(1) [OF l] inFlight_nonempty [OF True] by auto
    next
      case nf: False
      then have "read_deps blk deps t1 = Inr (b, ds, t')"
        using 1(3) tk False v by (simp add: read_deps.simps [of blk] Let_def)
      from 1(2) [OF tk [symmetric] refl False v refl nf this] show ?thesis
        using l lite_eq(1) [OF l] by auto
    qed
  qed
qed

lemma take_deps_ok:
  assumes "parse_ok t0 t" "take_deps t = Inr t'"
  shows "parse_ok t0 t'"
proof -
  obtain b ds t1 where r: "read_deps (blocked t) (bp_deps (blkPkt t)) t = Inr (b, ds, t1)"
    and t': "t' = set_deps b ds t1" using assms(2) by (auto simp: take_deps_def)
  note sp = read_deps_spec [OF r]
  then show ?thesis
    using assms(1) lite_eq [of t1 t] by (auto simp: parse_ok_def t' set_deps_def)
qed

lemma block_on_blocking_ok: "parse_ok t0 t \<Longrightarrow> block_on_blocking t = Inr t' \<Longrightarrow> parse_ok t0 t'"
  using blkingAcc_nonempty [of t]
  by (auto simp: block_on_blocking_def parse_ok_def set_deps_def Let_def split: if_splits)

lemma access_pc_lite: "access_pc w t = Inr (pc, w', t') \<Longrightarrow> lite t' = lite t"
  by (auto simp: access_pc_def dest: take_token_lite split: if_splits prod.splits)

lemma access_hazards_ok:
  assumes "parse_ok t0 t" "access_hazards a t = Inr t'"
  shows "parse_ok t0 t'"
proof -
  let ?u = "if unat (maxNumOutstandingAddrs t) \<le> length (outstandingAddrs t)
        then t\<lparr>paddr := a, blocked := True\<rparr> else t\<lparr>paddr := a\<rparr>"
  have "parse_ok t0 ?u"
    using assms(1) by (auto simp: parse_ok_def unat_eq_zero [symmetric])
  moreover have "block_on_blocking ?u = Inr t'"
    using assms(2) by (simp add: access_hazards_def Let_def split: if_splits)
  ultimately show ?thesis by (rule block_on_blocking_ok)
qed

lemma access_deps_ok:
  assumes "parse_ok t0 t" "access_deps cmd unc blk t = Inr t'"
  shows "parse_ok t0 t'"
proof -
  obtain w t1 where k: "take_token t = (w, t1)" by (cases "take_token t")
  obtain t2 where d: "take_deps t1 = Inr t2" and l: "lite t' = lite t2"
    using assms(2) k by (auto simp: access_deps_def Let_def lite_def)
  have "parse_ok t0 t1" by (rule parse_ok_lite [OF assms(1) take_token_lite [OF k]])
  from take_deps_ok [OF this d] show ?thesis by (rule parse_ok_lite [OF _ l])
qed

lemma tick_access_ok:
  assumes "parse_ok t0 t" "tick_access w t = Inr (t', ac)"
  shows "parse_ok t0 t'"
proof -
  define t1 where "t1 = (if w \<in> set [''LDB'', ''LDUB'', ''STB'', ''STUB'']
    then t\<lparr>numBlkingAccesses := numBlkingAccesses t + 1\<rparr> else t)"
  obtain w1 t2 where k1: "take_token t1 = (w1, t2)" by (cases "take_token t1")
  obtain pc w2 t3 v t4 cmd unc blk where
    pc: "access_pc w1 t2 = Inr (pc, w2, t3)" and h: "access_hazards v t3 = Inr t4"
    and d: "access_deps cmd unc blk t4 = Inr t'"
    using assms(2) k1 unfolding tick_access_def Let_def t1_def by auto
  have "parse_ok t0 t1" by (rule parse_ok_lite [OF assms(1)]) (simp add: t1_def lite_def)
  then have "parse_ok t0 t2" by (rule parse_ok_lite [OF _ take_token_lite [OF k1]])
  then have "parse_ok t0 t3" by (rule parse_ok_lite [OF _ access_pc_lite [OF pc]])
  then show ?thesis by (rule access_deps_ok [OF access_hazards_ok [OF _ h] d])
qed

lemma stall_deps_ok:
  assumes "parse_ok t0 t" "stall_deps blk t = Inr t'"
  shows "parse_ok t0 t'"
proof -
  obtain t1 t2 t3 where d: "take_deps t = Inr t1" and b: "block_on_blocking t1 = Inr t2"
    and c: "(if blocked t2 then require (bp_deps (blkPkt t2) \<noteq> {}) (AssertFail ''!blockedPkt.deps.empty()'')
         (Inr (t2\<lparr>blkPkt := (blkPkt t2)\<lparr>bp_cmd := STALL, bp_data := tdata t2, bp_blking := blk\<rparr>\<rparr>)) else Inr t2) = Inr t3"
    and t': "lite t' = lite t3"
    using assms(2) unfolding stall_deps_def rbind_eq_Inr by (auto simp: lite_def)
  have "lite t3 = lite t2" using c by (auto simp: lite_def split: if_splits)
  then have l: "lite t' = lite t2" using t' by simp
  from block_on_blocking_ok [OF take_deps_ok [OF assms(1) d] b] show ?thesis
    by (rule parse_ok_lite [OF _ l])
qed

lemma tick_stall_ok:
  assumes "parse_ok t0 t" "tick_stall w t = Inr (t', ac)"
  shows "parse_ok t0 t'"
proof -
  define blk where "blk = (w = ''STALLB'')"
  define t1 where "t1 = (if blk then t\<lparr>numBlkingAccesses := numBlkingAccesses t + 1\<rparr> else t)"
  obtain v t2 where k2: "take_long 10 t1 = Inr (v, t2)"
    using assms(2) unfolding tick_stall_def Let_def t1_def blk_def by auto
  obtain w1 t3 where k3: "take_token (t2\<lparr>tdata := word_of_int v\<rparr>) = (w1, t3)"
    by (cases "take_token (t2\<lparr>tdata := word_of_int v\<rparr>)")
  have d: "stall_deps blk t3 = Inr t'"
    using assms(2) k2 k3 unfolding tick_stall_def Let_def blk_def [symmetric] t1_def [symmetric] by auto
  have "parse_ok t0 t1" by (rule parse_ok_lite [OF assms(1)]) (simp add: t1_def lite_def)
  then have "parse_ok t0 (t2\<lparr>tdata := word_of_int v\<rparr>)"
    by (rule parse_ok_lite) (use take_long_lite [OF k2] in \<open>simp add: lite_def\<close>)
  then have "parse_ok t0 t3" by (rule parse_ok_lite [OF _ take_token_lite [OF k3]])
  then show ?thesis by (rule stall_deps_ok [OF _ d])
qed

text \<open>The state in which the tick event of TRE \<open>i\<close> was taken off the queue.\<close>

definition ticking :: "nat \<Rightarrow> sys \<Rightarrow> bool" where
  "ticking i s \<longleftrightarrow> queue_inv s \<and> sync_inv s \<and> (\<forall>j. j \<noteq> i \<longrightarrow> tre_inv s j) \<and>
     flight_inv (tres s i) (atMem s i) \<and>
     (\<not> blocked (tres s i) \<longrightarrow> bp_deps (blkPkt (tres s i)) = {}) \<and>
     (outstandingAddrs (tres s i) \<noteq> [] \<longrightarrow> scheduled s (OfTRE i noResponseEvent)) \<and>
     (i \<in> set (allTREs s) \<longrightarrow> scheduled s (OfTRE i noRequestEvent))"

lemma ticking_inv:
  assumes "ticking i s" "\<not> blocked (tres s i) \<or> outstandingAddrs (tres s i) \<noteq> []"
  shows "sys_inv s"
proof -
  have "tre_inv s j" for j
    using assms by (cases "j = i") (auto simp: ticking_def tre_inv_def blocked_inv_def)
  then show ?thesis using assms(1) by (simp add: sys_inv_def ticking_def)
qed

lemma parse_ok_inv:
  assumes k: "ticking i s" and p: "parse_ok (tres s i) t"
  shows "sys_inv (set_tre i t s)"
proof -
  have q: "queue_inv s" "sync_inv s" using k by (auto simp: ticking_def)
  have sq: "same_queue s (set_tre i t s)" by (simp add: same_queue_def set_tre_def)
  have "tre_inv (set_tre i t s) j" for j
  proof (cases "j = i")
    case False
    then show ?thesis
      by (intro tre_inv_mono [of "set_tre i t s" j s])
        (use k same_queue_scheduled [OF sq] in \<open>auto simp: set_tre_def ticking_def\<close>)
  next
    case True
    then show ?thesis
      using k p same_queue_scheduled [OF sq]
      by (auto simp: ticking_def tre_inv_def flight_inv_def blocked_inv_def retry_addrs_def parse_ok_def set_tre_def)
  qed
  moreover have "queue_inv (set_tre i t s)"
    by (rule same_queue_inv [OF sq _ _ q(1)]) (simp_all add: set_tre_def)
  ultimately show ?thesis using q(2) by (simp add: sys_inv_def)
qed

lemma after_cycles_calm:
  assumes "\<And>s s'. h i s = Inr s' \<Longrightarrow> calm s s'" "after_cycles i c e h s1 = Inr s2" "calm s s1"
  shows "calm s s2"
  using assms(1) [of s1 s2] assms(2,3) calm_trans [of s s1 s2] calm_schedule_edge [of i _ i e s1 s2 s]
  by (auto simp: after_cycles_def Let_def split: if_splits)

lemma sleep_calm: "sleep i s = Inr s' \<Longrightarrow> calm s s'"
  by (simp add: sleep_def calm_refl)

lemma tick_addr_sync_calm:
  assumes "tick_addr_sync E w i s = Inr s'"
  shows "calm s s'"
proof -
  obtain a t1 c t2 where l: "take_long 16 (tres s i) = Inr (a, t1)" "take_long 10 t1 = Inr (c, t2)"
    using assms by (auto simp: tick_addr_sync_def)
  define s1 where "s1 = set_tre i (t2\<lparr>paddr := word_of_int a\<rparr>) s"
  have "calm s s1" unfolding s1_def
    by (rule calm_set_tre [OF calm_refl]) (use l [THEN take_long_lite] in \<open>simp add: lite_def\<close>)
  then show ?thesis
    using assms l after_cycles_calm [OF initMutex_calm] after_cycles_calm [OF lockMutex_calm]
      after_cycles_calm [OF unlockMutex_calm] after_cycles_calm [OF waitAtBarrier_calm]
    by (auto simp: tick_addr_sync_def Let_def s1_def split: if_splits)
qed

lemma tick_barinit_calm:
  assumes "tick_barinit i s = Inr s'"
  shows "calm s s'"
proof -
  obtain a t1 d t2 c t3 where l: "take_long 16 (tres s i) = Inr (a, t1)" "take_long 10 t1 = Inr (d, t2)"
    "take_long 10 t2 = Inr (c, t3)"
    and r: "after_cycles i c initBarrierEvent initBarrier
         (set_tre i (t3\<lparr>paddr := word_of_int a, tdata := word_of_int d\<rparr>) s) = Inr s'"
    using assms by (auto simp: tick_barinit_def)
  show ?thesis
    by (rule after_cycles_calm [OF initBarrier_calm r], assumption, rule calm_set_tre [OF calm_refl])
      (use l [THEN take_long_lite] in \<open>simp add: lite_def\<close>)
qed

lemma tick_data_sync_calm:
  assumes "tick_data_sync w i s = Inr s'"
  shows "calm s s'"
proof -
  obtain d t1 c t2 where l: "take_int (tres s i) = Inr (d, t1)" "take_long 10 t1 = Inr (c, t2)"
    using assms by (auto simp: tick_data_sync_def)
  define s1 where "s1 = set_tre i (t2\<lparr>tdata := word_of_int d\<rparr>) s"
  have "calm s s1" unfolding s1_def
    by (rule calm_set_tre [OF calm_refl])
      (use take_int_lite [OF l(1)] take_long_lite [OF l(2)] in \<open>simp add: lite_def\<close>)
  then show ?thesis
    using assms l after_cycles_calm [OF wake_calm] after_cycles_calm [OF pop_calm] after_cycles_calm [OF push_calm]
    by (auto simp: tick_data_sync_def Let_def s1_def split: if_splits)
qed

lemma tick_plain_calm:
  assumes "tick_plain w i s = Inr s'"
  shows "calm s s'"
proof -
  obtain c t1 where l: "take_long 10 (tres s i) = Inr (c, t1)"
    using assms by (auto simp: tick_plain_def)
  have "calm s (set_tre i t1 s)"
    by (rule calm_set_tre [OF calm_refl take_long_lite [OF l]])
  then show ?thesis
    using assms l after_cycles_calm [OF sleep_calm] after_cycles_calm [OF stats_calm(1)]
      after_cycles_calm [OF stats_calm(2)] after_cycles_calm [OF stats_calm(3)]
    by (auto simp: tick_plain_def Let_def split: if_splits)
qed

subsection \<open>Every event keeps the invariant\<close>

lemma tick_entry_inv:
  assumes inv: "sys_inv s" and nr: "retryPkt (tres s i) = None" and nb: "\<not> blocked (tres s i)"
    and c: "tick_entry E w i s = Inr s'"
  shows "sys_inv s' \<and> curTick s' = curTick s"
proof -
  have k: "ticking i s" using inv by (auto simp: sys_inv_def ticking_def tre_inv_def blocked_inv_def)
  have p0: "parse_ok (tres s i) (tres s i)" using k nb by (simp add: parse_ok_def ticking_def)
  have issue: "sys_inv s' \<and> curTick s' = curTick s"
    if p: "parse_ok (tres s i) t" and c: "tick_issue E i ac (set_tre i t s) = Inr s'" for t ac
    using tick_issue_inv [OF parse_ok_inv [OF k p] _ c] p nr by (simp add: parse_ok_def set_tre_def)
  consider (access) "w \<in> set access_tokens" "w \<noteq> ''EOF''"
    | (stall) "w = ''STALL'' \<or> w = ''STALLB''" "w \<notin> set access_tokens"
    | (other) "w = ''EOF'' \<or> (w \<notin> set access_tokens \<and> w \<noteq> ''STALL'' \<and> w \<noteq> ''STALLB'')"
    by blast
  then show ?thesis
  proof cases
    case access
    then obtain t ac where "tick_access w (tres s i) = Inr (t, ac)" "tick_issue E i ac (set_tre i t s) = Inr s'"
      using c by (auto simp: tick_entry_def)
    then show ?thesis using issue tick_access_ok [OF p0] by blast
  next
    case stall
    then have "w \<noteq> ''EOF''" by auto
    then obtain t ac where "tick_stall w (tres s i) = Inr (t, ac)" "tick_issue E i ac (set_tre i t s) = Inr s'"
      using c stall unfolding tick_entry_def by auto
    then show ?thesis using issue tick_stall_ok [OF p0] by blast
  next
    case other
    then have "calm s s'"
      using c halt_calm tick_addr_sync_calm tick_barinit_calm tick_data_sync_calm tick_plain_calm
      unfolding tick_entry_def by (auto split: if_splits)
    then show ?thesis by (rule calm_inv [OF _ inv])
  qed
qed

lemma tick_inv:
  assumes k: "ticking i s" and c: "tick E i s = Inr s'"
  shows "sys_inv s' \<and> curTick s' = curTick s"
proof -
  let ?t = "tres s i"
  have nr: "retryPkt ?t = None" using c by (simp add: tick_def Let_def)
  show ?thesis
  proof (cases "blocked ?t")
    case True
    show ?thesis
    proof (cases "unblock ?t")
      case None
      then have "s' = s" using c True nr by (simp add: tick_def Let_def)
      moreover have "outstandingAddrs ?t \<noteq> []"
        using None inFlight_nonempty by (auto simp: unblock_def Let_def split: if_splits)
      ultimately show ?thesis using ticking_inv [OF k] by simp
    next
      case (Some r)
      then obtain t1 ac where r: "r = (t1, ac)" by (cases r)
      have "tick_issue E i ac (set_tre i t1 s) = Inr s'" using c True nr Some r by (simp add: tick_def Let_def)
      moreover have p: "parse_ok ?t t1" "retryPkt t1 = None"
        using Some r nr by (auto simp: unblock_def Let_def parse_ok_def set_deps_def split: if_splits)
      ultimately show ?thesis
        using tick_issue_inv [OF parse_ok_inv [OF k p(1)], of i E ac s'] by (simp add: set_tre_def)
    qed
  next
    case False
    obtain p st where p: "tellg (trace_fh ?t) = (p, st)" by (cases "tellg (trace_fh ?t)")
    obtain w t1 where w: "take_token (?t\<lparr>trace_fh := st, lastTokEntryPos := p\<rparr>) = (w, t1)"
      by (cases "take_token (?t\<lparr>trace_fh := st, lastTokEntryPos := p\<rparr>)")
    have e: "tick_entry E w i (set_tre i t1 s) = Inr s'"
      using c False nr p w by (simp add: tick_def Let_def)
    have l: "lite t1 = lite ?t" using take_token_lite [OF w] by (simp add: lite_def)
    have "parse_ok ?t ?t" using k False by (simp add: parse_ok_def ticking_def)
    then have "sys_inv (set_tre i t1 s)" using parse_ok_inv [OF k parse_ok_lite [OF _ l]] by blast
    from tick_entry_inv [OF this _ _ e] show ?thesis
      using lite_eq [OF l] nr False by (simp add: set_tre_def)
  qed
qed

lemma recvRetry_inv:
  assumes inv: "sys_inv s" and c: "recvRetry E i s = Inr s'"
  shows "sys_inv s' \<and> curTick s' = curTick s"
proof -
  have q: "queue_inv s" "sync_inv s" and ti: "\<And>j. tre_inv s j" using inv by (auto simp: sys_inv_def)
  obtain pkt ok s1 where p: "retryPkt (tres s i) = Some pkt" and st: "send_timing E i pkt s = Inr (ok, s1)"
    using c by (auto simp: recvRetry_def split: option.splits)
  note f = send_timing_step [OF q(1) st]
  note r = rest_fields [OF f(2)]
  have lj: "lite (tres s1 j) = lite (tres s j)" for j using lite_core [OF r(14), of j] by simp
  have mj: "atMem s1 j = (if ok \<and> j = i then atMem s i @ [pkt] else atMem s j)" for j using r(12) by simp
  define s2 where "s2 = (if ok then upd_tre i (\<lambda>t. t\<lparr>retryPkt := None\<rparr>) s1 else s1)"
  have sq2: "same_queue s1 s2" by (simp add: s2_def same_queue_def upd_tre_def set_tre_def)
  have q2: "queue_inv s2"
    by (rule same_queue_inv [OF sq2 _ _ f(4)]) (simp_all add: s2_def upd_tre_def set_tre_def)
  have sc: "scheduled s2 x" if "scheduled s x" for x
    using that f(3) same_queue_scheduled [OF sq2] by simp
  have "tre_inv s2 j" for j
  proof (cases "ok \<and> j = i")
    case False
    show ?thesis
    proof (rule tre_inv_mono [of s2 j s])
      show "lite (tres s2 j) = lite (tres s j)" "atMem s2 j = atMem s j" "allTREs s2 = allTREs s"
        using False lj [of j] mj [of j] r(2) by (auto simp: s2_def set_tre_def upd_tre_def)
    qed (use sc ti in auto)
  next
    case True
    then show ?thesis
      using ti [of i] lite_eq [OF lj [of i]] mj [of i] r(2) p sc
      by (auto simp: s2_def set_tre_def upd_tre_def tre_inv_def flight_inv_def blocked_inv_def retry_addrs_def)
  qed
  moreover have "sync_inv s2" using q(2) f(5) by (simp add: s2_def)
  ultimately have inv2: "sys_inv s2" using q2 by (simp add: sys_inv_def)
  have ct: "curTick s2 = curTick s" using r(1) by (simp add: s2_def set_tre_def upd_tre_def)
  show ?thesis
  proof (cases ok)
    case False
    then show ?thesis using c p st inv2 ct by (simp add: recvRetry_def s2_def)
  next
    case True
    then have e2: "s2 = upd_tre i (\<lambda>t. t\<lparr>retryPkt := None\<rparr>) s1" by (simp add: s2_def)
    have "rbind (if \<not> blocked (tres s2 i) then next_tick i s2 else Inr s2) (\<lambda>s3.
        reschedule_edge i (progressCheck (tres s3 i)) (OfTRE i noRequestEvent) True s3) = Inr s'"
      unfolding e2 using c p st True by (simp add: recvRetry_def Let_def del: rbind_eq_Inr split del: if_split)
    then obtain s3 where "(if \<not> blocked (tres s2 i) then next_tick i s2 else Inr s2) = Inr s3"
      and e: "reschedule_edge i (progressCheck (tres s3 i)) (OfTRE i noRequestEvent) True s3 = Inr s'"
      unfolding rbind_eq_Inr by blast
    then have "calm s2 s3" by (auto intro: calm_next_tick calm_refl split: if_splits)
    from calm_inv [OF calm_reschedule_edge [OF e this] inv2] show ?thesis using ct by simp
  qed
qed

lemma mset_drop_nth: "k < length xs \<Longrightarrow> mset xs = add_mset (xs ! k) (mset (take k xs @ drop (Suc k) xs))"
  using arg_cong [OF id_take_nth_drop [of k xs], of mset] by simp

lemma respond_inv:
  assumes inv: "sys_inv s" and k: "k < length (atMem s i)"
    and c: "recvTimingResp i (atMem s i ! k) err
      (s\<lparr>atMem := (atMem s)(i := take k (atMem s i) @ drop (Suc k) (atMem s i))\<rparr>) = Inr s'"
  shows "sys_inv s' \<and> curTick s' = curTick s"
proof -
  define pkt where "pkt = atMem s i ! k"
  define h where "h = take k (atMem s i) @ drop (Suc k) (atMem s i)"
  define s1 where "s1 = s\<lparr>atMem := (atMem s)(i := h)\<rparr>"
  have q: "queue_inv s" "sync_inv s" and ti: "\<And>j. tre_inv s j" using inv by (auto simp: sys_inv_def)
  have sq: "same_queue s s1" by (simp add: s1_def same_queue_def)
  have q1: "queue_inv s1" by (rule same_queue_inv [OF sq _ _ q(1)]) (simp_all add: s1_def)
  have tj: "tre_inv s1 j" if "j \<noteq> i" for j
    by (rule tre_inv_mono [of s1 j s]) (use that ti same_queue_scheduled [OF sq] in \<open>auto simp: s1_def\<close>)
  have fl: "flight_inv (tres s i) (atMem s i)" using ti [of i] by (simp add: tre_inv_def)
  have m: "mset (atMem s i) = add_mset pkt (mset h)" unfolding pkt_def h_def by (rule mset_drop_nth [OF k])
  have mo: "mset (map fst (outstandingAddrs (tres s i))) =
      add_mset (pk_addr pkt) (mset (map pk_addr h @ retry_addrs (tres s i)))"
    using fl m by (simp add: flight_inv_def)
  have sz: "pk_size pkt = 4" "\<forall>p \<in> set h. pk_size p = 4"
    using fl m k by (auto simp: flight_inv_def pkt_def h_def dest: in_set_takeD in_set_dropD)
  have "inFlight (pk_addr pkt) (outstandingAddrs (tres s i))" unfolding inFlight_mset mo by simp
  moreover have "flight_inv ((tres s i)\<lparr>outstandingAddrs := erase_addr (pk_addr pkt) (outstandingAddrs (tres s i))\<rparr>) h"
    using fl mo sz(2) by (simp add: flight_inv_def mset_erase [simplified] retry_addrs_def)
  ultimately have "response_due s1 i pkt"
    using q1 q(2) tj sz(1) ti [of i] same_queue_scheduled [OF sq]
    by (auto simp: response_due_def s1_def sync_inv_def tre_inv_def blocked_inv_def)
  moreover have "completeRequest i pkt err False s1 = Inr s'"
    using c by (simp add: recvTimingResp_def pkt_def s1_def h_def)
  ultimately have "sys_inv s' \<and> curTick s' = curTick s1" by (rule completeRequest_inv)
  then show ?thesis by (simp add: s1_def)
qed

lemma mem_action_inv:
  assumes inv: "sys_inv s" and c: "mem_action E a s = Inr s'"
  shows "sys_inv s' \<and> curTick s' = curTick s"
proof (cases a)
  case (Respond i k err)
  then show ?thesis using c inv respond_inv [OF inv] by (auto simp: mem_action_def split: if_splits)
next
  case (RetryReq i)
  then show ?thesis
    using c inv recvRetry_inv [OF inv] by (auto simp: mem_action_def recvReqRetry_def split: if_splits)
next
  case (MemEventAt n w)
  then have m: "mem_event_at n w s = Inr s'" using c by (simp add: mem_action_def)
  have "queue_inv s" "sync_inv s" using inv by (auto simp: sys_inv_def)
  with mem_event_light [OF _ m] sync_inv_rest [of s' s] have "calm s s'" by (simp add: calm_def)
  then show ?thesis by (rule calm_inv [OF _ inv])
qed

lemma mem_actions_inv:
  "sys_inv s \<Longrightarrow> mem_actions E as s = Inr s' \<Longrightarrow> sys_inv s' \<and> curTick s' = curTick s"
proof (induction as arbitrary: s)
  case (Cons a as)
  then obtain s1 where "mem_action E a s = Inr s1" "mem_actions E as s1 = Inr s'" by auto
  with Cons mem_action_inv [of s E a s1] show ?case by auto
qed simp

text \<open>The state between taking an event off the queue and its effect.\<close>

definition dispatched :: "tev \<Rightarrow> sys \<Rightarrow> bool" where
  "dispatched e s \<longleftrightarrow>
     (case e of
        OfTRE i k \<Rightarrow> if k = tickEvent then ticking i s
                      else if k = noRequestEvent \<or> k = noResponseEvent then True else sys_inv s
      | _ \<Rightarrow> sys_inv s)"

lemma process_inv:
  assumes d: "dispatched e s" and c: "process E e s = Inr s'"
  shows "sys_inv s' \<and> curTick s' = curTick s"
proof (cases e)
  case (OfTRE i k)
  show ?thesis
  proof (cases "k = tickEvent")
    case True
    then show ?thesis using d c OfTRE tick_inv [of i s E s'] by (simp add: dispatched_def process_def)
  next
    case False
    have nt: "k \<noteq> noRequestEvent" "k \<noteq> noResponseEvent"
      using c OfTRE by (auto simp: process_def noRequest_def noResponse_def)
    then have inv: "sys_inv s" using d False OfTRE by (simp add: dispatched_def)
    have "calm s s'"
      using c OfTRE False nt initMutex_calm lockMutex_calm unlockMutex_calm initBarrier_calm
        waitAtBarrier_calm sleep_calm wake_calm push_calm pop_calm stats_calm
      by (cases k) (simp_all add: process_def)
    then show ?thesis by (rule calm_inv [OF _ inv])
  qed
next
  case (SimLoopExit n)
  then show ?thesis using d c by (simp add: dispatched_def process_def)
next
  case (StatEvent n x y z)
  then have "calm s s'" using c stat_process_calm by (simp add: process_def)
  then show ?thesis by (rule calm_inv) (use d StatEvent in \<open>simp add: dispatched_def\<close>)
next
  case (MemEvent n)
  have inv: "sys_inv s" using d MemEvent by (simp add: dispatched_def)
  have m: "mem_actions E (memActions E (calls s)) (s\<lparr>calls := calls s + 1\<rparr>) = Inr s'"
    using c MemEvent by (simp add: process_def)
  have "calm s (s\<lparr>calls := calls s + 1\<rparr>)" by (intro calm_fields calm_refl)
  from calm_inv [OF this inv] mem_actions_inv [OF _ m] show ?thesis by simp
qed

subsection \<open>The engines as a client of the event queue\<close>

lemma tre_inv_cong:
  assumes "tres s' i = tres s i" "atMem s' i = atMem s i" "allTREs s' = allTREs s"
    "\<And>k. scheduled s' (OfTRE i k) = scheduled s (OfTRE i k)"
  shows "tre_inv s' i = tre_inv s i"
  using assms by (simp add: tre_inv_def)

lemma release_inv: "sys_inv s \<Longrightarrow> sys_inv (release e s)"
proof -
  assume inv: "sys_inv s"
  have sq: "same_queue s (release e s)" by (simp add: release_def same_queue_def)
  have "tre_inv (release e s) i = tre_inv s i" for i
    by (rule tre_inv_cong) (simp_all add: release_def scheduled_def)
  moreover have "sync_inv (release e s) = sync_inv s" by (simp add: release_def sync_inv_def)
  moreover have "queue_inv (release e s)"
    by (rule same_queue_inv [OF sq]) (use inv in \<open>simp_all add: release_def sys_inv_def\<close>)
  ultimately show ?thesis using inv by (simp add: sys_inv_def)
qed

lemma pop_dispatched:
  assumes inv: "sys_inv s" and p: "service_pop s = Inr (e, s1)"
  shows "dispatched e (s1\<lparr>curTick := ewhen (ev s1 e)\<rparr>)"
proof -
  define s2 where "s2 = s1\<lparr>curTick := ewhen (ev s1 e)\<rparr>"
  have q: "queue_inv s" "sync_inv s" and ti: "\<And>i. tre_inv s i" using inv by (auto simp: sys_inv_def)
  have eq: "eq_ok s" "eq_future s" using q(1) by (auto simp: queue_inv_def)
  note sp = service_pop_ok [OF eq(1) p]
  note rf = rest_fields [OF rest_keeps [OF sp(2)]]
  have tr: "tres s1 = tres s" using sp(2) by (cases s; cases s1) (simp add: keeps_def)
  have sc: "scheduled s2 x \<longleftrightarrow> x \<noteq> e \<and> scheduled s x" for x
    using sp(3) by (simp add: s2_def scheduled_def)
  have kn: "event_known s2 x = event_known s x" for x
    using rf(9,10) by (auto simp: event_known_def s2_def split: tev.splits)
  have q2: "queue_inv s2" unfolding queue_inv_def
  proof (intro conjI allI impI)
    show "eq_ok s2"
      using sp(1) by (auto simp: s2_def eq_ok_def eq_wf_def represents_def scheduled_def)
    show "eq_future s2" unfolding s2_def by (rule service_time(2) [OF eq p])
    show "initialized s2 x" for x
      using q(1) sp(2) by (simp add: queue_inv_def keeps_def s2_def initialized_def)
    show "\<not> squashed s2 x" for x
      using q(1) service_pop_squashed [OF p, of x] by (simp add: queue_inv_def s2_def squashed_def)
    show "event_known s2 x" if "scheduled s2 x" for x
      using that q(1) by (simp add: queue_inv_def sc kn)
  qed
  have y2: "sync_inv s2" using q(2) rf(3-5) by (simp add: s2_def sync_inv_def)
  have f2: "tres s2 = tres s" "atMem s2 = atMem s" "allTREs s2 = allTREs s"
    using tr rf(2,12) by (simp_all add: s2_def)
  have tj: "tre_inv s2 i" if "\<And>k. e \<noteq> OfTRE i k \<or> k \<notin> {tickEvent, noRequestEvent, noResponseEvent}" for i
  proof -
    have "e \<noteq> OfTRE i tickEvent" "e \<noteq> OfTRE i noRequestEvent" "e \<noteq> OfTRE i noResponseEvent"
      using that by auto
    then show ?thesis using ti [of i] f2 sc by (auto simp: tre_inv_def)
  qed
  show ?thesis unfolding s2_def [symmetric]
  proof (cases e)
    case (OfTRE i k)
    have oth: "tre_inv s2 j" if "j \<noteq> i" for j by (rule tj) (use that OfTRE in auto)
    show "dispatched e s2"
    proof (cases "k = tickEvent")
      case True
      then show ?thesis
        using OfTRE q2 y2 oth ti [of i] f2 sc
        by (auto simp: dispatched_def ticking_def tre_inv_def blocked_inv_def)
    next
      case False
      then show ?thesis
        using OfTRE q2 y2 tj by (auto simp: dispatched_def sys_inv_def)
    qed
  qed (use q2 y2 tj in \<open>auto simp: dispatched_def sys_inv_def\<close>)
qed

interpretation tre_sim: sim_client "process E" sys_inv dispatched for E
proof
  fix q :: sys
  assume "sys_inv q"
  then show "eq_ok q \<and> eq_future q" by (simp add: sys_inv_def queue_inv_def)
next
  fix q e q1
  assume "sys_inv q" "service_pop q = Inr (e, q1)" "\<not> squashed q1 e"
  then show "dispatched e (q1\<lparr>curTick := ewhen (ev q1 e)\<rparr>)" by (intro pop_dispatched)
next
  fix e q q'
  assume "dispatched e q" "process E e q = Inr q'"
  then show "sys_inv q' \<and> curTick q' = curTick q" by (rule process_inv)
next
  fix q e q1
  assume "sys_inv q" "service_pop q = Inr (e, q1)" "squashed q1 e"
  then show "sys_inv (clearFlag e Squashed q1)"
    by (simp add: service_pop_squashed sys_inv_def queue_inv_def)
next
  fix q :: sys and e
  assume "sys_inv q"
  then show "sys_inv (release e q)" by (rule release_inv)
qed

subsection \<open>Construction\<close>

lemma empty_sys_inv: "sys_inv empty_sys"
proof -
  have sq: "eq_ok empty_sys" "eq_future empty_sys"
    by (auto simp: empty_sys_def eq_ok_def eq_wf_def eq_future_def represents_def bins_ok_def scheduled_def
        blank_event_def flag_isSet_def Scheduled_def Initialized_def intro!: exI [of _ "[]"])
  have ns: "\<not> scheduled empty_sys e" for e
    by (simp add: empty_sys_def scheduled_def blank_event_def flag_isSet_def Scheduled_def Initialized_def)
  have "queue_inv empty_sys" using sq ns
    by (auto simp: queue_inv_def) (simp_all add: empty_sys_def initialized_def squashed_def blank_event_def
        flag_isSet_def Squashed_def Initialized_def InitMask_def)
  moreover have "sync_inv empty_sys" by (simp add: sync_inv_def empty_sys_def)
  moreover have "tre_inv empty_sys i" for i
    by (simp add: tre_inv_def flight_inv_def blocked_inv_def retry_addrs_def empty_sys_def new_tre_def)
  ultimately show ?thesis by (simp add: sys_inv_def)
qed

lemma insert_new_some: "insert_new k v m k' = Some x \<Longrightarrow> x = v \<or> m k' = Some x"
  by (auto simp: insert_new_def split: option.splits if_splits)

lemma initQueues_sync: "sync_inv s \<Longrightarrow> sync_inv (initQueues d s)"
  by (auto simp: sync_inv_def initQueues_def tqueue_ok_def new_queue_def dest!: insert_new_some)

lemma set_new_tre:
  assumes "sys_inv s" "atMem s i = []"
  shows "queue_inv (set_tre i (new_tre p st) s)" "sync_inv (set_tre i (new_tre p st) s)"
    "tre_inv (set_tre i (new_tre p st) s) j"
proof -
  let ?s = "set_tre i (new_tre p st) s"
  have sq: "same_queue s ?s" by (simp add: same_queue_def set_tre_def)
  show "queue_inv ?s"
    by (rule same_queue_inv [OF sq]) (use assms(1) in \<open>simp_all add: set_tre_def sys_inv_def\<close>)
  show "sync_inv ?s" using assms(1) by (simp add: sys_inv_def)
  show "tre_inv ?s j"
    using assms same_queue_scheduled [OF sq]
    by (cases "j = i") (auto simp: set_tre_def sys_inv_def tre_inv_def flight_inv_def blocked_inv_def
        retry_addrs_def new_tre_def)
qed

lemma construct_inv:
  assumes inv: "sys_inv s" and h: "atMem s i = []" and c: "construct i p f s = Inr s'"
  shows "sys_inv s' \<and> atMem s' = atMem s"
proof (cases f)
  case None
  then obtain st where "s' = set_tre i (new_tre p st) s"
    using c by (auto simp: construct_def new_tre_def)
  then show ?thesis using set_new_tre [OF inv h] by (simp add: sys_inv_def) (simp add: set_tre_def)
next
  case (Some tx)
  define s1 where "s1 = set_tre i (new_tre p (open_stream tx)) s"
  define s2 where "s2 = s1\<lparr>allTREs := allTREs s1 @ [i]\<rparr>"
  obtain s3 s4 where s3: "schedule (OfTRE i tickEvent) (curTick s2) False s2 = Inr s3"
    and s4: "schedule_edge i (p_progress_check p) (OfTRE i noRequestEvent) s3 = Inr s4"
    and s': "s' = (if TESTER_ALLOCATOR s4 = 0 \<and> p_queue_depth p \<noteq> 0 then initQueues (p_queue_depth p) s4 else s4)
        \<lparr>TESTER_ALLOCATOR := TESTER_ALLOCATOR s4 + 1\<rparr>"
    using c Some by (auto simp: construct_def Let_def s1_def s2_def initQueues_def)
  note n = set_new_tre [OF inv h, of p "open_stream tx", folded s1_def]
  have sq2: "same_queue s1 s2" by (simp add: s2_def same_queue_def)
  have q2: "queue_inv s2" by (rule same_queue_inv [OF sq2 _ _ n(1)]) (simp_all add: s2_def)
  note f3 = schedule_step [OF q2 event_known_tre(1) s3]
  note f4 = schedule_edge_step [OF f3(1) event_known_tre(1) s4]
  have r: "rest s4 = rest s2" using f3(2) f4(2) by simp
  note rf = rest_fields [OF r]
  have sq': "same_queue s4 s'" by (simp add: s' same_queue_def initQueues_def)
  have "queue_inv s'" by (rule same_queue_inv [OF sq' _ _ f4(1)]) (simp_all add: s' initQueues_def)
  moreover have "sync_inv s'"
  proof -
    have "sync_inv s4" using n(2) sync_inv_rest [OF r] by (simp add: s2_def sync_inv_def)
    then show ?thesis using initQueues_sync [of s4] by (simp add: s' sync_inv_def)
  qed
  moreover have "tre_inv s' j" for j
  proof -
    have sc: "scheduled s' x \<longleftrightarrow> x = OfTRE i noRequestEvent \<or> x = OfTRE i tickEvent \<or> scheduled s1 x" for x
      using f3(3) f4(3) same_queue_scheduled [OF sq2] same_queue_scheduled [OF sq'] by simp
    have l: "lite (tres s' j) = lite (tres s1 j)"
      using lite_core [OF rf(14), of j] by (simp add: s' s2_def initQueues_def)
    have "atMem s' = atMem s1" "allTREs s' = allTREs s1 @ [i]"
      using rf(2,12) by (simp_all add: s' s2_def initQueues_def)
    then show ?thesis
      using n(3) [of j] sc lite_eq [OF l]
      by (cases "j = i") (auto simp: tre_inv_def flight_inv_def blocked_inv_def retry_addrs_def)
  qed
  moreover have "atMem s' = atMem s" using rf(12) by (simp add: s' s2_def s1_def initQueues_def set_tre_def)
  ultimately show ?thesis by (simp add: sys_inv_def)
qed

lemma construct_all_inv:
  "sys_inv s \<Longrightarrow> \<forall>j. atMem s j = [] \<Longrightarrow> construct_all i ps s = Inr s' \<Longrightarrow> sys_inv s'"
proof (induction ps arbitrary: i s)
  case (Cons pf ps)
  obtain p f where pf: "pf = (p, f)" by (cases pf)
  obtain s1 where "construct i p f s = Inr s1" "construct_all (Suc i) ps s1 = Inr s'"
    using Cons.prems(3) pf by auto
  with Cons construct_inv [OF Cons.prems(1), of i p f s1] show ?case by auto
qed simp

end
