(* ===== verification/TRE_Sync.thy ===== *)
theory TRE_Sync
  imports TRE_Invariant
begin

text \<open>
  What the synchronisation primitives of the trace replay engine do to the shared
  objects, branch by branch: handing a mutex over, releasing a barrier, and the bounded
  queues; and the properties of whole simulations that rest on the invariant.
\<close>

subsection \<open>Effects on the shared objects\<close>

lemma maps_upd [simp]:
  "mutexMap (upd_tre i f s) = mutexMap s" "barrierMap (upd_tre i f s) = barrierMap s"
  "queues (upd_tre i f s) = queues s"
  "mutexMap (count_entry i s) = mutexMap s" "barrierMap (count_entry i s) = barrierMap s"
  "queues (count_entry i s) = queues s"
  "mutexMap (set_paddr a i s) = mutexMap s" "barrierMap (set_paddr a i s) = barrierMap s"
  "queues (set_paddr a i s) = queues s"
  "mutexMap (set_data d i s) = mutexMap s" "barrierMap (set_data d i s) = barrierMap s"
  "queues (set_data d i s) = queues s"
  by (simp_all add: upd_tre_def set_tre_def count_entry_def set_paddr_def set_data_def)

lemma sched_upd [simp]:
  "scheduled (upd_tre i f s) x = scheduled s x" "scheduled (count_entry i s) x = scheduled s x"
  "scheduled (set_paddr a i s) x = scheduled s x" "scheduled (set_data d i s) x = scheduled s x"
  "scheduled (s\<lparr>mutexMap := M\<rparr>) x = scheduled s x" "scheduled (s\<lparr>barrierMap := B\<rparr>) x = scheduled s x"
  "scheduled (set_queue k q s) x = scheduled s x" "scheduled (s\<lparr>calls := n\<rparr>) x = scheduled s x"
  by (simp_all add: upd_tre_def set_tre_def count_entry_def set_paddr_def set_data_def set_queue_def scheduled_def)

lemma queue_inv_upd [simp]:
  "queue_inv s \<Longrightarrow> queue_inv (count_entry i s)"
  "queue_inv s \<Longrightarrow> queue_inv (s\<lparr>mutexMap := M\<rparr>)" "queue_inv s \<Longrightarrow> queue_inv (s\<lparr>barrierMap := B\<rparr>)"
  "queue_inv s \<Longrightarrow> queue_inv (set_queue k q s)" "queue_inv s \<Longrightarrow> queue_inv (s\<lparr>calls := n\<rparr>)"
  using light_count light_maps(1,2,4) light_queue_upd light_queue by blast+

lemma next_tick_effect:
  assumes "queue_inv s" "next_tick i s = Inr s'"
  shows "queue_inv s'" "mutexMap s' = mutexMap s" "barrierMap s' = barrierMap s" "queues s' = queues s"
    "\<And>x. scheduled s' x \<longleftrightarrow> x = OfTRE i tickEvent \<or> scheduled s x"
  using next_tick_step [OF assms] rest_fields(3-5) by blast+

lemma schedule_edge_effect:
  assumes "queue_inv s" "schedule_edge i c (OfTRE j k) s = Inr s'"
  shows "queue_inv s'" "mutexMap s' = mutexMap s" "barrierMap s' = barrierMap s" "queues s' = queues s"
    "\<And>x. scheduled s' x \<longleftrightarrow> x = OfTRE j k \<or> scheduled s x"
  using schedule_edge_step [OF assms(1) event_known_tre(1) assms(2)] rest_fields(3-5) by blast+

lemma lockMutex_effect:
  assumes q: "queue_inv s" and m: "mutexMap s (paddr (tres s i)) = Some m" and c: "lockMutex i s = Inr s'"
  shows "case owner m of
      None \<Rightarrow> mutexMap s' = (mutexMap s)(paddr (tres s i) \<mapsto> m\<lparr>owner := Some i\<rparr>) \<and>
        (\<forall>x. scheduled s' x \<longleftrightarrow> x = OfTRE i tickEvent \<or> scheduled s x)
    | Some j \<Rightarrow> j \<noteq> i \<and> mutexMap s' = (mutexMap s)(paddr (tres s i) \<mapsto> m\<lparr>waiting := waiting m @ [i]\<rparr>) \<and>
        (\<forall>x. scheduled s' x = scheduled s x)"
proof (cases "owner m")
  case None
  then obtain s1 where n: "next_tick i (s\<lparr>mutexMap := (mutexMap s)(paddr (tres s i) \<mapsto> m\<lparr>owner := Some i\<rparr>)\<rparr>) = Inr s1"
    and s': "s' = set_paddr 0 i (count_entry i s1)"
    using c m by (auto simp: lockMutex_def Let_def)
  from next_tick_effect [OF queue_inv_upd(2) [OF q] n] None show ?thesis by (simp add: s')
next
  case (Some j)
  then show ?thesis using c m by (auto simp: lockMutex_def Let_def)
qed

lemma unlockMutex_effect:
  assumes q: "queue_inv s" and c: "unlockMutex E i s = Inr s'"
  obtains m where "mutexMap s (paddr (tres s i)) = Some m" "owner m = Some i"
    "waiting m = [] \<longrightarrow> mutexMap s' = (mutexMap s)(paddr (tres s i) \<mapsto> m\<lparr>owner := None\<rparr>) \<and>
       (\<forall>x. scheduled s' x \<longleftrightarrow> x = OfTRE i tickEvent \<or> scheduled s x)"
    "waiting m \<noteq> [] \<longrightarrow> (\<exists>k < length (waiting m).
       mutexMap s' = (mutexMap s)(paddr (tres s i) \<mapsto>
         m\<lparr>owner := Some (waiting m ! k), waiting := take k (waiting m) @ drop (Suc k) (waiting m)\<rparr>) \<and>
       (\<forall>x. scheduled s' x \<longleftrightarrow> x = OfTRE i tickEvent \<or> x = OfTRE (waiting m ! k) tickEvent \<or> scheduled s x))"
proof -
  let ?a = "paddr (tres s i)"
  obtain m s3 s4 where m: "mutexMap s ?a = Some m" "owner m = Some i"
    and s3: "(if waiting m = [] then Inr (s\<lparr>mutexMap := (mutexMap s)(?a \<mapsto> m\<lparr>owner := None, waiting := []\<rparr>)\<rparr>)
       else let idx = rand E (calls s) mod length (waiting m); target = waiting m ! idx; s1 = s\<lparr>calls := calls s + 1\<rparr> in
         rbind (schedule_edge i (interval (tres s1 i)) (OfTRE target tickEvent) s1) (\<lambda>s2.
           Inr (s2\<lparr>mutexMap := (mutexMap s2)(?a \<mapsto> m\<lparr>owner := Some target,
             waiting := take idx (waiting m) @ drop (Suc idx) (waiting m)\<rparr>)\<rparr>))) = Inr s3"
    and s4: "next_tick i (count_entry i s3) = Inr s4" and s': "s' = set_paddr 0 i s4"
    using c by (auto simp: unlockMutex_def Let_def split: option.splits)
  show thesis
  proof (rule that [OF m])
    show "waiting m = [] \<longrightarrow> mutexMap s' = (mutexMap s)(?a \<mapsto> m\<lparr>owner := None\<rparr>) \<and>
       (\<forall>x. scheduled s' x \<longleftrightarrow> x = OfTRE i tickEvent \<or> scheduled s x)"
    proof
      assume w: "waiting m = []"
      then have e: "s3 = s\<lparr>mutexMap := (mutexMap s)(?a \<mapsto> m\<lparr>owner := None, waiting := []\<rparr>)\<rparr>" using s3 by simp
      have mm: "m\<lparr>owner := None, waiting := []\<rparr> = m\<lparr>owner := None\<rparr>" using w by (cases m) simp
      show "mutexMap s' = (mutexMap s)(?a \<mapsto> m\<lparr>owner := None\<rparr>) \<and>
         (\<forall>x. scheduled s' x \<longleftrightarrow> x = OfTRE i tickEvent \<or> scheduled s x)"
        using next_tick_effect [OF _ s4] q by (simp add: s' e mm)
    qed
  next
    show "waiting m \<noteq> [] \<longrightarrow> (\<exists>k < length (waiting m).
       mutexMap s' = (mutexMap s)(?a \<mapsto>
         m\<lparr>owner := Some (waiting m ! k), waiting := take k (waiting m) @ drop (Suc k) (waiting m)\<rparr>) \<and>
       (\<forall>x. scheduled s' x \<longleftrightarrow> x = OfTRE i tickEvent \<or> x = OfTRE (waiting m ! k) tickEvent \<or> scheduled s x))"
    proof
      assume w: "waiting m \<noteq> []"
      define k where "k = rand E (calls s) mod length (waiting m)"
      have k: "k < length (waiting m)" using w by (simp add: k_def)
      obtain s2 where e: "schedule_edge i (interval (tres s i)) (OfTRE (waiting m ! k) tickEvent) (s\<lparr>calls := calls s + 1\<rparr>) = Inr s2"
        and s3': "s3 = s2\<lparr>mutexMap := (mutexMap s2)(?a \<mapsto> m\<lparr>owner := Some (waiting m ! k),
             waiting := take k (waiting m) @ drop (Suc k) (waiting m)\<rparr>)\<rparr>"
        using s3 w by (auto simp: Let_def k_def)
      note f = schedule_edge_effect [OF queue_inv_upd(5) [OF q] e]
      have "queue_inv (count_entry i s3)" using f(1) by (simp add: s3')
      from next_tick_effect [OF this s4] f k show "\<exists>k < length (waiting m).
         mutexMap s' = (mutexMap s)(?a \<mapsto>
           m\<lparr>owner := Some (waiting m ! k), waiting := take k (waiting m) @ drop (Suc k) (waiting m)\<rparr>) \<and>
         (\<forall>x. scheduled s' x \<longleftrightarrow> x = OfTRE i tickEvent \<or> x = OfTRE (waiting m ! k) tickEvent \<or> scheduled s x)"
        by (intro exI [of _ k]) (simp add: s' s3')
    qed
  qed
qed

lemma release_all_effect:
  "queue_inv s \<Longrightarrow> release_all i ts s = Inr s' \<Longrightarrow>
    queue_inv s' \<and> mutexMap s' = mutexMap s \<and> barrierMap s' = barrierMap s \<and> queues s' = queues s \<and>
    (\<forall>x. scheduled s' x \<longleftrightarrow> x \<in> (\<lambda>t. OfTRE t tickEvent) ` set ts \<or> scheduled s x)"
proof (induction ts arbitrary: s)
  case (Cons t ts)
  obtain s1 where s1: "schedule_edge i (interval (tres s i)) (OfTRE t tickEvent) s = Inr s1"
    and r: "release_all i ts s1 = Inr s'" using Cons.prems(2) by auto
  note f = schedule_edge_effect [OF Cons.prems(1) s1]
  from Cons.IH [OF f(1) r] f show ?case by auto
qed simp

lemma waitAtBarrier_effect:
  assumes q: "queue_inv s" and b: "barrierMap s (paddr (tres s i)) = Some b" and c: "waitAtBarrier i s = Inr s'"
  shows "if length (arrived b) + 1 = unat (bcount b)
    then barrierMap s' = (barrierMap s)(paddr (tres s i) \<mapsto> b\<lparr>arrived := []\<rparr>) \<and>
      (\<forall>x. scheduled s' x \<longleftrightarrow> x \<in> (\<lambda>t. OfTRE t tickEvent) ` insert i (set (arrived b)) \<or> scheduled s x)
    else barrierMap s' = (barrierMap s)(paddr (tres s i) \<mapsto> b\<lparr>arrived := arrived b @ [i]\<rparr>) \<and>
      (\<forall>x. scheduled s' x = scheduled s x)"
proof (cases "length (arrived b) + 1 = unat (bcount b)")
  case True
  let ?b1 = "b\<lparr>arrived := arrived b @ [i]\<rparr>"
  obtain s2 where r: "release_all i (arrived b @ [i]) (s\<lparr>barrierMap := (barrierMap s)(paddr (tres s i) \<mapsto> ?b1)\<rparr>) = Inr s2"
    and s': "s' = set_paddr 0 i (count_entry i
      (s2\<lparr>barrierMap := (barrierMap s2)(paddr (tres s i) \<mapsto> ?b1\<lparr>arrived := []\<rparr>)\<rparr>))"
    using c b True by (auto simp: waitAtBarrier_def Let_def)
  from release_all_effect [OF queue_inv_upd(3) [OF q] r] True show ?thesis by (auto simp: s')
next
  case False
  then show ?thesis using c b by (auto simp: waitAtBarrier_def Let_def)
qed

lemma set_queue_fields [simp]: "queues (set_queue k q s) = (queues s)(k \<mapsto> q)" "tres (set_queue k q s) = tres s"
  by (simp_all add: set_queue_def)

lemma push_effect:
  assumes q: "queue_inv s" and k: "queues s (tid (tres s i), tdata (tres s i)) = Some Q" and c: "push i s = Inr s'"
  shows "if length (items Q) = unat (qsize Q)
    then queues s' = (queues s)((tid (tres s i), tdata (tres s i)) \<mapsto> Q\<lparr>waitingToPush := Some i\<rparr>) \<and>
      (\<forall>x. scheduled s' x = scheduled s x)
    else queues s' = (queues s)((tid (tres s i), tdata (tres s i)) \<mapsto>
        Q\<lparr>items := items Q @ [0], waitingToPop := None\<rparr>) \<and>
      (\<forall>x. scheduled s' x \<longleftrightarrow> x = OfTRE i tickEvent \<or> (\<exists>t. waitingToPop Q = Some t \<and> x = OfTRE t popEvent) \<or> scheduled s x)"
proof (cases "length (items Q) = unat (qsize Q)")
  case True
  then show ?thesis using c k by (auto simp: push_def Let_def)
next
  case False
  let ?k = "(tid (tres s i), tdata (tres s i))" and ?Q = "Q\<lparr>items := items Q @ [0]\<rparr>"
  obtain s2 s3 where s2: "(case waitingToPop ?Q of
                     None \<Rightarrow> Inr (set_queue ?k ?Q s)
                   | Some t \<Rightarrow>
                       rbind (schedule_edge i (interval (tres s i)) (OfTRE t popEvent) (set_queue ?k ?Q s))
                         (\<lambda>s1. Inr (set_queue ?k (?Q\<lparr>waitingToPop := None\<rparr>) s1))) = Inr s2"
    and s3: "next_tick i (count_entry i s2) = Inr s3" and s': "s' = set_data 0 i s3"
    using c k False by (auto simp: push_def Let_def)
  have e: "queue_inv s2 \<and> queues s2 = (queues s)(?k \<mapsto> Q\<lparr>items := items Q @ [0], waitingToPop := None\<rparr>) \<and>
    (\<forall>x. scheduled s2 x \<longleftrightarrow> (\<exists>t. waitingToPop Q = Some t \<and> x = OfTRE t popEvent) \<or> scheduled s x)"
  proof (cases "waitingToPop Q")
    case None
    then have "?Q = Q\<lparr>items := items Q @ [0], waitingToPop := None\<rparr>" by (cases Q) simp
    then show ?thesis using None s2 q by auto
  next
    case (Some t)
    then obtain s1 where s1: "schedule_edge i (interval (tres s i)) (OfTRE t popEvent) (set_queue ?k ?Q s) = Inr s1"
      and "s2 = set_queue ?k (?Q\<lparr>waitingToPop := None\<rparr>) s1" using s2 by auto
    with schedule_edge_effect [OF queue_inv_upd(4) [OF q] s1] Some show ?thesis by simp
  qed
  then have "queue_inv (count_entry i s2)" by simp
  from next_tick_effect [OF this s3] e False show ?thesis by (simp add: s')
qed

lemma pop_effect:
  assumes q: "queue_inv s" and k: "queues s (tdata (tres s i), tid (tres s i)) = Some Q" and c: "pop i s = Inr s'"
  shows "if items Q = []
    then queues s' = (queues s)((tdata (tres s i), tid (tres s i)) \<mapsto> Q\<lparr>waitingToPop := Some i\<rparr>) \<and>
      (\<forall>x. scheduled s' x = scheduled s x)
    else queues s' = (queues s)((tdata (tres s i), tid (tres s i)) \<mapsto>
        Q\<lparr>items := tl (items Q), waitingToPush := None\<rparr>) \<and>
      (\<forall>x. scheduled s' x \<longleftrightarrow> x = OfTRE i tickEvent \<or> (\<exists>t. waitingToPush Q = Some t \<and> x = OfTRE t pushEvent) \<or> scheduled s x)"
proof (cases "items Q = []")
  case True
  then show ?thesis using c k by (auto simp: pop_def Let_def)
next
  case False
  let ?k = "(tdata (tres s i), tid (tres s i))" and ?Q = "Q\<lparr>items := tl (items Q)\<rparr>"
  obtain s2 s3 where s2: "(case waitingToPush ?Q of
                     None \<Rightarrow> Inr (set_queue ?k ?Q s)
                   | Some t \<Rightarrow>
                       rbind (schedule_edge i (interval (tres s i)) (OfTRE t pushEvent) (set_queue ?k ?Q s))
                         (\<lambda>s1. Inr (set_queue ?k (?Q\<lparr>waitingToPush := None\<rparr>) s1))) = Inr s2"
    and s3: "next_tick i (count_entry i s2) = Inr s3" and s': "s' = set_data 0 i s3"
    using c k False by (auto simp: pop_def Let_def)
  have e: "queue_inv s2 \<and> queues s2 = (queues s)(?k \<mapsto> Q\<lparr>items := tl (items Q), waitingToPush := None\<rparr>) \<and>
    (\<forall>x. scheduled s2 x \<longleftrightarrow> (\<exists>t. waitingToPush Q = Some t \<and> x = OfTRE t pushEvent) \<or> scheduled s x)"
  proof (cases "waitingToPush Q")
    case None
    then have "?Q = Q\<lparr>items := tl (items Q), waitingToPush := None\<rparr>" by (cases Q) simp
    then show ?thesis using None s2 q by auto
  next
    case (Some t)
    then obtain s1 where s1: "schedule_edge i (interval (tres s i)) (OfTRE t pushEvent) (set_queue ?k ?Q s) = Inr s1"
      and "s2 = set_queue ?k (?Q\<lparr>waitingToPush := None\<rparr>) s1" using s2 by auto
    with schedule_edge_effect [OF queue_inv_upd(4) [OF q] s1] Some show ?thesis by simp
  qed
  then have "queue_inv (count_entry i s2)" by simp
  from next_tick_effect [OF this s3] e False show ?thesis by (simp add: s')
qed


subsection \<open>Reachable states of a simulation\<close>

text \<open>One iteration of the event loop services the head of the queue; a simulation is any number of them
  from the state the constructors leave.\<close>

inductive reaches :: "env \<Rightarrow> sys \<Rightarrow> sys \<Rightarrow> bool" for E s0 where
  reaches_refl: "reaches E s0 s0"
| reaches_step: "reaches E s0 s \<Longrightarrow> serviceOne (process E) s = Inr (r, s') \<Longrightarrow> reaches E s0 s'"

lemma reaches_inv: "reaches E s0 s \<Longrightarrow> sys_inv s0 \<Longrightarrow> sys_inv s \<and> curTick s0 \<le> curTick s"
proof (induction rule: reaches.induct)
  case (reaches_step s r s')
  then show ?case
    using tre_sim.serviceOne_inv [of s E r s'] order_trans [of "curTick s0" "curTick s" "curTick s'"] by blast
qed simp

definition built :: "(tre_params \<times> string option) list \<Rightarrow> sys \<Rightarrow> bool" where
  "built ps s \<longleftrightarrow> construct_all 0 ps empty_sys = Inr s"

lemma built_inv: "built ps s \<Longrightarrow> sys_inv s"
  unfolding built_def by (rule construct_all_inv [OF empty_sys_inv]) (simp_all add: empty_sys_def)

lemmas run_inv = reaches_inv [OF _ built_inv]

text \<open>Concrete inputs the properties are applied to: a memory that accepts every request and answers it
  once, and an engine replaying a short trace.\<close>

definition demo_env :: env where
  "demo_env = \<lparr>acceptsReq = (\<lambda>_. True), onSend = (\<lambda>n. [(n, 50 + of_nat n * 100)]), atomicError = (\<lambda>_. False),
     rand = (\<lambda>_. 0), memActions = (\<lambda>_. [Respond 0 0 False])\<rparr>"

definition demo_params :: tre_params where
  "demo_params = \<lparr>p_id = 0, p_interval = 1, p_queue_depth = 0, p_progress_interval = 100, p_progress_check = 1000,
     p_atomic = False, p_suppress = False, p_max_outstanding = 2, p_period = 10\<rparr>"

definition run_from :: "string \<Rightarrow> (sys \<Rightarrow> bool) \<Rightarrow> bool" where
  "run_from tr P \<longleftrightarrow> (case construct_all 0 [(demo_params, Some tr)] empty_sys of Inl _ \<Rightarrow> False | Inr s \<Rightarrow> P s)"

definition steps_to :: "(sys \<Rightarrow> bool) \<Rightarrow> sys \<Rightarrow> bool" where
  "steps_to P s \<longleftrightarrow> (case serviceOne (process demo_env) s of Inl _ \<Rightarrow> False | Inr (_, s') \<Rightarrow> P s')"

lemma run_fromE: "run_from tr P \<Longrightarrow> (\<And>s. built [(demo_params, Some tr)] s \<Longrightarrow> P s \<Longrightarrow> thesis) \<Longrightarrow> thesis"
  by (auto simp: run_from_def built_def split: sum.splits)

lemma steps_toE: "steps_to P s \<Longrightarrow> (\<And>s'. reaches demo_env s s' \<Longrightarrow> P s' \<Longrightarrow> thesis) \<Longrightarrow> thesis"
  by (auto simp: steps_to_def split: sum.splits intro: reaches_step [OF reaches_refl])

text \<open>A load sent to memory, a mutex created, and an access blocked behind a load.\<close>

lemma demo_load_runs: "run_from ''LD 0x10 ( ) EOF '' (steps_to (\<lambda>s. map pk_addr (atMem s 0) = [16]))"
  by code_simp

lemma demo_load:
  obtains s s' where "built [(demo_params, Some ''LD 0x10 ( ) EOF '')] s" "reaches demo_env s s'"
    "map pk_addr (atMem s' 0) = [16]"
  by (rule run_fromE [OF demo_load_runs], erule steps_toE, erule (2) that)

lemma demo_mutex_runs: "run_from ''MTXINIT 0x10 0 EOF '' (steps_to (\<lambda>s. mutexMap s 16 \<noteq> None))"
  by code_simp

lemma demo_mutex:
  obtains s s' where "built [(demo_params, Some ''MTXINIT 0x10 0 EOF '')] s" "reaches demo_env s s'"
    "mutexMap s' 16 \<noteq> None"
  by (rule run_fromE [OF demo_mutex_runs], erule steps_toE, erule (2) that)


lemma demo_blocked_runs:
  "run_from ''LD 0x10 ( ) LD 0x20 ( 0x10 ) EOF '' (steps_to (steps_to (\<lambda>s. blocked (tres s 0) \<and>
    \<not> scheduled s (OfTRE 0 tickEvent) \<and> maxNumOutstandingAddrs (tres s 0) = 2)))"
  by code_simp

lemma reaches_trans: "reaches E s1 s2 \<Longrightarrow> reaches E s0 s1 \<Longrightarrow> reaches E s0 s2"
  by (induction rule: reaches.induct) (auto intro: reaches_step)

lemma demo_blocked:
  obtains s s' where "built [(demo_params, Some ''LD 0x10 ( ) LD 0x20 ( 0x10 ) EOF '')] s" "reaches demo_env s s'"
    "blocked (tres s' 0)" "\<not> scheduled s' (OfTRE 0 tickEvent)" "maxNumOutstandingAddrs (tres s' 0) = 2"
  by (rule run_fromE [OF demo_blocked_runs], erule steps_toE, erule steps_toE)
    (auto intro: that reaches_trans)

text \<open>A mutex with two waiters and a barrier one arrival short, in an otherwise empty system.\<close>

definition demo_sync :: sys where
  "demo_sync = empty_sys\<lparr>tres := (tres empty_sys)(0 := (tres empty_sys 0)\<lparr>paddr := 16\<rparr>),
     mutexMap := [16 \<mapsto> \<lparr>owner = Some 0, waiting = [1, 2]\<rparr>],
     barrierMap := [16 \<mapsto> \<lparr>bcount = 3, arrived = [1, 2]\<rparr>],
     queues := [(0, 0) \<mapsto> \<lparr>items = [], qsize = 2, waitingToPush = None, waitingToPop = Some 1\<rparr>]\<rparr>"

lemma demo_sync_queue: "queue_inv demo_sync"
proof -
  have "same_queue empty_sys demo_sync" by (simp add: same_queue_def demo_sync_def)
  then show ?thesis
    by (rule same_queue_inv) (use empty_sys_inv in \<open>simp_all add: demo_sync_def sys_inv_def\<close>)
qed

definition ok :: "'a res \<Rightarrow> bool" where
  "ok r \<longleftrightarrow> (case r of Inl _ \<Rightarrow> False | Inr _ \<Rightarrow> True)"

lemma okE: "ok r \<Longrightarrow> (\<And>x. r = Inr x \<Longrightarrow> thesis) \<Longrightarrow> thesis"
  by (auto simp: ok_def split: sum.splits)

lemma demo_sync_runs:
  "ok (unlockMutex demo_env 0 demo_sync)" "ok (waitAtBarrier 0 demo_sync)" "ok (push 0 demo_sync)"
  "ok (rbind (push 0 demo_sync) (\<lambda>s. pop 2 s))"
  by code_simp+

lemma rest_ids: "rest s' = rest s \<Longrightarrow> tid (tres s' j) = tid (tres s j) \<and> tdata (tres s' j) = tdata (tres s j)"
  using core_fields(1,17) [OF rest_fields(14)] by blast

lemma other_upd [simp]:
  "j \<noteq> i \<Longrightarrow> tres (upd_tre i f s) j = tres s j" "j \<noteq> i \<Longrightarrow> tres (count_entry i s) j = tres s j"
  "j \<noteq> i \<Longrightarrow> tres (set_data d i s) j = tres s j"
  by (simp_all add: upd_tre_def set_tre_def count_entry_def set_data_def)

lemma set_data_queue [simp]: "queue_inv s \<Longrightarrow> queue_inv (set_data d i s)"
  by (rule same_queue_inv [of s]) (simp_all add: same_queue_def set_data_def upd_tre_def set_tre_def)

lemma push_frame:
  assumes "queue_inv s" "push i s = Inr s'" "j \<noteq> i"
  shows "queue_inv s'" "tid (tres s' j) = tid (tres s j)" "tdata (tres s' j) = tdata (tres s j)"
proof -
  let ?k = "(tid (tres s i), tdata (tres s i))"
  obtain Q where Q: "queues s ?k = Some Q" using assms(2) by (auto simp: push_def Let_def split: option.splits)
  have "queue_inv s' \<and> tid (tres s' j) = tid (tres s j) \<and> tdata (tres s' j) = tdata (tres s j)"
  proof (cases "length (items Q) = unat (qsize Q)")
    case True
    then show ?thesis using assms(1,2) Q by (auto simp: push_def Let_def)
  next
    case False
    let ?Q = "Q\<lparr>items := items Q @ [0]\<rparr>"
    obtain s2 s3 where s2: "(case waitingToPop ?Q of
                     None \<Rightarrow> Inr (set_queue ?k ?Q s)
                   | Some t \<Rightarrow>
                       rbind (schedule_edge i (interval (tres s i)) (OfTRE t popEvent) (set_queue ?k ?Q s))
                         (\<lambda>s1. Inr (set_queue ?k (?Q\<lparr>waitingToPop := None\<rparr>) s1))) = Inr s2"
      and s3: "next_tick i (count_entry i s2) = Inr s3" and s': "s' = set_data 0 i s3"
      using assms(2) Q False by (auto simp: push_def Let_def)
    have e: "queue_inv s2 \<and> tid (tres s2 j) = tid (tres s j) \<and> tdata (tres s2 j) = tdata (tres s j)"
    proof (cases "waitingToPop Q")
      case None
      then show ?thesis using s2 assms(1) by auto
    next
      case (Some t)
      then obtain s1 where s1: "schedule_edge i (interval (tres s i)) (OfTRE t popEvent) (set_queue ?k ?Q s) = Inr s1"
        and "s2 = set_queue ?k (?Q\<lparr>waitingToPop := None\<rparr>) s1" using s2 by auto
      with schedule_edge_step(1,2) [OF queue_inv_upd(4) [OF assms(1)] _ s1] rest_ids [of s1 "set_queue ?k ?Q s" j]
      show ?thesis by simp
    qed
    then have c: "queue_inv (count_entry i s2)" by simp
    from rest_ids [OF next_tick_step(2) [OF c s3], of j] next_tick_step(1) [OF c s3] e assms(3) show ?thesis by (simp add: s')
  qed
  then show "queue_inv s'" "tid (tres s' j) = tid (tres s j)" "tdata (tres s' j) = tdata (tres s j)" by auto
qed

subsection \<open>Properties\<close>

text \<open>C2: In every state a simulation reaches, the outstanding addresses of a replay engine are, counted with
  multiplicity, the addresses of the packets the memory system holds for it plus the packet waiting for a
  retry; and while there is one the no-response watchdog is scheduled.\<close>

theorem requests_accounted:
  assumes "built ps s0" and "reaches E s0 s"
  shows "mset (map fst (outstandingAddrs (tres s i))) =
      mset (map pk_addr (atMem s i)) + mset (case retryPkt (tres s i) of None \<Rightarrow> [] | Some p \<Rightarrow> [pk_addr p]) \<and>
    (outstandingAddrs (tres s i) \<noteq> [] \<longrightarrow> scheduled s (OfTRE i noResponseEvent))"
  using run_inv [OF assms(2,1)]
  by (auto simp: sys_inv_def tre_inv_def flight_inv_def retry_addrs_def split: option.splits)

theorem requests_accounted_witness:
  "\<exists>s :: sys. map pk_addr (atMem s 0) = [16] \<and> mset (map fst (outstandingAddrs (tres s 0))) =
     mset [16] + mset (case retryPkt (tres s 0) of None \<Rightarrow> [] | Some p \<Rightarrow> [pk_addr p])"
proof -
  obtain s s' where b: "built [(demo_params, Some ''LD 0x10 ( ) EOF '')] s" "reaches demo_env s s'"
    and m: "map pk_addr (atMem s' 0) = [16]" by (rule demo_load)
  from requests_accounted [OF b, of 0] m show ?thesis by (intro exI [of _ s']) simp
qed

text \<open>C1: A blocked engine is never forgotten: in every reachable state, an engine that is blocked and whose
  tick is not scheduled has a packet in the memory system or waiting for a retry, whose response will
  schedule the tick (unless it was configured to allow no outstanding request at all).\<close>

theorem blocked_has_response:
  assumes "built ps s0" and "reaches E s0 s"
    and "blocked (tres s i)" and "\<not> scheduled s (OfTRE i tickEvent)" and "maxNumOutstandingAddrs (tres s i) \<noteq> 0"
  shows "(atMem s i \<noteq> [] \<or> retryPkt (tres s i) \<noteq> None) \<and> scheduled s (OfTRE i noResponseEvent)"
proof -
  from run_inv [OF assms(2,1)] have inv: "tre_inv s i" by (simp add: sys_inv_def)
  with assms(3-5) have "outstandingAddrs (tres s i) \<noteq> []" by (simp add: tre_inv_def blocked_inv_def)
  then show ?thesis
    using inv by (cases "retryPkt (tres s i)") (auto simp: tre_inv_def flight_inv_def retry_addrs_def)
qed

theorem blocked_has_response_witness:
  "\<exists>s :: sys. blocked (tres s 0) \<and> \<not> scheduled s (OfTRE 0 tickEvent) \<and>
     (atMem s 0 \<noteq> [] \<or> retryPkt (tres s 0) \<noteq> None) \<and> scheduled s (OfTRE 0 noResponseEvent)"
proof -
  obtain s s' where b: "built [(demo_params, Some ''LD 0x10 ( ) LD 0x20 ( 0x10 ) EOF '')] s" "reaches demo_env s s'"
    and m: "blocked (tres s' 0)" "\<not> scheduled s' (OfTRE 0 tickEvent)" "maxNumOutstandingAddrs (tres s' 0) = 2"
    by (rule demo_blocked)
  from blocked_has_response [OF b m(1,2)] m show ?thesis by (intro exI [of _ s']) simp
qed

text \<open>C4: The synchronisation objects stay consistent in every reachable state: a mutex with waiters has an
  owner, a barrier holds fewer engines than its count, and a queue holds at most its size, with a producer
  waiting only while it is full and a consumer waiting only while it is empty.\<close>

theorem sync_objects_consistent:
  assumes "built ps s0" and "reaches E s0 s"
  shows "(mutexMap s a = Some m \<longrightarrow> waiting m \<noteq> [] \<longrightarrow> owner m \<noteq> None) \<and>
    (barrierMap s a = Some b \<longrightarrow> length (arrived b) < unat (bcount b)) \<and>
    (queues s k = Some q \<longrightarrow> length (items q) \<le> unat (qsize q) \<and>
      (waitingToPush q \<noteq> None \<longrightarrow> length (items q) = unat (qsize q)) \<and> (waitingToPop q \<noteq> None \<longrightarrow> items q = []))"
proof -
  from run_inv [OF assms(2,1)] have y: "sync_inv s" by (simp add: sys_inv_def)
  from y have "mutexMap s a = Some m \<longrightarrow> mutex_ok m" "barrierMap s a = Some b \<longrightarrow> barrier_ok b"
    "queues s k = Some q \<longrightarrow> tqueue_ok q" unfolding sync_inv_def by blast+
  then show ?thesis unfolding mutex_ok_def barrier_ok_def tqueue_ok_def by blast
qed

theorem sync_objects_consistent_witness:
  "\<exists>(s :: sys) m. mutexMap s 16 = Some m \<and> (waiting m \<noteq> [] \<longrightarrow> owner m \<noteq> None)"
proof -
  obtain s s' where b: "built [(demo_params, Some ''MTXINIT 0x10 0 EOF '')] s" "reaches demo_env s s'"
    and m: "mutexMap s' 16 \<noteq> None" by (rule demo_mutex)
  then obtain mx where "mutexMap s' 16 = Some mx" by blast
  with sync_objects_consistent [OF b, of 16 mx] show ?thesis by blast
qed

text \<open>C5: Unlocking: only the owner can; without waiters the mutex becomes free, and with waiters it is handed
  to exactly one of them, which leaves the waiting list and is scheduled to tick together with the engine
  that unlocked.  No other event is scheduled.\<close>

theorem unlock_hands_over:
  assumes "queue_inv s" and "unlockMutex E i s = Inr s'"
  shows "\<exists>m. mutexMap s (paddr (tres s i)) = Some m \<and> owner m = Some i \<and>
    (if waiting m = []
     then mutexMap s' = (mutexMap s)(paddr (tres s i) \<mapsto> m\<lparr>owner := None\<rparr>) \<and>
       (\<forall>x. scheduled s' x \<longleftrightarrow> x = OfTRE i tickEvent \<or> scheduled s x)
     else \<exists>k < length (waiting m).
       mutexMap s' = (mutexMap s)(paddr (tres s i) \<mapsto>
         m\<lparr>owner := Some (waiting m ! k), waiting := take k (waiting m) @ drop (Suc k) (waiting m)\<rparr>) \<and>
       (\<forall>x. scheduled s' x \<longleftrightarrow> x = OfTRE i tickEvent \<or> x = OfTRE (waiting m ! k) tickEvent \<or> scheduled s x))"
  by (rule unlockMutex_effect [OF assms]) auto

theorem unlock_hands_over_witness:
  "\<exists>s' k. unlockMutex demo_env 0 demo_sync = Inr s' \<and> k < 2 \<and> scheduled s' (OfTRE ([1, 2] ! k) tickEvent) \<and>
     mutexMap s' 16 = Some \<lparr>owner = Some ([1, 2] ! k), waiting = take k [1, 2] @ drop (Suc k) [1, 2]\<rparr>"
proof -
  obtain s' where s': "unlockMutex demo_env 0 demo_sync = Inr s'" by (rule okE [OF demo_sync_runs(1)])
  have p: "paddr (tres demo_sync 0) = 16" "mutexMap demo_sync 16 = Some \<lparr>owner = Some 0, waiting = [1, 2]\<rparr>"
    by (simp_all add: demo_sync_def)
  from unlock_hands_over [OF demo_sync_queue s'] p show ?thesis
    unfolding s' by (auto simp: numeral_2_eq_2)
qed

text \<open>C6: A barrier releases its engines together: an arrival that completes the count schedules the tick of
  every engine that arrived and empties the barrier, and an earlier arrival only joins, with no event
  scheduled.\<close>

theorem barrier_releases_together:
  assumes "queue_inv s" and "barrierMap s (paddr (tres s i)) = Some b" and "waitAtBarrier i s = Inr s'"
  shows "if length (arrived b) + 1 = unat (bcount b)
    then barrierMap s' = (barrierMap s)(paddr (tres s i) \<mapsto> b\<lparr>arrived := []\<rparr>) \<and>
      (\<forall>x. scheduled s' x \<longleftrightarrow> x \<in> (\<lambda>t. OfTRE t tickEvent) ` insert i (set (arrived b)) \<or> scheduled s x)
    else barrierMap s' = (barrierMap s)(paddr (tres s i) \<mapsto> b\<lparr>arrived := arrived b @ [i]\<rparr>) \<and>
      (\<forall>x. scheduled s' x = scheduled s x)"
  by (rule waitAtBarrier_effect [OF assms])

theorem barrier_releases_together_witness:
  "\<exists>s'. waitAtBarrier 0 demo_sync = Inr s' \<and> barrierMap s' 16 = Some \<lparr>bcount = 3, arrived = []\<rparr> \<and>
     scheduled s' (OfTRE 0 tickEvent) \<and> scheduled s' (OfTRE 1 tickEvent) \<and> scheduled s' (OfTRE 2 tickEvent)"
proof -
  obtain s' where s': "waitAtBarrier 0 demo_sync = Inr s'" by (rule okE [OF demo_sync_runs(2)])
  have p: "paddr (tres demo_sync 0) = 16" "barrierMap demo_sync 16 = Some \<lparr>bcount = 3, arrived = [1, 2]\<rparr>"
    by (simp_all add: demo_sync_def)
  from barrier_releases_together [OF demo_sync_queue _ s'] p s' show ?thesis by auto
qed



end
