(* ===== verification/Tracer.thy ===== *)
theory Tracer
  imports TRE_Sync
begin

text \<open>
  The tracing runtime that \<^verbatim>\<open>scripts/generate_model.py\<close> generates: the text of a trace entry for
  a load, a store, a stall and a primitive, the logging state of the threads (open
  logs, accumulated stall cycles, trace files) and the functions the instrumented
  program calls.  The address ranges and the thread numbering come from the
  configuration and are parameters.  The lemmas show that a replay engine that reads
  an entry recovers exactly what the tracer was given.
\<close>

subsection \<open>The text of an entry\<close>

type_synonym addr_spaces = "(Addr \<times> Addr) list"

definition shouldTranslate :: "addr_spaces \<Rightarrow> Addr \<Rightarrow> bool" where
  "shouldTranslate sp a \<longleftrightarrow> (\<exists>(lo, hi) \<in> set sp. lo \<le> a \<and> a \<le> hi)"

definition checkBoundsAndTranslate :: "addr_spaces \<Rightarrow> Addr \<Rightarrow> Addr" where
  "checkBoundsAndTranslate sp a = (if \<exists>(lo, hi) \<in> set sp. lo \<le> a \<and> a \<le> hi then a else 0)"

definition to_string_int :: "int \<Rightarrow> string" where
  "to_string_int n = (if n < 0 then ''-'' @ to_string (nat (- n)) else to_string (nat n))"

definition dep_list :: "string list \<Rightarrow> string" where
  "dep_list ds = concat (map (\<lambda>d. d @ '' '') ds)"

text \<open>The common body of \<^verbatim>\<open>__LD\<close> and \<^verbatim>\<open>__ST\<close>, which differ in the token they start with.\<close>

definition access_entry :: "string \<Rightarrow> addr_spaces \<Rightarrow> Addr \<Rightarrow> Addr list \<Rightarrow> bool \<Rightarrow> int \<Rightarrow> string" where
  "access_entry tok sp addr deps blocking pc =
     (let a = checkBoundsAndTranslate sp addr in
      if a = 0 then tok
      else tok @ (if blocking then ''B'' else []) @
        (if pc \<noteq> -1 then '' @'' @ to_string_int pc @ '' '' else []) @
        toHex a @ '' ( '' @ dep_list (map (\<lambda>d. toHex (checkBoundsAndTranslate sp d)) deps) @ '' )'' @ [CHR 0x0A])"

definition LD_entry :: "addr_spaces \<Rightarrow> Addr \<Rightarrow> Addr list \<Rightarrow> bool \<Rightarrow> int \<Rightarrow> string" where
  "LD_entry = access_entry ''LD''"

definition ST_entry :: "addr_spaces \<Rightarrow> Addr \<Rightarrow> u64 \<Rightarrow> Addr list \<Rightarrow> bool \<Rightarrow> int \<Rightarrow> string" where
  "ST_entry sp addr data deps blocking pc = access_entry ''ST'' sp addr deps blocking pc"

definition STALL_entry :: "addr_spaces \<Rightarrow> u32 \<Rightarrow> Addr list \<Rightarrow> string" where
  "STALL_entry sp cycles deps =
     ''STALL '' @ to_string (unat cycles) @ '' ( '' @
     dep_list (filter (\<lambda>h. h \<noteq> ''0'') (map (\<lambda>d. toHex (checkBoundsAndTranslate sp d)) deps)) @ '')'' @ [CHR 0x0A]"

text \<open>A primitive: pointers in hexadecimal, other arguments in decimal, then the cycles the
  configuration gives it.\<close>

datatype prim_arg = PtrArg Addr | NumArg u64

definition show_arg :: "prim_arg \<Rightarrow> string" where
  "show_arg x = (case x of PtrArg a \<Rightarrow> toHex a | NumArg n \<Rightarrow> to_string (unat n))"

definition prim_entry :: "string \<Rightarrow> prim_arg list \<Rightarrow> nat \<Rightarrow> string" where
  "prim_entry tok args cycles =
     tok @ concat (map (\<lambda>x. '' '' @ show_arg x @ '' '') args) @ (if args = [] then '' '' else []) @
     to_string cycles @ [CHR 0x0A]"

subsection \<open>The logging state\<close>

text \<open>Per thread: whether its log is open and the stall cycles it has accumulated; per identifier: the
  text of its trace file.  \<open>gid\<close> is \<^verbatim>\<open>get_id\<close> and \<open>isPE\<close> the disjunction of the generated
  \<^verbatim>\<open>check_is_\<close> functions, of which at most one holds.\<close>

record rt =
  trace_bools :: "nat \<rightharpoonup> bool"
  stall_counts :: "nat \<rightharpoonup> int"
  traceFiles :: "nat \<rightharpoonup> string"

definition is_log_open :: "nat \<Rightarrow> rt \<Rightarrow> bool" where
  "is_log_open th s \<longleftrightarrow> trace_bools s th = Some True"

definition register_entry :: "nat \<Rightarrow> string \<Rightarrow> rt \<Rightarrow> rt res" where
  "register_entry i e s =
     (case traceFiles s i of
        None \<Rightarrow> Inl (Thrown ''out_of_range'')
      | Some f \<Rightarrow> Inr (s\<lparr>traceFiles := (traceFiles s)(i \<mapsto> f @ e)\<rparr>))"

definition set_stalls :: "nat \<Rightarrow> int \<Rightarrow> rt \<Rightarrow> rt" where
  "set_stalls th n s = s\<lparr>stall_counts := (stall_counts s)(th \<mapsto> n)\<rparr>"

definition stalls_of :: "nat \<Rightarrow> rt \<Rightarrow> int" where
  "stalls_of th s = (case stall_counts s th of None \<Rightarrow> 0 | Some n \<Rightarrow> n)"

definition open_trace_log :: "nat \<Rightarrow> nat \<Rightarrow> rt \<Rightarrow> rt" where
  "open_trace_log th i s =
     s\<lparr>traceFiles := (case traceFiles s i of None \<Rightarrow> (traceFiles s)(i \<mapsto> []) | Some _ \<Rightarrow> traceFiles s),
       trace_bools := (trace_bools s)(th \<mapsto> True), stall_counts := (stall_counts s)(th \<mapsto> 0)\<rparr>"

text \<open>Closing a log returns the finished text together with the state.\<close>

definition close_trace_log :: "nat \<Rightarrow> nat \<Rightarrow> rt \<Rightarrow> (string \<times> rt) res" where
  "close_trace_log th i s =
     (let s1 = (if trace_bools s th \<noteq> None then s\<lparr>trace_bools := (trace_bools s)(th \<mapsto> False)\<rparr> else s) in
      rbind (register_entry i (''EOF'' @ [CHR 0x0A]) s1) (\<lambda>s2.
        case traceFiles s2 i of
          None \<Rightarrow> Inl (Thrown ''out_of_range'')
        | Some f \<Rightarrow> Inr (f, s2\<lparr>traceFiles := (traceFiles s2)(i := None)\<rparr>)))"

definition emit_stall :: "(nat \<Rightarrow> nat) \<Rightarrow> (nat \<Rightarrow> bool) \<Rightarrow> nat \<Rightarrow> rt \<Rightarrow> rt res" where
  "emit_stall gid isPE th s =
     (let found = stall_counts s th \<noteq> None in
      if is_log_open th s then
        let stalls = stalls_of th s; s1 = set_stalls th stalls s in
        if 0 < stalls \<and> isPE (gid th)
        then rbind (register_entry (gid th) (STALL_entry [] (word_of_int stalls) []) s1) (\<lambda>s2. Inr (set_stalls th 0 s2))
        else Inr s1
      else if found then Inr (set_stalls th 0 s) else Inr s)"

definition dep_args :: "int \<Rightarrow> Addr \<Rightarrow> Addr \<Rightarrow> Addr \<Rightarrow> Addr list" where
  "dep_args n d1 d2 d3 =
     (if 0 < n then [d1] else []) @ (if 1 < n \<and> d2 \<noteq> d1 then [d2] else []) @
     (if 2 < n \<and> d3 \<noteq> d2 \<and> d3 \<noteq> d1 then [d3] else [])"

definition emit_load :: "(nat \<Rightarrow> nat) \<Rightarrow> (nat \<Rightarrow> bool) \<Rightarrow> addr_spaces \<Rightarrow> nat \<Rightarrow>
    Addr \<Rightarrow> int \<Rightarrow> int \<Rightarrow> Addr \<Rightarrow> Addr \<Rightarrow> Addr \<Rightarrow> rt \<Rightarrow> rt res" where
  "emit_load gid isPE sp th ptr pc num_deps d1 d2 d3 s =
     (if is_log_open th s \<and> shouldTranslate sp ptr \<and> isPE (gid th)
      then rbind (emit_stall gid isPE th s)
             (register_entry (gid th) (LD_entry sp ptr (dep_args num_deps d1 d2 d3) False pc))
      else Inr s)"

definition emit_store :: "(nat \<Rightarrow> nat) \<Rightarrow> (nat \<Rightarrow> bool) \<Rightarrow> addr_spaces \<Rightarrow> nat \<Rightarrow>
    Addr \<Rightarrow> u64 \<Rightarrow> int \<Rightarrow> int \<Rightarrow> Addr \<Rightarrow> Addr \<Rightarrow> Addr \<Rightarrow> rt \<Rightarrow> rt res" where
  "emit_store gid isPE sp th ptr val pc num_deps d1 d2 d3 s =
     (if is_log_open th s \<and> shouldTranslate sp ptr \<and> isPE (gid th)
      then rbind (emit_stall gid isPE th s)
             (register_entry (gid th) (ST_entry sp ptr val (dep_args num_deps d1 d2 d3) False pc))
      else Inr s)"

definition emit_stall_with_deps :: "(nat \<Rightarrow> nat) \<Rightarrow> (nat \<Rightarrow> bool) \<Rightarrow> addr_spaces \<Rightarrow> nat \<Rightarrow>
    int \<Rightarrow> int \<Rightarrow> Addr \<Rightarrow> Addr \<Rightarrow> Addr \<Rightarrow> rt \<Rightarrow> rt res" where
  "emit_stall_with_deps gid isPE sp th num_stalls num_deps d1 d2 d3 s =
     (let found = stall_counts s th \<noteq> None in
      if is_log_open th s then
        let s1 = set_stalls th (stalls_of th s) s in
        if 0 < num_stalls \<and> isPE (gid th)
        then rbind (register_entry (gid th)
               (STALL_entry sp (word_of_int num_stalls) (dep_args num_deps d1 d2 d3)) s1) (\<lambda>s2. Inr (set_stalls th 0 s2))
        else Inr s1
      else if found then Inr (set_stalls th 0 s) else Inr s)"

definition increment_stalls :: "(nat \<Rightarrow> nat) \<Rightarrow> (nat \<Rightarrow> bool) \<Rightarrow> addr_spaces \<Rightarrow> nat \<Rightarrow>
    int \<Rightarrow> int \<Rightarrow> Addr \<Rightarrow> Addr \<Rightarrow> Addr \<Rightarrow> rt \<Rightarrow> rt res" where
  "increment_stalls gid isPE sp th num_stalls num_deps d1 d2 d3 s =
     (let found = stall_counts s th \<noteq> None in
      if 0 < num_deps then
        if is_log_open th s
        then rbind (emit_stall gid isPE th s) (emit_stall_with_deps gid isPE sp th num_stalls num_deps d1 d2 d3)
        else Inr s
      else if is_log_open th s then Inr (set_stalls th (stalls_of th s + num_stalls) s)
      else if found then Inr (set_stalls th 0 s) else Inr s)"

text \<open>A traced primitive and the penalty accesses the configuration adds to it.\<close>

definition trace_prim :: "(nat \<Rightarrow> nat) \<Rightarrow> nat \<Rightarrow> string \<Rightarrow> prim_arg list \<Rightarrow> nat \<Rightarrow> nat \<Rightarrow> nat \<Rightarrow> rt \<Rightarrow> rt res" where
  "trace_prim gid th tok args cycles load_penalty store_penalty s =
     (if \<not> is_log_open th s then Inr s
      else
        let hex0 = (case args of PtrArg a # _ \<Rightarrow> toHex a | NumArg n # _ \<Rightarrow> toHex n | [] \<Rightarrow> []);
            pen = (\<lambda>k. k @ '' '' @ hex0 @ '' ( )'' @ [CHR 0x0A]) in
        register_entry (gid th)
          (prim_entry tok args cycles @ concat (replicate load_penalty (pen ''LDB'')) @
           concat (replicate store_penalty (pen ''STB''))) s)"

subsection \<open>Reading an entry back\<close>

lemma take_token_at:
  assumes "at (trace_fh t) (pre @ w @ r)" "pre = [] \<or> blank pre" "token w" "r \<noteq> []" "isspace (hd r)"
  obtains st where "take_token t = (w, t\<lparr>trace_fh := st\<rparr>)" "at st r"
  using read_token [OF assms] that by (auto simp: take_token_def)

lemma token_lits [simp]: "token ''(''" "token '')''" "token ''LD''" "token ''LDB''" "token ''ST''" "token ''STB''" "token ''STALL''"
  "token ''EOF''"
  by (simp_all add: token_def isspace_def)

lemma blank_space [simp]: "blank ('' '' @ c) \<longleftrightarrow> c = [] \<or> blank c" "blank (CHR '' '' # c) \<longleftrightarrow> c = [] \<or> blank c" "isspace CHR '' ''"
  "isspace CHR 0x0A" "blank (CHR 0x0A # c) \<longleftrightarrow> c = [] \<or> blank c"
  by (auto simp: blank_def isspace_def)

lemma toHex_not_paren: "toHex a \<noteq> '')''"
  using token_show [of 16 "unat a"] by (auto simp: toHex_def)

lemma word_of_unat [simp]: "word_of_int (int (unat (a :: Addr))) = a"
  by simp

lemma read_deps_at:
  assumes "at (trace_fh t) (pre @ dep_list (map toHex ds) @ c @ '')'' @ r)" "pre = [] \<or> blank pre" "c = [] \<or> blank c"
    "r \<noteq> []" "isspace (hd r)" "\<forall>d \<in> set ds. unat d < 2 ^ 63"
  shows "\<exists>st. read_deps blk deps t =
      Inr (blk \<or> (\<exists>d \<in> set ds. inFlight d (outstandingAddrs t)),
           deps \<union> {d \<in> set ds. inFlight d (outstandingAddrs t)}, t\<lparr>trace_fh := st\<rparr>) \<and> at st r"
  using assms
proof (induction ds arbitrary: t pre blk deps)
  case Nil
  have a: "at (trace_fh t) ((pre @ c) @ '')'' @ r)" using Nil.prems(1) by (simp add: dep_list_def)
  have "pre @ c = [] \<or> blank (pre @ c)" using Nil.prems(2,3) by (auto simp: blank_def)
  then obtain st where "take_token t = ('')'', t\<lparr>trace_fh := st\<rparr>)" "at st r"
    using take_token_at [OF a _ token_lits(2) Nil.prems(4,5)] by blast
  then show ?case by (intro exI [of _ st]) (simp add: read_deps.simps [of blk])
next
  case (Cons d ds)
  let ?r = "'' '' @ dep_list (map toHex ds) @ c @ '')'' @ r"
  have a: "at (trace_fh t) (pre @ toHex d @ ?r)" using Cons.prems(1) by (simp add: dep_list_def)
  obtain st where st: "take_token t = (toHex d, t\<lparr>trace_fh := st\<rparr>)" "at st ?r"
    using take_token_at [OF a Cons.prems(2) token_toHex] by auto
  have v: "stol 16 (toHex d) = Inr (int (unat d))" using Cons.prems(6) by (simp add: stol_toHex)
  let ?b = "blk \<or> inFlight d (outstandingAddrs t)"
  let ?D = "if inFlight d (outstandingAddrs t) then insert d deps else deps"
  have step: "read_deps blk deps t = read_deps ?b ?D (t\<lparr>trace_fh := st\<rparr>)"
    by (subst read_deps.simps) (auto simp: st(1) v toHex_not_paren Let_def)
  obtain st' where st': "read_deps ?b ?D (t\<lparr>trace_fh := st\<rparr>) =
      Inr (?b \<or> (\<exists>d \<in> set ds. inFlight d (outstandingAddrs t)),
           ?D \<union> {d \<in> set ds. inFlight d (outstandingAddrs t)}, t\<lparr>trace_fh := st'\<rparr>)" "at st' r"
    using Cons.IH [of "t\<lparr>trace_fh := st\<rparr>" "'' ''" ?b ?D] st(2) Cons.prems(3-6) by auto
  have "(?b \<or> (\<exists>d \<in> set ds. inFlight d (outstandingAddrs t))) = (blk \<or> (\<exists>d \<in> set (d # ds). inFlight d (outstandingAddrs t)))"
    "?D \<union> {d \<in> set ds. inFlight d (outstandingAddrs t)} = deps \<union> {x \<in> set (d # ds). inFlight x (outstandingAddrs t)}"
    by auto
  then show ?case unfolding step st'(1) using st'(2) by (intro exI [of _ st']) simp
qed

lemma token_at_pc: "token (CHR ''@'' # to_string n)"
  using token_to_string [of n] by (simp add: token_def isspace_def)

lemma access_pc_at:
  assumes "at (trace_fh t) (pre @ (''@'' @ to_string n) @ '' '' @ toHex a @ '' '' @ r)" "pre = [] \<or> blank pre" "n < 2 ^ 63"
  obtains w t1 st where "take_token t = (w, t1)"
    "access_pc w t1 = Inr (word_of_nat n, toHex a, t\<lparr>trace_fh := st\<rparr>)" "at st ('' '' @ r)"
proof -
  obtain s1 where s1: "take_token t = (''@'' @ to_string n, t\<lparr>trace_fh := s1\<rparr>)" "at s1 ('' '' @ toHex a @ '' '' @ r)"
    using take_token_at [OF assms(1,2)] token_at_pc [of n] by auto
  obtain s2 where s2: "take_token (t\<lparr>trace_fh := s1\<rparr>) = (toHex a, t\<lparr>trace_fh := s2\<rparr>)" "at s2 ('' '' @ r)"
    using take_token_at [of "t\<lparr>trace_fh := s1\<rparr>" "'' ''" "toHex a" "'' '' @ r"] s1(2) token_toHex by auto
  have "access_pc (''@'' @ to_string n) (t\<lparr>trace_fh := s1\<rparr>) = Inr (word_of_nat n, toHex a, t\<lparr>trace_fh := s2\<rparr>)"
    by (simp add: access_pc_def stol_to_string [OF assms(3)] s2(1))
  with s1(1) s2(2) that show thesis by blast
qed

text \<open>What blocks an access: the limit of outstanding requests, a blocking access in flight, or a listed
  dependency in flight.\<close>

definition hazard :: "tre \<Rightarrow> Addr list \<Rightarrow> bool" where
  "hazard t ds \<longleftrightarrow> unat (maxNumOutstandingAddrs t) \<le> length (outstandingAddrs t) \<or>
     blkingAccAddrInFlight t \<noteq> INVALID_PADDR \<or> (\<exists>d \<in> set ds. inFlight d (outstandingAddrs t))"

definition awaited :: "tre \<Rightarrow> Addr list \<Rightarrow> Addr set" where
  "awaited t ds = (if blkingAccAddrInFlight t \<noteq> INVALID_PADDR then {blkingAccAddrInFlight t} else {}) \<union>
     {d \<in> set ds. inFlight d (outstandingAddrs t)}"

lemma hazard_cong:
  assumes "outstandingAddrs t' = outstandingAddrs t" "maxNumOutstandingAddrs t' = maxNumOutstandingAddrs t"
  shows "hazard t' ds = hazard t ds" "awaited t' ds = awaited t ds"
  by (simp_all add: hazard_def awaited_def blkingAccAddrInFlight_def assms)

lemma access_hazards_free:
  assumes "\<not> blocked t" "bp_deps (blkPkt t) = {}"
  obtains t1 where "access_hazards a t = Inr t1" "trace_fh t1 = trace_fh t" "paddr t1 = a"
    "outstandingAddrs t1 = outstandingAddrs t" "blocked t1 = hazard t []" "bp_deps (blkPkt t1) = awaited t []"
proof -
  define t2 where "t2 = t\<lparr>paddr := a, blocked := unat (maxNumOutstandingAddrs t) \<le> length (outstandingAddrs t)\<rparr>"
  let ?d = "blkingAccAddrInFlight t"
  have b: "blkingAccAddrInFlight t2 = ?d" by (simp add: t2_def blkingAccAddrInFlight_def)
  have "access_hazards a t = block_on_blocking t2"
    using assms(1) by (cases t) (simp add: access_hazards_def t2_def Let_def)
  also have "\<dots> = Inr (if ?d \<noteq> INVALID_PADDR then set_deps True {?d} t2 else t2)"
    using assms(2) by (simp add: block_on_blocking_def b Let_def) (simp add: t2_def)
  finally show thesis by (rule that) (auto simp: set_deps_def t2_def hazard_def awaited_def assms)
qed

lemma access_deps_at:
  assumes "at (trace_fh t) ('' ( '' @ dep_list (map toHex ds) @ '' )'' @ [CHR 0x0A] @ tail)"
    "\<forall>d \<in> set ds. unat d < 2 ^ 63"
  obtains t1 where "access_deps cmd unc blk t = Inr t1" "at (trace_fh t1) ([CHR 0x0A] @ tail)" "paddr t1 = paddr t"
    "blocked t1 = (blocked t \<or> (\<exists>d \<in> set ds. inFlight d (outstandingAddrs t)))"
    "bp_deps (blkPkt t1) = bp_deps (blkPkt t) \<union> {d \<in> set ds. inFlight d (outstandingAddrs t)}"
    "blocked t1 \<longrightarrow> bp_addr (blkPkt t1) = paddr t \<and> bp_cmd (blkPkt t1) = cmd \<and>
       bp_uncacheable (blkPkt t1) = unc \<and> bp_blking (blkPkt t1) = blk"
proof -
  obtain s1 where s1: "take_token t = (''('', t\<lparr>trace_fh := s1\<rparr>)"
    "at s1 ('' '' @ dep_list (map toHex ds) @ '' '' @ '')'' @ [CHR 0x0A] @ tail)"
    using take_token_at [of t "'' ''" "''(''" "'' '' @ dep_list (map toHex ds) @ '' )'' @ [CHR 0x0A] @ tail"] assms(1) by auto
  obtain s2 where s2: "read_deps (blocked t) (bp_deps (blkPkt t)) (t\<lparr>trace_fh := s1\<rparr>) =
      Inr (blocked t \<or> (\<exists>d \<in> set ds. inFlight d (outstandingAddrs t)),
           bp_deps (blkPkt t) \<union> {d \<in> set ds. inFlight d (outstandingAddrs t)}, t\<lparr>trace_fh := s2\<rparr>)"
    "at s2 ([CHR 0x0A] @ tail)"
    using read_deps_at [of "t\<lparr>trace_fh := s1\<rparr>" "'' ''" ds "'' ''" "[CHR 0x0A] @ tail"
        "blocked t" "bp_deps (blkPkt t)"] s1(2) assms(2) by auto
  define t2 where "t2 = set_deps (blocked t \<or> (\<exists>d \<in> set ds. inFlight d (outstandingAddrs t)))
    (bp_deps (blkPkt t) \<union> {d \<in> set ds. inFlight d (outstandingAddrs t)}) (t\<lparr>trace_fh := s2\<rparr>)"
  define t3 where "t3 = (if blocked t2 then t2\<lparr>blkPkt := (blkPkt t2)\<lparr>bp_addr := paddr t2, bp_cmd := cmd,
    bp_uncacheable := unc, bp_blking := blk\<rparr>\<rparr> else t2)"
  have "access_deps cmd unc blk t = Inr (t3\<lparr>numTraceEntries := numTraceEntries t3 + 1\<rparr>)"
    by (simp add: access_deps_def s1(1) take_deps_def s2(1) Let_def flip: t2_def t3_def)
  then show thesis by (rule that) (use s2(2) in \<open>simp_all add: t3_def t2_def set_deps_def\<close>)
qed

lemma tick_access_at:
  assumes t: "at (trace_fh t) (pre @ (''@'' @ to_string n) @ '' '' @ toHex a @ '' ( '' @ dep_list (map toHex ds) @ '' )'' @ [CHR 0x0A] @ tail)"
    and pre: "pre = [] \<or> blank pre" and n: "n < 2 ^ 63" and a: "unat a < 2 ^ 63" "\<forall>d \<in> set ds. unat d < 2 ^ 63"
    and free: "\<not> blocked t" "bp_deps (blkPkt t) = {}"
    and w: "w \<in> {''LD'', ''LDB'', ''ST'', ''STB''}"
  obtains t' where
    "tick_access w t = Inr (t', (if w \<in> {''LD'', ''LDB''} then LD else ST), False, w \<in> {''LDB'', ''STB''}, word_of_nat n)"
    "at (trace_fh t') ([CHR 0x0A] @ tail)" "paddr t' = a" "blocked t' = hazard t ds" "bp_deps (blkPkt t') = awaited t ds"
    "blocked t' \<longrightarrow> bp_addr (blkPkt t') = a \<and> bp_cmd (blkPkt t') = (if w \<in> {''LD'', ''LDB''} then LD else ST) \<and>
       bp_blking (blkPkt t') = (w \<in> {''LDB'', ''STB''})"
proof -
  define t1 where "t1 = (if w \<in> set [''LDB'', ''LDUB'', ''STB'', ''STUB'']
      then t\<lparr>numBlkingAccesses := numBlkingAccesses t + 1\<rparr> else t)"
  have e: "trace_fh t1 = trace_fh t" "blocked t1 = blocked t" "blkPkt t1 = blkPkt t"
    "maxNumOutstandingAddrs t1 = maxNumOutstandingAddrs t" "outstandingAddrs t1 = outstandingAddrs t"
    by (simp_all add: t1_def)
  have t': "at (trace_fh t1) (pre @ (''@'' @ to_string n) @ '' '' @ toHex a @ '' '' @ (''( '' @ dep_list (map toHex ds) @ '' )'' @ [CHR 0x0A] @ tail))"
    using t by (simp add: e)
  obtain w1 t2 st where 1: "take_token t1 = (w1, t2)" "access_pc w1 t2 = Inr (word_of_nat n, toHex a, t1\<lparr>trace_fh := st\<rparr>)"
    "at st ('' '' @ ''( '' @ dep_list (map toHex ds) @ '' )'' @ [CHR 0x0A] @ tail)"
    by (rule access_pc_at [OF t' pre n])
  let ?u = "t1\<lparr>trace_fh := st\<rparr>"
  have u: "\<not> blocked ?u" "bp_deps (blkPkt ?u) = {}" using free by (simp_all add: e)
  have eu: "hazard ?u [] = hazard t []" "awaited ?u [] = awaited t []"
    by (rule hazard_cong; simp add: e)+
  obtain t3 where 3: "access_hazards a ?u = Inr t3" "trace_fh t3 = trace_fh ?u" "paddr t3 = a"
    "outstandingAddrs t3 = outstandingAddrs ?u" "blocked t3 = hazard ?u []" "bp_deps (blkPkt t3) = awaited ?u []"
    by (rule access_hazards_free [OF u])
  have 3: "access_hazards a ?u = Inr t3" "trace_fh t3 = st" "paddr t3 = a" "outstandingAddrs t3 = outstandingAddrs t"
    "blocked t3 = hazard t []" "bp_deps (blkPkt t3) = awaited t []"
    using 3 e(5) unfolding eu by simp_all
  have at3: "at (trace_fh t3) ('' ( '' @ dep_list (map toHex ds) @ '' )'' @ [CHR 0x0A] @ tail)" using 1(3) 3(2) by simp
  obtain t4 where 4: "access_deps (if w \<in> {''LD'', ''LDB''} then LD else ST) False (w \<in> {''LDB'', ''STB''}) t3 = Inr t4"
    "at (trace_fh t4) ([CHR 0x0A] @ tail)" "paddr t4 = a"
    "blocked t4 = (hazard t [] \<or> (\<exists>d \<in> set ds. inFlight d (outstandingAddrs t)))"
    "bp_deps (blkPkt t4) = awaited t [] \<union> {d \<in> set ds. inFlight d (outstandingAddrs t)}"
    "blocked t4 \<longrightarrow> bp_addr (blkPkt t4) = a \<and> bp_cmd (blkPkt t4) = (if w \<in> {''LD'', ''LDB''} then LD else ST) \<and>
       bp_uncacheable (blkPkt t4) = False \<and> bp_blking (blkPkt t4) = (w \<in> {''LDB'', ''STB''})"
    by (rule access_deps_at [OF at3 a(2), of "if w \<in> {''LD'', ''LDB''} then LD else ST" False "w \<in> {''LDB'', ''STB''}"])
      (simp only: 3)
  have v: "stol 16 (toHex a) = Inr (int (unat a))" by (rule stol_toHex [OF a(1)])
  have k: "w \<in> set load_tokens \<longleftrightarrow> w \<in> {''LD'', ''LDB''}" "w \<in> set [''LDB'', ''LDUB'', ''STB'', ''STUB''] \<longleftrightarrow> w \<in> {''LDB'', ''STB''}"
    "w \<in> set [''LDU'', ''LDUB'', ''STU'', ''STUB''] \<longleftrightarrow> False"
    using w by (auto simp: load_tokens_def)
  have A: "tick_access w t = Inr (t4, (if w \<in> {''LD'', ''LDB''} then LD else ST), False, w \<in> {''LDB'', ''STB''}, word_of_nat n)"
    unfolding tick_access_def Let_def t1_def [symmetric] 1(1)
    by (simp only: k 1(2) 3(1) 4(1) v rbind_simps prod.case word_of_unat)
  have B: "hazard t ds = (hazard t [] \<or> (\<exists>d \<in> set ds. inFlight d (outstandingAddrs t)))"
    "awaited t ds = awaited t [] \<union> {d \<in> set ds. inFlight d (outstandingAddrs t)}"
    by (auto simp: hazard_def awaited_def)
  show thesis
    by (rule that [OF A 4(2,3)]) (use 4(4-6) B in \<open>blast+\<close>)
qed

text \<open>C3: A load or store the tracer writes is the load or store the replay engine issues: reading the entry
  gives the address, the kind, the blocking flag and the virtual program counter it was written with,
  consumes exactly the entry, and blocks the access exactly when the limit of outstanding requests is
  reached, a blocking access is in flight or one of the listed dependencies is; the recorded
  dependencies are the ones in flight.\<close>

theorem access_roundtrip:
  assumes "tok \<in> {''LD'', ''ST''}" and "shouldTranslate sp a" and "a \<noteq> 0" and "unat a < 2 ^ 63" and "0 \<le> pc"
    and "pc < 2 ^ 31" and "\<forall>d \<in> set deps. unat d < 2 ^ 63" and "pre = [] \<or> blank pre"
    and "at (trace_fh t) (pre @ access_entry tok sp a deps blocking pc @ tail)"
    and "\<not> blocked t" and "bp_deps (blkPkt t) = {}"
  shows "\<exists>t1 t2. take_token t = (tok @ (if blocking then ''B'' else []), t1) \<and>
    tick_access (tok @ (if blocking then ''B'' else [])) t1 =
      Inr (t2, (if tok = ''LD'' then LD else ST), False, blocking, word_of_int pc) \<and>
    paddr t2 = a \<and> at (trace_fh t2) ([CHR 0x0A] @ tail) \<and>
    blocked t2 = hazard t (map (checkBoundsAndTranslate sp) deps) \<and>
    bp_deps (blkPkt t2) = awaited t (map (checkBoundsAndTranslate sp) deps) \<and>
    (blocked t2 \<longrightarrow> bp_addr (blkPkt t2) = a \<and> bp_cmd (blkPkt t2) = (if tok = ''LD'' then LD else ST) \<and>
      bp_blking (blkPkt t2) = blocking)"
proof -
  let ?w = "tok @ (if blocking then ''B'' else [])" and ?ds = "map (checkBoundsAndTranslate sp) deps"
  let ?r = "(''@'' @ to_string (nat pc)) @ '' '' @ toHex a @ '' ( '' @ dep_list (map toHex ?ds) @ '' )'' @ [CHR 0x0A] @ tail"
  have w: "?w \<in> {''LD'', ''LDB'', ''ST'', ''STB''}" "token ?w"
    "(?w \<in> {''LD'', ''LDB''}) = (tok = ''LD'')" "(?w \<in> {''LDB'', ''STB''}) = blocking"
    using assms(1) by (auto simp: token_def isspace_def)
  have tr: "checkBoundsAndTranslate sp a = a" using assms(2) by (simp add: checkBoundsAndTranslate_def shouldTranslate_def)
  have e: "access_entry tok sp a deps blocking pc @ tail = ?w @ '' '' @ ?r"
    using assms(3,5) by (simp add: access_entry_def tr Let_def to_string_int_def comp_def)
  obtain st where st: "take_token t = (?w, t\<lparr>trace_fh := st\<rparr>)" "at st ('' '' @ ?r)"
    by (rule take_token_at [OF assms(9) [unfolded e] assms(8) w(2)]) simp_all
  have b: "\<forall>d \<in> set ?ds. unat d < 2 ^ 63" "nat pc < 2 ^ 63" "at (trace_fh (t\<lparr>trace_fh := st\<rparr>)) ('' '' @ ?r)"
    "'' '' = [] \<or> blank '' ''" "\<not> blocked (t\<lparr>trace_fh := st\<rparr>)" "bp_deps (blkPkt (t\<lparr>trace_fh := st\<rparr>)) = {}"
    using assms(5-7,10,11) st(2) by (auto simp: checkBoundsAndTranslate_def blank_def isspace_def)
  have h: "hazard (t\<lparr>trace_fh := st\<rparr>) ?ds = hazard t ?ds" "awaited (t\<lparr>trace_fh := st\<rparr>) ?ds = awaited t ?ds"
    by (rule hazard_cong; simp)+
  have pc: "word_of_nat (nat pc) = (word_of_int pc :: Addr)" using assms(5) by (rule of_nat_nat)
  obtain t2 where t2: "tick_access ?w (t\<lparr>trace_fh := st\<rparr>) =
      Inr (t2, (if ?w \<in> {''LD'', ''LDB''} then LD else ST), False, ?w \<in> {''LDB'', ''STB''}, word_of_nat (nat pc))"
    "at (trace_fh t2) ([CHR 0x0A] @ tail)" "paddr t2 = a" "blocked t2 = hazard (t\<lparr>trace_fh := st\<rparr>) ?ds"
    "bp_deps (blkPkt t2) = awaited (t\<lparr>trace_fh := st\<rparr>) ?ds"
    "blocked t2 \<longrightarrow> bp_addr (blkPkt t2) = a \<and> bp_cmd (blkPkt t2) = (if ?w \<in> {''LD'', ''LDB''} then LD else ST) \<and>
       bp_blking (blkPkt t2) = (?w \<in> {''LDB'', ''STB''})"
    by (rule tick_access_at [OF b(3,4,2) assms(4) b(1,5,6) w(1)])
  show ?thesis
    by (intro exI [of _ "t\<lparr>trace_fh := st\<rparr>"] exI [of _ t2]) (use st(1) t2 [unfolded w(3,4) pc h] in blast)
qed

theorem access_roundtrip_witness:
  "\<exists>t t1 t2. at (trace_fh t) (access_entry ''LD'' [(0, 100)] 16 [32] True 7 @ ''EOF '') \<and>
    take_token t = (''LDB'', t1) \<and> tick_access ''LDB'' t1 = Inr (t2, LD, False, True, 7) \<and> paddr t2 = 16 \<and>
    blocked t2 = hazard t [32]"
proof -
  let ?e = "access_entry ''LD'' [(0, 100)] 16 [32] True 7"
  let ?t = "new_tre demo_params (open_stream (?e @ ''EOF ''))"
  have a: "at (trace_fh ?t) ([] @ ?e @ ''EOF '')" "\<not> blocked ?t" "bp_deps (blkPkt ?t) = {}"
    by (simp_all add: new_tre_def open_stream_def at_def unread_def)
  have c: "shouldTranslate [(0, 100)] 16" "map (checkBoundsAndTranslate [(0, 100)]) [32] = [32]"
    by (simp_all add: shouldTranslate_def checkBoundsAndTranslate_def)
  have p: "''LD'' \<in> {''LD'', ''ST''}" "(16 :: Addr) \<noteq> 0" "unat (16 :: Addr) < 2 ^ 63" "(0 :: int) \<le> 7" "(7 :: int) < 2 ^ 31"
    "\<forall>d \<in> set [32 :: Addr]. unat d < 2 ^ 63" "[] = [] \<or> blank []" by simp_all
  from access_roundtrip [OF p(1) c(1) p(2-7) a] obtain t1 t2 where
    "take_token ?t = (''LDB'', t1)" "tick_access ''LDB'' t1 = Inr (t2, LD, False, True, 7)" "paddr t2 = 16"
    "blocked t2 = hazard ?t [32]" unfolding c(2) by auto
  then show ?thesis using a(1) by (intro exI [of _ ?t] exI [of _ t1] exI [of _ t2]) simp
qed

text \<open>The same for a stall.\<close>

lemma dep_list_filter_hex:
  "dep_list (filter (\<lambda>h. h \<noteq> ''0'') (map (\<lambda>d. toHex (checkBoundsAndTranslate sp d)) deps)) =
     dep_list (map toHex (filter (\<lambda>d. d \<noteq> 0) (map (checkBoundsAndTranslate sp) deps)))"
proof -
  have "toHex a = ''0'' \<longleftrightarrow> a = 0" for a by (simp add: toHex_def)
  then show ?thesis by (induction deps) (auto simp: dep_list_def)
qed

lemma token_append: "token u \<Longrightarrow> (\<forall>c \<in> set v. \<not> isspace c) \<Longrightarrow> token (u @ v)"
  by (auto simp: token_def)

text \<open>C12: An access traced without a program counter cannot be replayed: with \<^verbatim>\<open>pc == -1\<close> the tracer
  writes no separator between the token and the address, and the replay engine, which reads them as one
  word, stops with a fatal error.\<close>

theorem entry_without_pc_rejected:
  assumes "tok \<in> {''LD'', ''ST''}" and "shouldTranslate sp a" and "a \<noteq> 0" and "pre = [] \<or> blank pre"
    and "at (trace_fh t) (pre @ access_entry tok sp a deps blocking (-1) @ tail)"
  shows "\<exists>w t1. take_token t = (w, t1) \<and> tick_entry E w i s = Inl (Fatal ''Invalid token read'')"
proof -
  let ?w = "(tok @ (if blocking then ''B'' else [])) @ toHex a"
  let ?r = "'' ( '' @ dep_list (map (\<lambda>d. toHex (checkBoundsAndTranslate sp d)) deps) @ '' )'' @ [CHR 0x0A] @ tail"
  have tr: "checkBoundsAndTranslate sp a = a" using assms(2) by (simp add: checkBoundsAndTranslate_def shouldTranslate_def)
  have e: "access_entry tok sp a deps blocking (-1) @ tail = ?w @ ?r"
    using assms(3) by (simp add: access_entry_def tr Let_def)
  have k: "token (tok @ (if blocking then ''B'' else []))" using assms(1) by (auto simp: token_def isspace_def)
  have x: "\<forall>c \<in> set (toHex a). \<not> isspace c" using token_toHex [of a] by (simp add: token_def)
  obtain st where st: "take_token t = (?w, t\<lparr>trace_fh := st\<rparr>)"
    by (rule take_token_at [OF assms(5) [unfolded e] assms(4) token_append [OF k x]]) simp_all
  have h: "toHex a = CHR ''0'' # CHR ''x'' # show_base 16 (unat a)" using assms(3) by (simp add: toHex_def)
  have "tick_entry E ?w i s = Inl (Fatal ''Invalid token read'')"
    using assms(1) unfolding h tick_entry_def access_tokens_def load_tokens_def by (cases blocking) auto
  then show ?thesis by (intro exI [of _ ?w] exI [of _ "t\<lparr>trace_fh := st\<rparr>"] conjI st)
qed

theorem entry_without_pc_rejected_witness:
  "\<exists>w t1. take_token (new_tre demo_params (open_stream (access_entry ''LD'' [(0, 100)] 16 [] False (-1) @ ''EOF ''))) = (w, t1) \<and>
    tick_entry demo_env w 0 empty_sys = Inl (Fatal ''Invalid token read'')"
proof -
  let ?e = "access_entry ''LD'' [(0, 100)] 16 [] False (-1)"
  have a: "at (trace_fh (new_tre demo_params (open_stream (?e @ ''EOF '')))) ([] @ ?e @ ''EOF '')"
    by (simp add: new_tre_def open_stream_def at_def unread_def)
  have c: "''LD'' \<in> {''LD'', ''ST''}" "shouldTranslate [(0, 100)] 16" "(16 :: Addr) \<noteq> 0" "[] = [] \<or> blank []"
    by (simp_all add: shouldTranslate_def)
  show ?thesis by (rule entry_without_pc_rejected [OF c a])
qed

lemma take_deps_at:
  assumes "at (trace_fh t) (pre @ dep_list (map toHex ds) @ c @ '')'' @ r)" "pre = [] \<or> blank pre" "c = [] \<or> blank c"
    "r \<noteq> []" "isspace (hd r)" "\<forall>d \<in> set ds. unat d < 2 ^ 63"
  obtains st where "at st r" "take_deps t = Inr (set_deps (blocked t \<or> (\<exists>d \<in> set ds. inFlight d (outstandingAddrs t)))
      (bp_deps (blkPkt t) \<union> {d \<in> set ds. inFlight d (outstandingAddrs t)}) (t\<lparr>trace_fh := st\<rparr>))"
  using read_deps_at [OF assms, of "blocked t" "bp_deps (blkPkt t)"] that by (auto simp: take_deps_def)

text \<open>The stall entry up to its dependency list.\<close>

lemma tick_stall_at:
  assumes t: "at (trace_fh t) (pre @ to_string (unat c) @ '' ( '' @ dep_list (map toHex ds) @ '')'' @ [CHR 0x0A] @ tail)"
    and pre: "pre = [] \<or> blank pre" and d: "\<forall>d \<in> set ds. unat d < 2 ^ 63"
  obtains t1 where "tick_stall ''STALL'' t = rbind (stall_deps False t1) (\<lambda>t4. Inr (t4, STALL, False, False, -1))"
    "at (trace_fh t1) ('' '' @ dep_list (map toHex ds) @ '')'' @ [CHR 0x0A] @ tail)" "tdata t1 = (c :: u32)" "lite t1 = lite t"
proof -
  let ?r1 = "'' ( '' @ dep_list (map toHex ds) @ '')'' @ [CHR 0x0A] @ tail"
  obtain s1 where s1: "take_token t = (to_string (unat c), t\<lparr>trace_fh := s1\<rparr>)" "at s1 ?r1"
    by (rule take_token_at [OF t pre token_to_string]) simp_all
  have "unat c < 2 ^ 63" using unsigned_less [of c, where ?'a = nat] by simp
  then have v: "take_long 10 t = Inr (int (unat c), t\<lparr>trace_fh := s1\<rparr>)"
    by (simp add: take_long_def s1(1) stol_to_string)
  let ?u = "t\<lparr>trace_fh := s1, tdata := c\<rparr>"
  obtain s2 where s2: "take_token ?u = (''('', ?u\<lparr>trace_fh := s2\<rparr>)"
    "at s2 ('' '' @ dep_list (map toHex ds) @ '')'' @ [CHR 0x0A] @ tail)"
    using take_token_at [of ?u "'' ''" "''(''" "'' '' @ dep_list (map toHex ds) @ '')'' @ [CHR 0x0A] @ tail"] s1(2) by auto
  have "tick_stall ''STALL'' t = rbind (stall_deps False (?u\<lparr>trace_fh := s2\<rparr>)) (\<lambda>t4. Inr (t4, STALL, False, False, -1))"
    by (simp add: tick_stall_def v s2(1) Let_def)
  then show thesis by (rule that) (use s2(2) in \<open>simp_all add: lite_def\<close>)
qed

text \<open>C11: A stall that lists a dependency in flight while a blocking access is in flight trips an assertion:
  the dependencies are collected first, and the test for a blocking access then requires that none was
  collected.  A load that blocks, followed by a stall that depends on it, is such a trace.\<close>

theorem stall_after_blocking_access:
  assumes "at (trace_fh t) ('' '' @ to_string (unat (c :: u32)) @ '' ( '' @ dep_list (map toHex ds) @ '')'' @ [CHR 0x0A] @ tail)"
    and "\<forall>d \<in> set ds. unat d < 2 ^ 63"
    and "\<exists>d \<in> set ds. inFlight d (outstandingAddrs t)" and "blkingAccAddrInFlight t \<noteq> INVALID_PADDR"
  shows "tick_stall ''STALL'' t = Inl (AssertFail ''blockedPkt.deps.empty()'')"
proof -
  obtain t1 where t1: "tick_stall ''STALL'' t = rbind (stall_deps False t1) (\<lambda>t4. Inr (t4, STALL, False, False, -1))"
    "at (trace_fh t1) ('' '' @ dep_list (map toHex ds) @ [] @ '')'' @ [CHR 0x0A] @ tail)" "tdata t1 = c" "lite t1 = lite t"
    using tick_stall_at [OF assms(1) _ assms(2)] by auto
  have o: "outstandingAddrs t1 = outstandingAddrs t" using t1(4) by (simp add: lite_def)
  let ?b = "blocked t1 \<or> (\<exists>d \<in> set ds. inFlight d (outstandingAddrs t1))"
  let ?D = "bp_deps (blkPkt t1) \<union> {d \<in> set ds. inFlight d (outstandingAddrs t1)}"
  obtain st where d: "take_deps t1 = Inr (set_deps ?b ?D (t1\<lparr>trace_fh := st\<rparr>))"
    by (rule take_deps_at [OF t1(2) _ _ _ _ assms(2)]) auto
  define t2 where "t2 = set_deps ?b ?D (t1\<lparr>trace_fh := st\<rparr>)"
  have "bp_deps (blkPkt t2) \<noteq> {}" using assms(3) by (auto simp: o t2_def set_deps_def)
  moreover have "blkingAccAddrInFlight t2 \<noteq> INVALID_PADDR"
    using assms(4) by (simp add: blkingAccAddrInFlight_def t2_def set_deps_def o)
  ultimately have "block_on_blocking t2 = Inl (AssertFail ''blockedPkt.deps.empty()'')"
    by (simp add: block_on_blocking_def Let_def)
  then show ?thesis using d unfolding t1(1) stall_deps_def t2_def [symmetric] by simp
qed

theorem stall_after_blocking_access_witness:
  "\<exists>t. outstandingAddrs t = [(16, True)] \<and> tick_stall ''STALL'' t = Inl (AssertFail ''blockedPkt.deps.empty()'')"
proof -
  let ?e = "'' '' @ to_string (unat (3 :: u32)) @ '' ( '' @ dep_list (map toHex [16]) @ '')'' @ [CHR 0x0A] @ ''EOF ''"
  let ?t = "(new_tre demo_params (open_stream ?e))\<lparr>outstandingAddrs := [(16, True)]\<rparr>"
  have a: "at (trace_fh ?t) ?e" by (simp add: new_tre_def open_stream_def at_def unread_def)
  have c: "\<forall>d \<in> set [16 :: Addr]. unat d < 2 ^ 63" "\<exists>d \<in> set [16]. inFlight d (outstandingAddrs ?t)"
    "blkingAccAddrInFlight ?t \<noteq> INVALID_PADDR"
    by (simp_all add: inFlight_def blkingAccAddrInFlight_def INVALID_PADDR_def)
  show ?thesis by (intro exI [of _ ?t] conjI stall_after_blocking_access [OF a c]) simp
qed

text \<open>C8: A stall the tracer writes is the stall the engine performs when no blocking access is in flight:
  the cycle count is the one written, the entry is consumed, and the stall waits exactly for the listed
  dependencies that are in flight (null dependencies are not listed).\<close>

theorem stall_roundtrip:
  assumes "pre = [] \<or> blank pre" and "at (trace_fh t) (pre @ STALL_entry sp c deps @ tail)"
    and "\<forall>d \<in> set deps. unat d < 2 ^ 63" and "\<not> blocked t" and "bp_deps (blkPkt t) = {}"
    and "blkingAccAddrInFlight t = INVALID_PADDR"
    and "D = {d \<in> checkBoundsAndTranslate sp ` set deps. d \<noteq> 0 \<and> inFlight d (outstandingAddrs t)}"
  shows "\<exists>t1 t2. take_token t = (''STALL'', t1) \<and>
    tick_stall ''STALL'' t1 = Inr (t2, STALL, False, False, -1) \<and> tdata t2 = c \<and>
    at (trace_fh t2) ([CHR 0x0A] @ tail) \<and> blocked t2 = (D \<noteq> {}) \<and> bp_deps (blkPkt t2) = D \<and>
    (blocked t2 \<longrightarrow> bp_cmd (blkPkt t2) = STALL \<and> bp_data (blkPkt t2) = c \<and> \<not> bp_blking (blkPkt t2))"
proof -
  let ?ds = "filter (\<lambda>d. d \<noteq> 0) (map (checkBoundsAndTranslate sp) deps)"
  have ds: "\<forall>d \<in> set ?ds. unat d < 2 ^ 63" using assms(3) by (auto simp: checkBoundsAndTranslate_def)
  have e: "STALL_entry sp c deps @ tail =
      ''STALL'' @ '' '' @ to_string (unat c) @ '' ( '' @ dep_list (map toHex ?ds) @ '')'' @ [CHR 0x0A] @ tail"
    by (simp add: STALL_entry_def dep_list_filter_hex)
  obtain st where st: "take_token t = (''STALL'', t\<lparr>trace_fh := st\<rparr>)"
    "at st ('' '' @ to_string (unat c) @ '' ( '' @ dep_list (map toHex ?ds) @ '')'' @ [CHR 0x0A] @ tail)"
    by (rule take_token_at [OF assms(2) [unfolded e] assms(1)]) simp_all
  obtain t1 where t1: "tick_stall ''STALL'' (t\<lparr>trace_fh := st\<rparr>) = rbind (stall_deps False t1) (\<lambda>t4. Inr (t4, STALL, False, False, -1))"
    "at (trace_fh t1) ('' '' @ dep_list (map toHex ?ds) @ [] @ '')'' @ [CHR 0x0A] @ tail)" "tdata t1 = c"
    "lite t1 = lite (t\<lparr>trace_fh := st\<rparr>)"
    using tick_stall_at [of "t\<lparr>trace_fh := st\<rparr>" "'' ''" c ?ds tail] st(2) ds by auto
  have o: "outstandingAddrs t1 = outstandingAddrs t" "\<not> blocked t1" "bp_deps (blkPkt t1) = {}"
    using t1(4) assms(4,5) by (auto simp: lite_def)
  have D: "{d \<in> set ?ds. inFlight d (outstandingAddrs t)} = D" "(\<exists>d \<in> set ?ds. inFlight d (outstandingAddrs t)) = (D \<noteq> {})"
    by (auto simp: assms(7))
  obtain s2 where s2: "at s2 ([CHR 0x0A] @ tail)" "take_deps t1 = Inr (set_deps (blocked t1 \<or>
      (\<exists>d \<in> set ?ds. inFlight d (outstandingAddrs t1))) (bp_deps (blkPkt t1) \<union> {d \<in> set ?ds. inFlight d (outstandingAddrs t1)})
      (t1\<lparr>trace_fh := s2\<rparr>))"
    by (rule take_deps_at [OF t1(2) _ _ _ _ ds]) auto
  define t2 where "t2 = set_deps (D \<noteq> {}) D (t1\<lparr>trace_fh := s2\<rparr>)"
  have t2: "take_deps t1 = Inr t2" using s2(2) o(2,3) unfolding o(1) D t2_def by simp
  have b: "block_on_blocking t2 = Inr t2"
    using assms(6) by (simp add: block_on_blocking_def Let_def t2_def set_deps_def blkingAccAddrInFlight_def o)
  let ?t3 = "if D \<noteq> {} then t2\<lparr>blkPkt := (blkPkt t2)\<lparr>bp_cmd := STALL, bp_data := tdata t2, bp_blking := False\<rparr>\<rparr> else t2"
  let ?t4 = "?t3\<lparr>numStalls := numStalls ?t3 + unat (tdata ?t3), numTraceEntries := numTraceEntries ?t3 + unat (tdata ?t3)\<rparr>"
  have f: "blocked t2 = (D \<noteq> {})" "bp_deps (blkPkt t2) = D" "tdata t2 = c" "trace_fh t2 = s2"
    by (simp_all add: t2_def set_deps_def t1(3))
  have "stall_deps False t1 = Inr ?t4" by (simp add: stall_deps_def t2 b f)
  then have "tick_stall ''STALL'' (t\<lparr>trace_fh := st\<rparr>) = Inr (?t4, STALL, False, False, -1)" by (simp add: t1(1))
  then show ?thesis
    by (intro exI [of _ "t\<lparr>trace_fh := st\<rparr>"] exI [of _ ?t4]) (use st(1) s2(1) f in simp)
qed

theorem stall_roundtrip_witness:
  "\<exists>t t1 t2. outstandingAddrs t = [(16, False)] \<and> take_token t = (''STALL'', t1) \<and>
    tick_stall ''STALL'' t1 = Inr (t2, STALL, False, False, -1) \<and> tdata t2 = 3 \<and> blocked t2 \<and> bp_deps (blkPkt t2) = {16}"
proof -
  let ?e = "STALL_entry [(0, 100)] 3 [16, 200]"
  let ?t = "(new_tre demo_params (open_stream (?e @ ''EOF '')))\<lparr>outstandingAddrs := [(16, False)]\<rparr>"
  have a: "at (trace_fh ?t) ([] @ ?e @ ''EOF '')" "\<not> blocked ?t" "bp_deps (blkPkt ?t) = {}"
    "blkingAccAddrInFlight ?t = INVALID_PADDR"
    by (simp_all add: new_tre_def open_stream_def at_def unread_def blkingAccAddrInFlight_def)
  have d: "\<forall>d \<in> set [16, 200 :: Addr]. unat d < 2 ^ 63" "[] = [] \<or> blank []"
    "{16} = {d \<in> checkBoundsAndTranslate [(0, 100)] ` set [16, 200]. d \<noteq> 0 \<and> inFlight d (outstandingAddrs ?t)}"
    by (auto simp: checkBoundsAndTranslate_def inFlight_def)
  from stall_roundtrip [OF d(2) a(1) d(1) a(2-4) d(3)] obtain t1 t2 where "take_token ?t = (''STALL'', t1)"
    "tick_stall ''STALL'' t1 = Inr (t2, STALL, False, False, -1)" "tdata t2 = 3" "blocked t2" "bp_deps (blkPkt t2) = {16}" by auto
  then show ?thesis by (intro exI [of _ ?t] exI [of _ t1] exI [of _ t2]) simp
qed

end
