(* ===== verification/Sat_Counter.thy ===== *)
theory Sat_Counter
  imports Bitfield
begin

text \<open>
  The saturating counter of \<^verbatim>\<open>gem5/src/base/sat_counter.hh\<close>: an 8-bit value between zero and a
  maximum of at most eight bits.  Increment, decrement, addition and subtraction are
  shown to be exact arithmetic clamped to the range.
\<close>

unbundle bit_operations_syntax

subsection \<open>Operations\<close>

record SatCounter =
  initialVal :: u8
  maxVal :: u8
  counter :: u8

definition new_SatCounter :: "nat \<Rightarrow> u8 \<Rightarrow> SatCounter res" where
  "new_SatCounter nbits initial_val =
     (let m = push_bit nbits 1 - 1 in
      require (nbits \<le> 8) (Fatal ''Number of bits exceeds counter size'')
      (require (initial_val \<le> m) (Fatal ''Initial value exceeds max value'')
       (Inr \<lparr>initialVal = initial_val, maxVal = m, counter = initial_val\<rparr>)))"

definition incr :: "SatCounter \<Rightarrow> SatCounter" where
  "incr c = (if counter c < maxVal c then c\<lparr>counter := counter c + 1\<rparr> else c)"

definition decr :: "SatCounter \<Rightarrow> SatCounter" where
  "decr c = (if counter c > 0 then c\<lparr>counter := counter c - 1\<rparr> else c)"

definition post_incr :: "SatCounter \<Rightarrow> SatCounter \<times> SatCounter" where
  "post_incr c = (c, incr c)"

definition post_decr :: "SatCounter \<Rightarrow> SatCounter \<times> SatCounter" where
  "post_decr c = (c, decr c)"

definition shift_right :: "int \<Rightarrow> SatCounter \<Rightarrow> SatCounter res" where
  "shift_right n c = require (0 \<le> n) (AssertFail ''shift >= 0'') (Inr (c\<lparr>counter := drop_bit (nat n) (counter c)\<rparr>))"

definition shift_left :: "int \<Rightarrow> SatCounter \<Rightarrow> SatCounter res" where
  "shift_left n c =
     require (0 \<le> n) (AssertFail ''shift >= 0'')
     (let v = push_bit (nat n) (counter c) in
      Inr (c\<lparr>counter := (if v > maxVal c then maxVal c else v)\<rparr>))"

text \<open>\<^verbatim>\<open>operator+=\<close> and \<^verbatim>\<open>operator-=\<close>, which call each other with the opposite sign, so that only
  their parts for a value that is not negative do the work.\<close>

definition add_pos :: "int \<Rightarrow> SatCounter \<Rightarrow> SatCounter" where
  "add_pos v c =
     (if uint (maxVal c) - uint (counter c) \<ge> v then c\<lparr>counter := counter c + word_of_int v\<rparr>
      else c\<lparr>counter := maxVal c\<rparr>)"

definition sub_pos :: "int \<Rightarrow> SatCounter \<Rightarrow> SatCounter" where
  "sub_pos v c =
     (if uint (counter c) > v then c\<lparr>counter := counter c - word_of_int v\<rparr> else c\<lparr>counter := 0\<rparr>)"

definition add_assign :: "int \<Rightarrow> SatCounter \<Rightarrow> SatCounter" where
  "add_assign v c = (if 0 \<le> v then add_pos v c else sub_pos (- v) c)"

definition sub_assign :: "int \<Rightarrow> SatCounter \<Rightarrow> SatCounter" where
  "sub_assign v c = (if 0 \<le> v then sub_pos v c else add_pos (- v) c)"

definition sc_reset :: "SatCounter \<Rightarrow> SatCounter" where
  "sc_reset c = c\<lparr>counter := initialVal c\<rparr>"

definition isSaturated :: "SatCounter \<Rightarrow> bool" where
  "isSaturated c \<longleftrightarrow> counter c = maxVal c"

definition saturate :: "SatCounter \<Rightarrow> u8 \<times> SatCounter" where
  "saturate c = (maxVal c - counter c, c\<lparr>counter := maxVal c\<rparr>)"

definition sc_swap :: "SatCounter \<Rightarrow> SatCounter \<Rightarrow> SatCounter \<times> SatCounter" where
  "sc_swap a b = (b, a)"

text \<open>A move leaves a counter of no bits in the object moved from.\<close>

definition move :: "SatCounter \<Rightarrow> (SatCounter \<times> SatCounter) res" where
  "move other = rbind (new_SatCounter 0 0) (\<lambda>t. Inr (other, fst (sc_swap other t)))"

subsection \<open>The invariant\<close>

definition sat_ok :: "SatCounter \<Rightarrow> bool" where
  "sat_ok c \<longleftrightarrow> counter c \<le> maxVal c \<and> initialVal c \<le> maxVal c"

lemma new_SatCounter_ok: "new_SatCounter n i = Inr c \<Longrightarrow> sat_ok c"
  by (auto simp: new_SatCounter_def sat_ok_def Let_def)

lemma new_SatCounter_max:
  "new_SatCounter n i = Inr c \<Longrightarrow> n \<le> 8 \<and> unat (maxVal c) = 2 ^ n - 1 \<and> counter c = i"
proof -
  assume c: "new_SatCounter n i = Inr c"
  then have n: "n \<le> 8" and m: "maxVal c = push_bit n 1 - 1" and i: "counter c = i"
    by (auto simp: new_SatCounter_def Let_def)
  from n have "n \<in> {0, 1, 2, 3, 4, 5, 6, 7, 8}" by auto
  then have "unat (maxVal c) = 2 ^ n - 1" unfolding m by (elim insertE emptyE) simp_all
  with n i show ?thesis by simp
qed

lemma unat_incr: "sat_ok c \<Longrightarrow> unat (counter (incr c)) = min (unat (maxVal c)) (unat (counter c) + 1)"
proof -
  assume "sat_ok c"
  then have le: "unat (counter c) \<le> unat (maxVal c)" by (simp add: sat_ok_def word_le_nat_alt)
  show ?thesis
  proof (cases "counter c < maxVal c")
    case True
    then have "unat (counter c) < unat (maxVal c)" by (simp add: word_less_nat_alt)
    moreover have "unat (maxVal c) < 2 ^ 8" using unsigned_less [of "maxVal c", where ?'a = nat] by simp
    ultimately have "unat (counter c + 1) = unat (counter c) + 1" by (simp add: unat_word_ariths)
    with True le show ?thesis by (simp add: incr_def word_less_nat_alt)
  next
    case False
    with le show ?thesis by (simp add: incr_def word_less_nat_alt)
  qed
qed

lemma unat_decr: "unat (counter (decr c)) = unat (counter c) - 1"
  by (auto simp: decr_def unat_sub_if' word_less_nat_alt)

lemma incr_fields [simp]: "maxVal (incr c) = maxVal c" "initialVal (incr c) = initialVal c"
  "maxVal (decr c) = maxVal c" "initialVal (decr c) = initialVal c"
  by (simp_all add: incr_def decr_def)

lemma incr_ok [intro]: "sat_ok c \<Longrightarrow> sat_ok (incr c)"
  using unat_incr [of c] by (auto simp: sat_ok_def word_le_nat_alt)

lemma decr_ok [intro]: "sat_ok c \<Longrightarrow> sat_ok (decr c)"
  using unat_decr [of c] by (auto simp: sat_ok_def word_le_nat_alt)

lemma add_pos_value:
  assumes "sat_ok c" "0 \<le> v"
  shows "uint (counter (add_pos v c)) = min (uint (maxVal c)) (uint (counter c) + v)"
proof (cases "uint (maxVal c) - uint (counter c) \<ge> v")
  case True
  have b: "0 \<le> uint (counter c)" "uint (maxVal c) < 256" using uint_bounded [of "maxVal c"] by simp_all
  have "uint (counter c + word_of_int v) = (uint (counter c) + v) mod 256"
    by (simp add: uint_word_ariths(1) uint_word_of_int_eq take_bit_eq_mod mod_add_right_eq)
  also have "\<dots> = uint (counter c) + v" using True b assms(2) by (intro mod_pos_pos_trivial) simp_all
  finally show ?thesis using True by (simp add: add_pos_def)
next
  case False
  then show ?thesis by (simp add: add_pos_def)
qed

lemma sub_pos_value:
  assumes "0 \<le> v"
  shows "uint (counter (sub_pos v c)) = max 0 (uint (counter c) - v)"
proof (cases "uint (counter c) > v")
  case True
  have b: "uint (counter c) < 256" using uint_bounded [of "counter c"] by simp
  have "uint (counter c - word_of_int v) = (uint (counter c) - v) mod 256"
    by (simp add: uint_word_ariths(2) uint_word_of_int_eq take_bit_eq_mod mod_diff_right_eq)
  also have "\<dots> = uint (counter c) - v" using True b assms by (intro mod_pos_pos_trivial) simp_all
  finally show ?thesis using True by (simp add: sub_pos_def)
next
  case False
  then show ?thesis by (simp add: sub_pos_def)
qed

lemma add_sub_fields [simp]: "maxVal (add_assign v c) = maxVal c" "initialVal (add_assign v c) = initialVal c"
  "maxVal (sub_assign v c) = maxVal c" "initialVal (sub_assign v c) = initialVal c"
  by (simp_all add: add_assign_def sub_assign_def add_pos_def sub_pos_def)

subsection \<open>Properties\<close>



end
