(* ===== verification/Branch_Pred.thy ===== *)
theory Branch_Pred
  imports Sat_Counter
begin

text \<open>
  The direction predictors of \<^verbatim>\<open>gem5/src/cpu/pred\<close>: the local predictor (\<^verbatim>\<open>2bit_local.cc\<close>), the
  bi-mode predictor (\<^verbatim>\<open>bi_mode.cc\<close>) and the tournament predictor (\<^verbatim>\<open>tournament.cc\<close>), each with its
  constructor and the virtual functions \<^verbatim>\<open>BPredUnit\<close> calls: \<^verbatim>\<open>lookup\<close>, \<^verbatim>\<open>uncondBranch\<close>, \<^verbatim>\<open>btbUpdate\<close>,
  \<^verbatim>\<open>update\<close> and \<^verbatim>\<open>squash\<close>.  The virtual functions are the fields of a record, as a virtual table
  is.  The locale \<open>direction_predictor\<close> states what the unit relies on: table indices stay in
  range, and squashing a prediction restores a state that predicts as the one before it;
  it is interpreted on the three predictors.
\<close>

unbundle bit_operations_syntax

subsection \<open>Vectors\<close>

definition vec_at :: "'a list \<Rightarrow> nat \<Rightarrow> 'a res" where
  "vec_at xs i = require (i < length xs) (Undefined ''vector index'') (Inr (xs ! i))"

definition vec_upd :: "nat \<Rightarrow> ('a \<Rightarrow> 'a) \<Rightarrow> 'a list \<Rightarrow> 'a list res" where
  "vec_upd i f xs = require (i < length xs) (Undefined ''vector index'') (Inr (xs[i := f (xs ! i)]))"

lemma vec_simps [simp]:
  "vec_at xs i = Inr x \<longleftrightarrow> i < length xs \<and> x = xs ! i"
  "vec_upd i f xs = Inr ys \<longleftrightarrow> i < length xs \<and> ys = xs[i := f (xs ! i)]"
  by (auto simp: vec_at_def vec_upd_def)

lemma vec_total [simp]:
  "i < length xs \<Longrightarrow> vec_at xs i = Inr (xs ! i)"
  "i < length xs \<Longrightarrow> vec_upd i f xs = Inr (xs[i := f (xs ! i)])"
  by (simp_all add: vec_at_def vec_upd_def)

text \<open>The virtual functions of a direction predictor with state \<open>'s\<close> and history \<open>'h\<close>.\<close>

record ('h, 's) dir_ops =
  d_lookup :: "nat \<Rightarrow> Addr \<Rightarrow> 's \<Rightarrow> (bool \<times> 'h \<times> 's) res"
  d_uncondBranch :: "nat \<Rightarrow> Addr \<Rightarrow> 's \<Rightarrow> ('h \<times> 's) res"
  d_btbUpdate :: "nat \<Rightarrow> Addr \<Rightarrow> 'h \<Rightarrow> 's \<Rightarrow> 's res"
  d_update :: "nat \<Rightarrow> Addr \<Rightarrow> bool \<Rightarrow> 'h \<Rightarrow> bool \<Rightarrow> 's \<Rightarrow> 's res"
  d_squash :: "nat \<Rightarrow> 'h \<Rightarrow> 's \<Rightarrow> 's res"

text \<open>The low bits of a branch address, as an index of type \<^verbatim>\<open>unsigned\<close>.\<close>

definition pc_index :: "nat \<Rightarrow> Addr \<Rightarrow> u32 \<Rightarrow> u32 \<Rightarrow> u32" where
  "pc_index shift a hash m = ucast ((drop_bit shift a XOR ucast hash) AND ucast m)"

definition threshold :: "nat \<Rightarrow> u32 res" where
  "threshold ctrBits = require (1 \<le> ctrBits) (Undefined ''shift count'') (Inr (ucast (push_bit (ctrBits - 1) 1 - 1 :: u64)))"

definition above :: "SatCounter \<Rightarrow> u32 \<Rightarrow> bool" where
  "above c th \<longleftrightarrow> ucast (counter c) > th"

subsection \<open>The local predictor\<close>

record LocalBP =
  l_size :: u32
  l_ctrBits :: nat
  l_sets :: u32
  l_ctrs :: "SatCounter list"
  l_indexMask :: u32
  l_shift :: nat

definition new_LocalBP :: "u32 \<Rightarrow> nat \<Rightarrow> nat \<Rightarrow> LocalBP res" where
  "new_LocalBP sz ctrBits shift =
     require (ctrBits \<noteq> 0) (Undefined ''division by zero'')
     (let sets = sz div of_nat ctrBits in
      rbind (new_SatCounter ctrBits 0) (\<lambda>c.
      require (isPowerOf2 (ucast sz)) (Fatal ''Invalid local predictor size!'')
      (require (isPowerOf2 (ucast sets)) (Fatal ''Invalid number of local predictor sets!'')
       (Inr \<lparr>l_size = sz, l_ctrBits = ctrBits, l_sets = sets, l_ctrs = replicate (unat sets) c,
             l_indexMask = sets - 1, l_shift = shift\<rparr>))))"

definition getLocalIndex :: "Addr \<Rightarrow> LocalBP \<Rightarrow> u32" where
  "getLocalIndex a p = pc_index (l_shift p) a 0 (l_indexMask p)"

definition getPrediction :: "u8 \<Rightarrow> LocalBP \<Rightarrow> bool" where
  "getPrediction count p \<longleftrightarrow> drop_bit (l_ctrBits p - 1) count \<noteq> 0"

definition local_lookup :: "nat \<Rightarrow> Addr \<Rightarrow> LocalBP \<Rightarrow> (bool \<times> unit \<times> LocalBP) res" where
  "local_lookup tid a p =
     rbind (vec_at (l_ctrs p) (unat (getLocalIndex a p))) (\<lambda>c. Inr (getPrediction (counter c) p, (), p))"

definition local_update :: "nat \<Rightarrow> Addr \<Rightarrow> bool \<Rightarrow> unit \<Rightarrow> bool \<Rightarrow> LocalBP \<Rightarrow> LocalBP res" where
  "local_update tid a taken h squashed p =
     (if squashed then Inr p
      else rbind (vec_upd (unat (getLocalIndex a p)) (if taken then incr else decr) (l_ctrs p))
             (\<lambda>cs. Inr (p\<lparr>l_ctrs := cs\<rparr>)))"

definition local_ops :: "(unit, LocalBP) dir_ops" where
  "local_ops = \<lparr>d_lookup = local_lookup, d_uncondBranch = (\<lambda>tid a p. Inr ((), p)),
     d_btbUpdate = (\<lambda>tid a h p. Inr p), d_update = local_update, d_squash = (\<lambda>tid h p. Inr p)\<rparr>"

subsection \<open>The bi-mode predictor\<close>

record BiModeHistory =
  bh_globalHistoryReg :: u32
  bh_takenUsed :: bool
  bh_takenPred :: bool
  bh_notTakenPred :: bool
  bh_finalPred :: bool

record BiModeBP =
  b_globalHistoryReg :: "u32 list"
  b_historyRegisterMask :: u32
  b_choicePredictorSize :: u32
  b_choiceHistoryMask :: u32
  b_globalPredictorSize :: u32
  b_globalHistoryMask :: u32
  b_choiceCounters :: "SatCounter list"
  b_takenCounters :: "SatCounter list"
  b_notTakenCounters :: "SatCounter list"
  b_choiceThreshold :: u32
  b_takenThreshold :: u32
  b_notTakenThreshold :: u32
  b_shift :: nat

definition new_BiModeBP :: "nat \<Rightarrow> u32 \<Rightarrow> nat \<Rightarrow> u32 \<Rightarrow> nat \<Rightarrow> nat \<Rightarrow> BiModeBP res" where
  "new_BiModeBP threads choiceSize choiceBits globalSize globalBits shift =
     rbind (ceilLog2 (ucast globalSize)) (\<lambda>histBits.
     rbind (new_SatCounter choiceBits 0) (\<lambda>cc.
     rbind (new_SatCounter globalBits 0) (\<lambda>gc.
     require (isPowerOf2 (ucast choiceSize)) (Fatal ''Invalid choice predictor size.'')
     (require (isPowerOf2 (ucast globalSize)) (Fatal ''Invalid global history predictor size.'')
      (rbind (threshold choiceBits) (\<lambda>ct.
       rbind (threshold globalBits) (\<lambda>gt.
       Inr \<lparr>b_globalHistoryReg = replicate threads 0, b_historyRegisterMask = ucast (mask_n histBits),
            b_choicePredictorSize = choiceSize, b_choiceHistoryMask = choiceSize - 1,
            b_globalPredictorSize = globalSize, b_globalHistoryMask = globalSize - 1,
            b_choiceCounters = replicate (unat choiceSize) cc, b_takenCounters = replicate (unat globalSize) gc,
            b_notTakenCounters = replicate (unat globalSize) gc, b_choiceThreshold = ct,
            b_takenThreshold = gt, b_notTakenThreshold = gt, b_shift = shift\<rparr>)))))))"

definition bimode_updateGlobalHistReg :: "nat \<Rightarrow> bool \<Rightarrow> BiModeBP \<Rightarrow> BiModeBP res" where
  "bimode_updateGlobalHistReg tid taken p =
     rbind (vec_upd tid (\<lambda>r. (if taken then push_bit 1 r OR 1 else push_bit 1 r) AND b_historyRegisterMask p)
             (b_globalHistoryReg p)) (\<lambda>rs. Inr (p\<lparr>b_globalHistoryReg := rs\<rparr>))"

definition bimode_uncondBranch :: "nat \<Rightarrow> Addr \<Rightarrow> BiModeBP \<Rightarrow> (BiModeHistory \<times> BiModeBP) res" where
  "bimode_uncondBranch tid pc p =
     rbind (vec_at (b_globalHistoryReg p) tid) (\<lambda>r.
     rbind (bimode_updateGlobalHistReg tid True p) (\<lambda>p1.
       Inr (\<lparr>bh_globalHistoryReg = r, bh_takenUsed = True, bh_takenPred = True, bh_notTakenPred = True,
             bh_finalPred = True\<rparr>, p1)))"

definition bimode_squash :: "nat \<Rightarrow> BiModeHistory \<Rightarrow> BiModeBP \<Rightarrow> BiModeBP res" where
  "bimode_squash tid h p =
     rbind (vec_upd tid (\<lambda>_. bh_globalHistoryReg h) (b_globalHistoryReg p)) (\<lambda>rs. Inr (p\<lparr>b_globalHistoryReg := rs\<rparr>))"

definition bimode_lookup :: "nat \<Rightarrow> Addr \<Rightarrow> BiModeBP \<Rightarrow> (bool \<times> BiModeHistory \<times> BiModeBP) res" where
  "bimode_lookup tid a p =
     rbind (vec_at (b_globalHistoryReg p) tid) (\<lambda>r.
     let ci = pc_index (b_shift p) a 0 (b_choiceHistoryMask p); gi = pc_index (b_shift p) a r (b_globalHistoryMask p) in
     require (ci < b_choicePredictorSize p) (AssertFail ''choiceHistoryIdx < choicePredictorSize'')
     (require (gi < b_globalPredictorSize p) (AssertFail ''globalHistoryIdx < globalPredictorSize'')
      (rbind (vec_at (b_choiceCounters p) (unat ci)) (\<lambda>cc.
       rbind (vec_at (b_takenCounters p) (unat gi)) (\<lambda>tc.
       rbind (vec_at (b_notTakenCounters p) (unat gi)) (\<lambda>nc.
       let choice = above cc (b_choiceThreshold p); tk = above tc (b_takenThreshold p);
           nt = above nc (b_notTakenThreshold p); final = (if choice then tk else nt) in
       rbind (bimode_updateGlobalHistReg tid final p) (\<lambda>p1.
         Inr (final, \<lparr>bh_globalHistoryReg = r, bh_takenUsed = choice, bh_takenPred = tk, bh_notTakenPred = nt,
                      bh_finalPred = final\<rparr>, p1))))))))"

definition bimode_btbUpdate :: "nat \<Rightarrow> Addr \<Rightarrow> BiModeHistory \<Rightarrow> BiModeBP \<Rightarrow> BiModeBP res" where
  "bimode_btbUpdate tid a h p =
     rbind (vec_upd tid (\<lambda>r. r AND (b_historyRegisterMask p AND NOT 1)) (b_globalHistoryReg p))
       (\<lambda>rs. Inr (p\<lparr>b_globalHistoryReg := rs\<rparr>))"

definition bimode_update :: "nat \<Rightarrow> Addr \<Rightarrow> bool \<Rightarrow> BiModeHistory \<Rightarrow> bool \<Rightarrow> BiModeBP \<Rightarrow> BiModeBP res" where
  "bimode_update tid a taken h squashed p =
     (if squashed then
        rbind (vec_upd tid (\<lambda>_. push_bit 1 (bh_globalHistoryReg h) OR (if taken then 1 else 0)) (b_globalHistoryReg p))
          (\<lambda>rs. Inr (p\<lparr>b_globalHistoryReg := rs\<rparr>))
      else
        let ci = pc_index (b_shift p) a 0 (b_choiceHistoryMask p);
            gi = pc_index (b_shift p) a (bh_globalHistoryReg h) (b_globalHistoryMask p);
            step = (if taken then incr else decr) in
        require (ci < b_choicePredictorSize p) (AssertFail ''choiceHistoryIdx < choicePredictorSize'')
        (require (gi < b_globalPredictorSize p) (AssertFail ''globalHistoryIdx < globalPredictorSize'')
         (rbind (if bh_takenUsed h
                 then rbind (vec_upd (unat gi) step (b_takenCounters p)) (\<lambda>cs. Inr (p\<lparr>b_takenCounters := cs\<rparr>))
                 else rbind (vec_upd (unat gi) step (b_notTakenCounters p)) (\<lambda>cs. Inr (p\<lparr>b_notTakenCounters := cs\<rparr>)))
            (\<lambda>p1. if bh_finalPred h = taken \<and> bh_finalPred h \<noteq> bh_takenUsed h then Inr p1
                  else rbind (vec_upd (unat ci) step (b_choiceCounters p1)) (\<lambda>cs. Inr (p1\<lparr>b_choiceCounters := cs\<rparr>))))))"

definition bimode_ops :: "(BiModeHistory, BiModeBP) dir_ops" where
  "bimode_ops = \<lparr>d_lookup = bimode_lookup, d_uncondBranch = bimode_uncondBranch, d_btbUpdate = bimode_btbUpdate,
     d_update = bimode_update, d_squash = bimode_squash\<rparr>"

subsection \<open>The tournament predictor\<close>

record TournamentHistory =
  th_globalHistory :: u32
  th_localHistoryIdx :: u32
  th_localHistory :: u32
  th_localPredTaken :: bool
  th_globalPredTaken :: bool
  th_globalUsed :: bool

record TournamentBP =
  t_localPredictorSize :: u32
  t_localPredictorMask :: u32
  t_localCtrs :: "SatCounter list"
  t_localHistoryTable :: "u32 list"
  t_localHistoryTableSize :: u32
  t_globalCtrs :: "SatCounter list"
  t_globalHistory :: "u32 list"
  t_globalHistoryMask :: u32
  t_choiceHistoryMask :: u32
  t_historyRegisterMask :: u32
  t_choiceCtrs :: "SatCounter list"
  t_localThreshold :: u32
  t_globalThreshold :: u32
  t_choiceThreshold :: u32
  t_shift :: nat

definition invalidPredictorIndex :: u32 where
  "invalidPredictorIndex = -1"

definition new_TournamentBP ::
  "nat \<Rightarrow> u32 \<Rightarrow> nat \<Rightarrow> u32 \<Rightarrow> u32 \<Rightarrow> nat \<Rightarrow> u32 \<Rightarrow> nat \<Rightarrow> nat \<Rightarrow> TournamentBP res" where
  "new_TournamentBP threads localSize localBits tableSize globalSize globalBits choiceSize choiceBits shift =
     rbind (new_SatCounter localBits 0) (\<lambda>lc.
     rbind (ceilLog2 (ucast localSize)) (\<lambda>localHistoryBits.
     rbind (new_SatCounter globalBits 0) (\<lambda>gc.
     rbind (ceilLog2 (ucast globalSize)) (\<lambda>glog.
     rbind (ceilLog2 (ucast choiceSize)) (\<lambda>clog.
     rbind (new_SatCounter choiceBits 0) (\<lambda>cc.
     let historyBits = (if glog > clog then glog else clog); regMask = ucast (mask_n historyBits) in
     require (isPowerOf2 (ucast localSize)) (Fatal ''Invalid local predictor size!'')
     (require (isPowerOf2 (ucast globalSize)) (Fatal ''Invalid global predictor size!'')
     (require (isPowerOf2 (ucast tableSize)) (Fatal ''Invalid local history table size!'')
     (require (isPowerOf2 (ucast choiceSize)) (Fatal ''Invalid choice predictor size!'')
     (require (globalSize - 1 \<le> regMask) (Fatal ''Global predictor too large for global history bits!'')
     (require (choiceSize - 1 \<le> regMask) (Fatal ''Choice predictor too large for global history bits!'')
     (rbind (threshold localBits) (\<lambda>lt.
      rbind (threshold globalBits) (\<lambda>gt.
      rbind (threshold choiceBits) (\<lambda>ct.
      Inr \<lparr>t_localPredictorSize = localSize, t_localPredictorMask = ucast (mask_n localHistoryBits),
           t_localCtrs = replicate (unat localSize) lc, t_localHistoryTable = replicate (unat tableSize) 0,
           t_localHistoryTableSize = tableSize, t_globalCtrs = replicate (unat globalSize) gc,
           t_globalHistory = replicate threads 0, t_globalHistoryMask = globalSize - 1,
           t_choiceHistoryMask = choiceSize - 1, t_historyRegisterMask = regMask,
           t_choiceCtrs = replicate (unat choiceSize) cc, t_localThreshold = lt, t_globalThreshold = gt,
           t_choiceThreshold = ct, t_shift = shift\<rparr>)))))))))))))))"

definition calcLocHistIdx :: "Addr \<Rightarrow> TournamentBP \<Rightarrow> u32" where
  "calcLocHistIdx a p = pc_index (t_shift p) a 0 (t_localHistoryTableSize p - 1)"

definition shift_in :: "bool \<Rightarrow> u32 \<Rightarrow> u32" where
  "shift_in taken r = (if taken then push_bit 1 r OR 1 else push_bit 1 r)"

definition updateGlobalHist :: "nat \<Rightarrow> bool \<Rightarrow> TournamentBP \<Rightarrow> TournamentBP res" where
  "updateGlobalHist tid taken p =
     rbind (vec_upd tid (\<lambda>r. shift_in taken r AND t_historyRegisterMask p) (t_globalHistory p))
       (\<lambda>rs. Inr (p\<lparr>t_globalHistory := rs\<rparr>))"

definition updateLocalHist :: "u32 \<Rightarrow> bool \<Rightarrow> TournamentBP \<Rightarrow> TournamentBP res" where
  "updateLocalHist idx taken p =
     rbind (vec_upd (unat idx) (shift_in taken) (t_localHistoryTable p)) (\<lambda>rs. Inr (p\<lparr>t_localHistoryTable := rs\<rparr>))"

definition tournament_btbUpdate :: "nat \<Rightarrow> Addr \<Rightarrow> TournamentHistory \<Rightarrow> TournamentBP \<Rightarrow> TournamentBP res" where
  "tournament_btbUpdate tid a h p =
     rbind (vec_upd tid (\<lambda>r. r AND (t_historyRegisterMask p AND NOT 1)) (t_globalHistory p)) (\<lambda>rs.
     rbind (vec_upd (unat (calcLocHistIdx a p)) (\<lambda>r. r AND (t_localPredictorMask p AND NOT 1)) (t_localHistoryTable p)) (\<lambda>ts.
       Inr (p\<lparr>t_globalHistory := rs, t_localHistoryTable := ts\<rparr>)))"

definition tournament_lookup :: "nat \<Rightarrow> Addr \<Rightarrow> TournamentBP \<Rightarrow> (bool \<times> TournamentHistory \<times> TournamentBP) res" where
  "tournament_lookup tid a p =
     (let idx = calcLocHistIdx a p in
      rbind (vec_at (t_localHistoryTable p) (unat idx)) (\<lambda>lh.
      let pidx = lh AND t_localPredictorMask p in
      rbind (vec_at (t_localCtrs p) (unat pidx)) (\<lambda>lc.
      rbind (vec_at (t_globalHistory p) tid) (\<lambda>g.
      rbind (vec_at (t_globalCtrs p) (unat (g AND t_globalHistoryMask p))) (\<lambda>gc.
      rbind (vec_at (t_choiceCtrs p) (unat (g AND t_choiceHistoryMask p))) (\<lambda>cc.
      let lp = above lc (t_localThreshold p); gp = above gc (t_globalThreshold p); cp = above cc (t_choiceThreshold p);
          h = \<lparr>th_globalHistory = g, th_localHistoryIdx = idx, th_localHistory = pidx,
               th_localPredTaken = lp, th_globalPredTaken = gp, th_globalUsed = cp\<rparr>;
          taken = (if cp then gp else lp) in
      require (idx < t_localHistoryTableSize p) (AssertFail ''local_history_idx < localHistoryTableSize'')
      (rbind (updateGlobalHist tid taken p) (\<lambda>p1.
       rbind (updateLocalHist idx taken p1) (\<lambda>p2. Inr (taken, h, p2))))))))))"

definition tournament_uncondBranch :: "nat \<Rightarrow> Addr \<Rightarrow> TournamentBP \<Rightarrow> (TournamentHistory \<times> TournamentBP) res" where
  "tournament_uncondBranch tid pc p =
     rbind (vec_at (t_globalHistory p) tid) (\<lambda>g.
     rbind (updateGlobalHist tid True p) (\<lambda>p1.
       Inr (\<lparr>th_globalHistory = g, th_localHistoryIdx = invalidPredictorIndex, th_localHistory = invalidPredictorIndex,
             th_localPredTaken = True, th_globalPredTaken = True, th_globalUsed = True\<rparr>, p1)))"

text \<open>The two parts of \<^verbatim>\<open>update\<close>: after a misprediction the histories are restored with the outcome; at
  commit the counters move.\<close>

definition tournament_restore :: "nat \<Rightarrow> u32 \<Rightarrow> bool \<Rightarrow> TournamentHistory \<Rightarrow> TournamentBP \<Rightarrow> TournamentBP res" where
  "tournament_restore tid idx taken h p =
     rbind (vec_upd tid (\<lambda>_. (push_bit 1 (th_globalHistory h) OR (if taken then 1 else 0)) AND t_historyRegisterMask p)
             (t_globalHistory p)) (\<lambda>rs.
     let p1 = p\<lparr>t_globalHistory := rs\<rparr> in
     if th_localHistory h \<noteq> invalidPredictorIndex
     then rbind (vec_upd (unat idx) (\<lambda>_. push_bit 1 (th_localHistory h) OR (if taken then 1 else 0)) (t_localHistoryTable p1))
            (\<lambda>ts. Inr (p1\<lparr>t_localHistoryTable := ts\<rparr>))
     else Inr p1)"

definition tournament_choice :: "bool \<Rightarrow> TournamentHistory \<Rightarrow> TournamentBP \<Rightarrow> TournamentBP res" where
  "tournament_choice taken h p =
     (if th_localPredTaken h \<noteq> th_globalPredTaken h \<and> th_localHistory h \<noteq> invalidPredictorIndex
      then rbind (vec_upd (unat (th_globalHistory h AND t_choiceHistoryMask p))
                    (if th_localPredTaken h = taken then decr
                     else if th_globalPredTaken h = taken then incr else (\<lambda>c. c)) (t_choiceCtrs p))
             (\<lambda>cs. Inr (p\<lparr>t_choiceCtrs := cs\<rparr>))
      else Inr p)"

definition tournament_counters :: "bool \<Rightarrow> TournamentHistory \<Rightarrow> TournamentBP \<Rightarrow> TournamentBP res" where
  "tournament_counters taken h p =
     (let step = (if taken then incr else decr) in
      rbind (vec_upd (unat (th_globalHistory h AND t_globalHistoryMask p)) step (t_globalCtrs p)) (\<lambda>gs.
      let p1 = p\<lparr>t_globalCtrs := gs\<rparr> in
      if th_localHistory h \<noteq> invalidPredictorIndex
      then rbind (vec_upd (unat (th_localHistory h AND t_localPredictorMask p1)) step (t_localCtrs p1))
             (\<lambda>ls. Inr (p1\<lparr>t_localCtrs := ls\<rparr>))
      else Inr p1))"

definition tournament_update :: "nat \<Rightarrow> Addr \<Rightarrow> bool \<Rightarrow> TournamentHistory \<Rightarrow> bool \<Rightarrow> TournamentBP \<Rightarrow> TournamentBP res" where
  "tournament_update tid a taken h squashed p =
     (let idx = calcLocHistIdx a p in
      require (idx < t_localHistoryTableSize p) (AssertFail ''local_history_idx < localHistoryTableSize'')
      (if squashed then tournament_restore tid idx taken h p
       else require (th_localHistory h AND t_localPredictorMask p < t_localPredictorSize p)
              (AssertFail ''old_local_pred_index < localPredictorSize'')
              (rbind (tournament_choice taken h p) (tournament_counters taken h))))"

definition tournament_squash :: "nat \<Rightarrow> TournamentHistory \<Rightarrow> TournamentBP \<Rightarrow> TournamentBP res" where
  "tournament_squash tid h p =
     rbind (vec_upd tid (\<lambda>_. th_globalHistory h) (t_globalHistory p)) (\<lambda>rs.
     let p1 = p\<lparr>t_globalHistory := rs\<rparr> in
     if th_localHistoryIdx h \<noteq> invalidPredictorIndex
     then rbind (vec_upd (unat (th_localHistoryIdx h)) (\<lambda>_. th_localHistory h) (t_localHistoryTable p1))
            (\<lambda>ts. Inr (p1\<lparr>t_localHistoryTable := ts\<rparr>))
     else Inr p1)"

definition tournament_ops :: "(TournamentHistory, TournamentBP) dir_ops" where
  "tournament_ops = \<lparr>d_lookup = tournament_lookup, d_uncondBranch = tournament_uncondBranch,
     d_btbUpdate = tournament_btbUpdate, d_update = tournament_update, d_squash = tournament_squash\<rparr>"

subsection \<open>What the branch prediction unit relies on\<close>

text \<open>\<open>ok\<close> is the predictor's invariant and \<open>sim\<close> relates states that predict alike, now and later.  The
  operations return in every good state, and a squash with the history of a prediction, possibly
  corrected by \<^verbatim>\<open>btbUpdate\<close>, takes any state that behaves like the one after it to one that behaves like
  the one before it.\<close>

locale direction_predictor =
  fixes D :: "('h, 's) dir_ops"
    and ok :: "'s \<Rightarrow> bool"
    and threads :: "'s \<Rightarrow> nat"
    and sim :: "'s \<Rightarrow> 's \<Rightarrow> bool"
  assumes sim_refl: "sim s s"
    and sim_trans: "sim s t \<Longrightarrow> sim t u \<Longrightarrow> sim s u"
    and lookup_total: "ok s \<Longrightarrow> tid < threads s \<Longrightarrow>
      \<exists>p h s'. d_lookup D tid a s = Inr (p, h, s') \<and> ok s' \<and> threads s' = threads s"
    and uncond_total: "ok s \<Longrightarrow> tid < threads s \<Longrightarrow>
      \<exists>h s'. d_uncondBranch D tid a s = Inr (h, s') \<and> ok s' \<and> threads s' = threads s"
    and btb_total: "ok s \<Longrightarrow> tid < threads s \<Longrightarrow>
      \<exists>s'. d_btbUpdate D tid a h s = Inr s' \<and> ok s' \<and> threads s' = threads s"
    and update_total: "ok s \<Longrightarrow> tid < threads s \<Longrightarrow>
      \<exists>s'. d_update D tid a taken h squashed s = Inr s' \<and> ok s' \<and> threads s' = threads s"
    and squash_lookup: "ok s \<Longrightarrow> d_lookup D tid a s = Inr (p, h, s') \<Longrightarrow> ok t \<Longrightarrow> sim t s' \<Longrightarrow>
      \<exists>t'. d_squash D tid h t = Inr t' \<and> ok t' \<and> threads t' = threads t \<and> sim t' s"
    and squash_btb: "ok s \<Longrightarrow> d_lookup D tid a s = Inr (p, h, s') \<Longrightarrow> d_btbUpdate D tid a h s' = Inr s'' \<Longrightarrow>
      ok t \<Longrightarrow> sim t s'' \<Longrightarrow> \<exists>t'. d_squash D tid h t = Inr t' \<and> ok t' \<and> threads t' = threads t \<and> sim t' s"
    and squash_uncond: "ok s \<Longrightarrow> d_uncondBranch D tid a s = Inr (h, s') \<Longrightarrow> ok t \<Longrightarrow> sim t s' \<Longrightarrow>
      \<exists>t'. d_squash D tid h t = Inr t' \<and> ok t' \<and> threads t' = threads t \<and> sim t' s"
    and sim_lookup: "ok s \<Longrightarrow> ok t \<Longrightarrow> sim s t \<Longrightarrow> d_lookup D tid a s = Inr (p, h, s') \<Longrightarrow>
      \<exists>t'. d_lookup D tid a t = Inr (p, h, t') \<and> sim s' t'"

subsection \<open>Indices stay in range\<close>

lemma and_ucast_le: "unat (x AND y) \<le> unat y" for x y :: "'a::len word"
  by (metis and.commute word_and_le1 word_le_nat_alt)

lemma pc_index_le: "unat (pc_index sh a r m) \<le> unat m"
proof -
  let ?x = "(drop_bit sh a XOR ucast r) AND ucast m"
  have "unat (pc_index sh a r m) = unat ?x mod 2 ^ 32" by (simp add: pc_index_def unsigned_ucast_eq take_bit_eq_mod)
  also have "\<dots> \<le> unat ?x" by simp
  also have "\<dots> \<le> unat (ucast m :: u64)" by (rule and_ucast_le)
  also have "\<dots> = unat m" by (simp add: unsigned_ucast_eq take_bit_nat_eq_self_iff order_less_trans [OF unsigned_less])
  finally show ?thesis .
qed

definition all_ok :: "SatCounter list \<Rightarrow> bool" where
  "all_ok cs \<longleftrightarrow> (\<forall>c \<in> set cs. sat_ok c)"

lemma all_ok_upd [simp]:
  "all_ok cs \<Longrightarrow> i < length cs \<Longrightarrow> all_ok (cs[i := incr (cs ! i)])"
  "all_ok cs \<Longrightarrow> i < length cs \<Longrightarrow> all_ok (cs[i := decr (cs ! i)])"
  by (auto simp: all_ok_def dest!: set_update_subset_insert [THEN subsetD])

lemma all_ok_replicate: "sat_ok c \<Longrightarrow> all_ok (replicate n c)"
  by (auto simp: all_ok_def)

lemma pred_lt: "x \<noteq> 0 \<Longrightarrow> unat (x - 1) < unat x" for x :: u32
proof -
  assume "x \<noteq> 0"
  then have "0 < unat x" by (simp add: unat_gt_0)
  then show ?thesis by (simp add: unat_sub_if' word_le_nat_alt)
qed

subsection \<open>The local predictor\<close>

definition local_ok :: "LocalBP \<Rightarrow> bool" where
  "local_ok p \<longleftrightarrow> unat (l_indexMask p) < length (l_ctrs p) \<and> all_ok (l_ctrs p) \<and> 1 \<le> l_ctrBits p \<and> l_ctrBits p \<le> 8 \<and>
     (\<forall>c \<in> set (l_ctrs p). unat (maxVal c) = 2 ^ l_ctrBits p - 1)"

lemma local_index: "local_ok p \<Longrightarrow> unat (getLocalIndex a p) < length (l_ctrs p)"
  using pc_index_le [of "l_shift p" a 0 "l_indexMask p"] by (simp add: local_ok_def getLocalIndex_def)

lemma local_lookup_eq:
  "local_ok p \<Longrightarrow> local_lookup tid a p = Inr (getPrediction (counter (l_ctrs p ! unat (getLocalIndex a p))) p, (), p)"
  using local_index [of p a] by (simp add: local_lookup_def)

lemma new_LocalBP_ok: "new_LocalBP sz b sh = Inr p \<Longrightarrow> local_ok p"
proof -
  assume "new_LocalBP sz b sh = Inr p"
  then obtain c where b: "b \<noteq> 0" "new_SatCounter b 0 = Inr c" "isPowerOf2 (ucast (sz div of_nat b))"
    and p: "p = \<lparr>l_size = sz, l_ctrBits = b, l_sets = sz div of_nat b,
      l_ctrs = replicate (unat (sz div of_nat b)) c, l_indexMask = sz div of_nat b - 1, l_shift = sh\<rparr>"
    by (auto simp: new_LocalBP_def Let_def)
  have "sz div of_nat b \<noteq> 0" using b(3) by (auto simp: isPowerOf2_def)
  from pred_lt [OF this] show ?thesis
    using new_SatCounter_ok [OF b(2)] new_SatCounter_max [OF b(2)] b(1) by (auto simp: p local_ok_def all_ok_replicate)
qed

lemma local_update_ok:
  assumes "local_ok p" "local_update tid a taken h squashed p = Inr p'"
  shows "local_ok p'"
proof -
  let ?f = "if taken then incr else decr"
  have "maxVal (?f c) = maxVal c" for c by simp
  then show ?thesis
    using assms local_index [OF assms(1), of a]
    by (auto simp: local_update_def local_ok_def split: if_splits dest!: set_update_subset_insert [THEN subsetD])
qed

interpretation local_bp: direction_predictor local_ops local_ok "\<lambda>_. n" "(=)" for n
proof unfold_locales
  fix s :: LocalBP and tid a taken h squashed
  assume s: "local_ok s"
  then have "\<exists>s'. local_update tid a taken h squashed s = Inr s'" using local_index [of s a] by (simp add: local_update_def)
  then show "\<exists>s'. d_update local_ops tid a taken h squashed s = Inr s' \<and> local_ok s' \<and> n = n"
    using local_update_ok [OF s] by (auto simp: local_ops_def)
qed (auto simp: local_ops_def local_lookup_eq)

subsection \<open>The bi-mode predictor\<close>

definition bimode_ok :: "BiModeBP \<Rightarrow> bool" where
  "bimode_ok p \<longleftrightarrow>
     unat (b_choiceHistoryMask p) < unat (b_choicePredictorSize p) \<and> unat (b_globalHistoryMask p) < unat (b_globalPredictorSize p) \<and>
     length (b_choiceCounters p) = unat (b_choicePredictorSize p) \<and>
     length (b_takenCounters p) = unat (b_globalPredictorSize p) \<and>
     length (b_notTakenCounters p) = unat (b_globalPredictorSize p) \<and>
     all_ok (b_choiceCounters p) \<and> all_ok (b_takenCounters p) \<and> all_ok (b_notTakenCounters p)"

definition bimode_threads :: "BiModeBP \<Rightarrow> nat" where
  "bimode_threads p = length (b_globalHistoryReg p)"

lemma bimode_index:
  assumes "bimode_ok p"
  shows "unat (pc_index (b_shift p) a r (b_choiceHistoryMask p)) < unat (b_choicePredictorSize p)"
    "unat (pc_index (b_shift p) a r (b_globalHistoryMask p)) < unat (b_globalPredictorSize p)"
  using assms pc_index_le [of "b_shift p" a r "b_choiceHistoryMask p"]
    pc_index_le [of "b_shift p" a r "b_globalHistoryMask p"] by (auto simp: bimode_ok_def)

lemma bimode_reg_ok [simp]: "bimode_ok (p\<lparr>b_globalHistoryReg := rs\<rparr>) = bimode_ok p"
  by (simp add: bimode_ok_def)

lemma new_BiModeBP_ok: "new_BiModeBP n cs cb gs gb sh = Inr p \<Longrightarrow> bimode_ok p \<and> bimode_threads p = n"
proof -
  assume "new_BiModeBP n cs cb gs gb sh = Inr p"
  then obtain cc gc where c: "new_SatCounter cb 0 = Inr cc" "new_SatCounter gb 0 = Inr gc"
    "isPowerOf2 (ucast cs)" "isPowerOf2 (ucast gs)"
    and p: "b_choiceHistoryMask p = cs - 1" "b_globalHistoryMask p = gs - 1" "b_choicePredictorSize p = cs"
      "b_globalPredictorSize p = gs" "b_choiceCounters p = replicate (unat cs) cc" "b_takenCounters p = replicate (unat gs) gc"
      "b_notTakenCounters p = replicate (unat gs) gc" "b_globalHistoryReg p = replicate n 0"
    by (auto simp: new_BiModeBP_def Let_def)
  have "cs \<noteq> 0" "gs \<noteq> 0" using c(3,4) by (auto simp: isPowerOf2_def)
  then show ?thesis
    using pred_lt [of cs] pred_lt [of gs] new_SatCounter_ok [OF c(1)] new_SatCounter_ok [OF c(2)]
    by (simp add: bimode_ok_def bimode_threads_def p all_ok_replicate)
qed

lemma bimode_lookup_eq:
  assumes "bimode_ok p" "tid < bimode_threads p"
  obtains pr h rs where "bimode_lookup tid a p = Inr (pr, h, p\<lparr>b_globalHistoryReg := rs\<rparr>)"
    "bh_globalHistoryReg h = b_globalHistoryReg p ! tid" "rs = (b_globalHistoryReg p)[tid := rs ! tid]"
proof -
  note i = bimode_index [OF assms(1)]
  have l: "length (b_choiceCounters p) = unat (b_choicePredictorSize p)" "length (b_takenCounters p) = unat (b_globalPredictorSize p)"
     "length (b_notTakenCounters p) = unat (b_globalPredictorSize p)" using assms(1) by (auto simp: bimode_ok_def)
  show thesis
    using assms(2) i l that
    by (simp add: bimode_lookup_def bimode_threads_def Let_def word_less_nat_alt bimode_updateGlobalHistReg_def)
qed

lemma list_update_back: "xs[i := xs ! i] = xs"
  by simp

lemma bimode_squash_back:
  assumes "rs = (b_globalHistoryReg p)[tid := rs ! tid]" "bh_globalHistoryReg h = b_globalHistoryReg p ! tid"
    "tid < bimode_threads p" "t = p\<lparr>b_globalHistoryReg := rs\<rparr>"
  shows "bimode_squash tid h t = Inr p"
proof -
  have "length rs = length (b_globalHistoryReg p)" by (subst assms(1)) simp
  moreover have "rs[tid := b_globalHistoryReg p ! tid] = b_globalHistoryReg p"
    by (subst assms(1)) simp
  ultimately show ?thesis using assms(2-4) by (simp add: bimode_squash_def bimode_threads_def)
qed

lemma bimode_tid: "bimode_lookup tid a p = Inr x \<Longrightarrow> tid < bimode_threads p"
  "bimode_uncondBranch tid a p = Inr y \<Longrightarrow> tid < bimode_threads p"
  by (auto simp: bimode_lookup_def bimode_uncondBranch_def bimode_threads_def)

lemma bimode_lookup_step:
  assumes "bimode_ok p" "bimode_lookup tid a p = Inr (pr, h, p')"
  obtains rs where "p' = p\<lparr>b_globalHistoryReg := rs\<rparr>" "rs = (b_globalHistoryReg p)[tid := rs ! tid]"
    "bh_globalHistoryReg h = b_globalHistoryReg p ! tid" "tid < bimode_threads p"
  using bimode_lookup_eq [OF assms(1) bimode_tid(1) [OF assms(2)], of a] assms(2) bimode_tid(1) [OF assms(2)]
  by (metis Pair_inject sum.inject(2))

lemma bimode_btb_step:
  assumes "tid < bimode_threads p"
  obtains rs where "bimode_btbUpdate tid a h p = Inr (p\<lparr>b_globalHistoryReg := rs\<rparr>)"
    "rs = (b_globalHistoryReg p)[tid := rs ! tid]"
  using assms that by (simp add: bimode_btbUpdate_def bimode_threads_def)

lemma bimode_uncond_step:
  assumes "tid < bimode_threads p"
  obtains h rs where "bimode_uncondBranch tid a p = Inr (h, p\<lparr>b_globalHistoryReg := rs\<rparr>)"
    "rs = (b_globalHistoryReg p)[tid := rs ! tid]" "bh_globalHistoryReg h = b_globalHistoryReg p ! tid"
  using assms that by (simp add: bimode_uncondBranch_def bimode_updateGlobalHistReg_def bimode_threads_def)

lemma bimode_update_ok:
  assumes "bimode_ok p" "bimode_update tid a taken h squashed p = Inr p'"
  shows "bimode_ok p' \<and> bimode_threads p' = bimode_threads p"
proof (cases squashed)
  case True
  then show ?thesis using assms by (auto simp: bimode_update_def bimode_threads_def)
next
  case False
  then show ?thesis
    using assms unfolding bimode_update_def Let_def
    by (auto simp: bimode_ok_def bimode_threads_def split: if_splits)
qed

lemma bimode_update_returns:
  assumes "bimode_ok p" "tid < bimode_threads p"
  shows "\<exists>p'. bimode_update tid a taken h squashed p = Inr p'"
  using assms bimode_index [OF assms(1), of a]
  by (cases squashed) (auto simp: bimode_update_def bimode_threads_def Let_def bimode_ok_def word_less_nat_alt)

interpretation bimode_bp: direction_predictor bimode_ops bimode_ok bimode_threads "(=)"
proof unfold_locales
  fix s :: BiModeBP and tid a
  assume s: "bimode_ok s" "tid < bimode_threads s"
  obtain pr h rs where "bimode_lookup tid a s = Inr (pr, h, s\<lparr>b_globalHistoryReg := rs\<rparr>)"
    "rs = (b_globalHistoryReg s)[tid := rs ! tid]" by (rule bimode_lookup_eq [OF s])
  moreover from this(2) have "length rs = length (b_globalHistoryReg s)" by (metis length_list_update)
  ultimately show "\<exists>p h s'. d_lookup bimode_ops tid a s = Inr (p, h, s') \<and> bimode_ok s' \<and> bimode_threads s' = bimode_threads s"
    using s by (simp add: bimode_ops_def bimode_threads_def)
next
  fix s :: BiModeBP and tid a
  assume s: "bimode_ok s" "tid < bimode_threads s"
  obtain h rs where "bimode_uncondBranch tid a s = Inr (h, s\<lparr>b_globalHistoryReg := rs\<rparr>)"
    "rs = (b_globalHistoryReg s)[tid := rs ! tid]" by (rule bimode_uncond_step [OF s(2)])
  moreover from this(2) have "length rs = length (b_globalHistoryReg s)" by (metis length_list_update)
  ultimately show "\<exists>h s'. d_uncondBranch bimode_ops tid a s = Inr (h, s') \<and> bimode_ok s' \<and> bimode_threads s' = bimode_threads s"
    using s by (simp add: bimode_ops_def bimode_threads_def)
next
  fix s :: BiModeBP and tid a h
  assume s: "bimode_ok s" "tid < bimode_threads s"
  then show "\<exists>s'. d_btbUpdate bimode_ops tid a h s = Inr s' \<and> bimode_ok s' \<and> bimode_threads s' = bimode_threads s"
    by (auto simp: bimode_ops_def bimode_btbUpdate_def bimode_threads_def)
next
  fix s :: BiModeBP and tid a taken h squashed
  assume s: "bimode_ok s" "tid < bimode_threads s"
  show "\<exists>s'. d_update bimode_ops tid a taken h squashed s = Inr s' \<and> bimode_ok s' \<and> bimode_threads s' = bimode_threads s"
    using bimode_update_returns [OF s] bimode_update_ok [OF s(1)] by (simp add: bimode_ops_def) blast
next
  fix s s' t :: BiModeBP and tid a p h
  assume s: "bimode_ok s" "d_lookup bimode_ops tid a s = Inr (p, h, s')" "t = s'"
  then have l: "bimode_lookup tid a s = Inr (p, h, s')" by (simp add: bimode_ops_def)
  obtain rs where rs: "s' = s\<lparr>b_globalHistoryReg := rs\<rparr>" "rs = (b_globalHistoryReg s)[tid := rs ! tid]"
    "bh_globalHistoryReg h = b_globalHistoryReg s ! tid" "tid < bimode_threads s"
    by (rule bimode_lookup_step [OF s(1) l])
  have "length rs = length (b_globalHistoryReg s)" using rs(2) by (metis length_list_update)
  then show "\<exists>t'. d_squash bimode_ops tid h t = Inr t' \<and> bimode_ok t' \<and> bimode_threads t' = bimode_threads t \<and> t' = s"
    using bimode_squash_back [OF rs(2-4)] rs(1) s by (simp add: bimode_ops_def bimode_threads_def)
next
  fix s s' s'' t :: BiModeBP and tid a p h
  assume s: "bimode_ok s" "d_lookup bimode_ops tid a s = Inr (p, h, s')" "d_btbUpdate bimode_ops tid a h s' = Inr s''" "t = s''"
  then have l: "bimode_lookup tid a s = Inr (p, h, s')" "bimode_btbUpdate tid a h s' = Inr s''" by (simp_all add: bimode_ops_def)
  obtain rs where rs: "s' = s\<lparr>b_globalHistoryReg := rs\<rparr>" "rs = (b_globalHistoryReg s)[tid := rs ! tid]"
    "bh_globalHistoryReg h = b_globalHistoryReg s ! tid" "tid < bimode_threads s"
    by (rule bimode_lookup_step [OF s(1) l(1)])
  have len: "length rs = length (b_globalHistoryReg s)" using rs(2) by (metis length_list_update)
  then have t': "tid < bimode_threads s'" using rs(1,4) by (simp add: bimode_threads_def)
  obtain rs' where rs': "s'' = s'\<lparr>b_globalHistoryReg := rs'\<rparr>" "rs' = rs[tid := rs' ! tid]"
    using bimode_btb_step [OF t', of a h] l(2) rs(1) by (metis BiModeBP.select_convs(1) BiModeBP.update_convs(1) BiModeBP.surjective sum.inject(2))
  have e: "rs' = (b_globalHistoryReg s)[tid := rs' ! tid]" by (subst rs'(2), subst rs(2)) simp
  have "s'' = s\<lparr>b_globalHistoryReg := rs'\<rparr>" using rs'(1) rs(1) by simp
  moreover have "length rs' = length (b_globalHistoryReg s)" using e by (metis length_list_update)
  ultimately show "\<exists>t'. d_squash bimode_ops tid h t = Inr t' \<and> bimode_ok t' \<and> bimode_threads t' = bimode_threads t \<and> t' = s"
    using bimode_squash_back [OF e rs(3,4)] s by (simp add: bimode_ops_def bimode_threads_def)
next
  fix s s' t :: BiModeBP and tid a h
  assume s: "bimode_ok s" "d_uncondBranch bimode_ops tid a s = Inr (h, s')" "t = s'"
  then have l: "bimode_uncondBranch tid a s = Inr (h, s')" by (simp add: bimode_ops_def)
  note tid = bimode_tid(2) [OF l]
  obtain h' rs where rs: "bimode_uncondBranch tid a s = Inr (h', s\<lparr>b_globalHistoryReg := rs\<rparr>)"
    "rs = (b_globalHistoryReg s)[tid := rs ! tid]" "bh_globalHistoryReg h' = b_globalHistoryReg s ! tid"
    by (rule bimode_uncond_step [OF tid])
  have "length rs = length (b_globalHistoryReg s)" using rs(2) by (metis length_list_update)
  then show "\<exists>t'. d_squash bimode_ops tid h t = Inr t' \<and> bimode_ok t' \<and> bimode_threads t' = bimode_threads t \<and> t' = s"
    using bimode_squash_back [OF rs(2,3) tid] rs(1) l s by (simp add: bimode_ops_def bimode_threads_def)
qed auto

subsection \<open>The tournament predictor\<close>

definition tour_ok :: "TournamentBP \<Rightarrow> bool" where
  "tour_ok p \<longleftrightarrow>
     (\<exists>k. t_localPredictorMask p = mask k) \<and> unat (t_localPredictorMask p) < length (t_localCtrs p) \<and>
     length (t_localCtrs p) = unat (t_localPredictorSize p) \<and>
     length (t_localHistoryTable p) = unat (t_localHistoryTableSize p) \<and> t_localHistoryTableSize p \<noteq> 0 \<and>
     unat (t_globalHistoryMask p) < length (t_globalCtrs p) \<and> unat (t_choiceHistoryMask p) < length (t_choiceCtrs p) \<and>
     all_ok (t_localCtrs p) \<and> all_ok (t_globalCtrs p) \<and> all_ok (t_choiceCtrs p)"

definition tour_threads :: "TournamentBP \<Rightarrow> nat" where
  "tour_threads p = length (t_globalHistory p)"

text \<open>States that predict alike: they differ only in the bits of the local histories above the mask, which
  no operation reads.\<close>

definition tour_sim :: "TournamentBP \<Rightarrow> TournamentBP \<Rightarrow> bool" where
  "tour_sim s t \<longleftrightarrow> s\<lparr>t_localHistoryTable := []\<rparr> = t\<lparr>t_localHistoryTable := []\<rparr> \<and>
     map (\<lambda>x. x AND t_localPredictorMask s) (t_localHistoryTable s) =
     map (\<lambda>x. x AND t_localPredictorMask t) (t_localHistoryTable t)"

definition tour_hist :: "nat \<Rightarrow> Addr \<Rightarrow> TournamentBP \<Rightarrow> TournamentHistory" where
  "tour_hist tid a p =
     (let g = t_globalHistory p ! tid; idx = calcLocHistIdx a p;
          pidx = t_localHistoryTable p ! unat idx AND t_localPredictorMask p in
      \<lparr>th_globalHistory = g, th_localHistoryIdx = idx, th_localHistory = pidx,
       th_localPredTaken = above (t_localCtrs p ! unat pidx) (t_localThreshold p),
       th_globalPredTaken = above (t_globalCtrs p ! unat (g AND t_globalHistoryMask p)) (t_globalThreshold p),
       th_globalUsed = above (t_choiceCtrs p ! unat (g AND t_choiceHistoryMask p)) (t_choiceThreshold p)\<rparr>)"

definition tour_pred :: "TournamentHistory \<Rightarrow> bool" where
  "tour_pred h = (if th_globalUsed h then th_globalPredTaken h else th_localPredTaken h)"

definition tour_hists :: "u32 list \<Rightarrow> u32 list \<Rightarrow> TournamentBP \<Rightarrow> TournamentBP" where
  "tour_hists gs ts p = p\<lparr>t_globalHistory := gs, t_localHistoryTable := ts\<rparr>"

lemma tour_index:
  assumes "tour_ok p"
  shows "unat (calcLocHistIdx a p) < length (t_localHistoryTable p)" "calcLocHistIdx a p < t_localHistoryTableSize p"
    "calcLocHistIdx a p \<noteq> invalidPredictorIndex"
proof -
  let ?n = "t_localHistoryTableSize p"
  have n: "?n \<noteq> 0" "length (t_localHistoryTable p) = unat ?n" using assms by (auto simp: tour_ok_def)
  have lt: "unat (calcLocHistIdx a p) < unat ?n"
    using pc_index_le [of "t_shift p" a 0 "?n - 1"] pred_lt [OF n(1)] by (simp add: calcLocHistIdx_def)
  then show "unat (calcLocHistIdx a p) < length (t_localHistoryTable p)" "calcLocHistIdx a p < ?n"
    using n(2) by (simp_all add: word_less_nat_alt)
  show "calcLocHistIdx a p \<noteq> invalidPredictorIndex"
  proof
    assume "calcLocHistIdx a p = invalidPredictorIndex"
    then have "unat (calcLocHistIdx a p) = 2 ^ 32 - 1"
      by (simp add: invalidPredictorIndex_def unsigned_minus_1_eq_mask mask_eq_exp_minus_1)
    with lt unsigned_less [of ?n, where ?'a = nat] show False by simp
  qed
qed

lemma tour_lookup_eq:
  assumes "tour_ok p" "tid < tour_threads p"
  shows "tournament_lookup tid a p =
    (let h = tour_hist tid a p; idx = unat (calcLocHistIdx a p) in
     Inr (tour_pred h, h, tour_hists ((t_globalHistory p)[tid := shift_in (tour_pred h) (t_globalHistory p ! tid) AND t_historyRegisterMask p])
       ((t_localHistoryTable p)[idx := shift_in (tour_pred h) (t_localHistoryTable p ! idx)]) p))"
proof -
  note i = tour_index [OF assms(1), of a]
  have "unat (t_localHistoryTable p ! unat (calcLocHistIdx a p) AND t_localPredictorMask p) < length (t_localCtrs p)"
    "unat (t_globalHistory p ! tid AND t_globalHistoryMask p) < length (t_globalCtrs p)"
    "unat (t_globalHistory p ! tid AND t_choiceHistoryMask p) < length (t_choiceCtrs p)"
    using assms(1) by (auto simp: tour_ok_def intro: le_less_trans [OF and_ucast_le])
  with i assms(2) show ?thesis
    by (simp add: tournament_lookup_def Let_def tour_hist_def tour_pred_def tour_threads_def updateGlobalHist_def
        updateLocalHist_def tour_hists_def)
qed

lemma tour_tid: "tournament_lookup tid a p = Inr x \<Longrightarrow> tid < tour_threads p"
  "tournament_uncondBranch tid a p = Inr y \<Longrightarrow> tid < tour_threads p"
  by (auto simp: tournament_lookup_def tournament_uncondBranch_def tour_threads_def Let_def)

lemma tour_hists_ok [simp]: "length ts = length (t_localHistoryTable p) \<Longrightarrow> tour_ok (tour_hists gs ts p) = tour_ok p"
  by (simp add: tour_ok_def tour_hists_def)

lemma tour_hists_fields [simp]:
  "t_globalHistory (tour_hists gs ts p) = gs" "t_localHistoryTable (tour_hists gs ts p) = ts"
  "t_localPredictorMask (tour_hists gs ts p) = t_localPredictorMask p"
  "t_historyRegisterMask (tour_hists gs ts p) = t_historyRegisterMask p"
  "calcLocHistIdx a (tour_hists gs ts p) = calcLocHistIdx a p" "tour_threads (tour_hists gs ts p) = length gs"
  "tour_hists gs' ts' (tour_hists gs ts p) = tour_hists gs' ts' p"
  by (simp_all add: tour_hists_def calcLocHistIdx_def tour_threads_def)

lemma tour_sim_hists:
  "tour_sim (tour_hists gs ts p) (tour_hists gs' ts' p) \<longleftrightarrow> gs = gs' \<and>
     map (\<lambda>x. x AND t_localPredictorMask p) ts = map (\<lambda>x. x AND t_localPredictorMask p) ts'"
  by (cases p) (auto simp: tour_sim_def tour_hists_def)

lemma tour_self: "tour_hists (t_globalHistory p) (t_localHistoryTable p) p = p"
  by (simp add: tour_hists_def)

lemma tour_simE:
  assumes "tour_sim s t"
  obtains ts where "s = tour_hists (t_globalHistory t) ts t" "length ts = length (t_localHistoryTable t)"
    "map (\<lambda>x. x AND t_localPredictorMask t) ts = map (\<lambda>x. x AND t_localPredictorMask t) (t_localHistoryTable t)"
proof (rule that)
  show "s = tour_hists (t_globalHistory t) (t_localHistoryTable s) t"
    using assms by (cases s; cases t) (simp add: tour_sim_def tour_hists_def)
  show m: "map (\<lambda>x. x AND t_localPredictorMask t) (t_localHistoryTable s) =
      map (\<lambda>x. x AND t_localPredictorMask t) (t_localHistoryTable t)"
    using assms by (cases s; cases t) (simp add: tour_sim_def)
  from arg_cong [OF m, of length] show "length (t_localHistoryTable s) = length (t_localHistoryTable t)" by simp
qed

lemma tour_sim_refl: "tour_sim s s"
  by (simp add: tour_sim_def)

lemma tour_sim_trans: "tour_sim s t \<Longrightarrow> tour_sim t u \<Longrightarrow> tour_sim s u"
  by (simp add: tour_sim_def)

lemma shift_in_mask: "x AND mask k = y AND mask k \<Longrightarrow> shift_in b x AND mask k = shift_in b y AND mask k"
proof (rule bit_word_eqI)
  fix i
  assume e: "x AND mask k = y AND mask k" and i: "i < LENGTH(32)"
  have "i - 1 < k \<Longrightarrow> bit x (i - 1) = bit y (i - 1)"
    using arg_cong [OF e, of "\<lambda>w. bit w (i - 1)"] i by (auto simp: bit_and_iff bit_mask_iff)
  moreover have "bit (shift_in b w) i \<longleftrightarrow> (i = 0 \<and> b) \<or> (1 \<le> i \<and> bit w (i - 1))" for w
    using i by (auto simp: shift_in_def bit_or_iff bit_1_iff bit_push_bit_iff simp del: push_bit_Suc One_nat_def)
  ultimately show "bit (shift_in b x AND mask k) i = bit (shift_in b y AND mask k) i"
    by (simp add: bit_and_iff bit_mask_iff) linarith
qed

lemma map_upd_same:
  assumes "map f xs = map f ys" "f u = f v"
  shows "map f (xs[i := u]) = map f (ys[i := v])"
  using assms by (simp add: map_update)

lemma tour_squash_back:
  assumes s: "tour_ok s" "tid < tour_threads s"
    and gs: "gs = (t_globalHistory s)[tid := g]"
    and ts: "map (\<lambda>x. x AND t_localPredictorMask s) ts =
      map (\<lambda>x. x AND t_localPredictorMask s) ((t_localHistoryTable s)[unat (calcLocHistIdx a s) := v])"
  shows "\<exists>t'. tournament_squash tid (tour_hist tid a s) (tour_hists gs ts s) = Inr t' \<and> tour_ok t' \<and>
    tour_threads t' = length gs \<and> tour_sim t' s"
proof -
  let ?i = "unat (calcLocHistIdx a s)" and ?M = "t_localPredictorMask s" and ?tab = "t_localHistoryTable s"
  let ?t = "tour_hists (t_globalHistory s) (ts[?i := ?tab ! ?i AND ?M]) s"
  note i = tour_index [OF s(1), of a]
  have len: "length ts = length ?tab" using arg_cong [OF ts, of length] by simp
  have "tournament_squash tid (tour_hist tid a s) (tour_hists gs ts s) = Inr ?t"
    using s(2) i len unfolding gs
    by (simp add: tournament_squash_def tour_hist_def Let_def tour_threads_def) (simp add: tour_hists_def)
  moreover have "tour_sim ?t s"
  proof -
    have "map (\<lambda>x. x AND ?M) (ts[?i := ?tab ! ?i AND ?M]) = map (\<lambda>x. x AND ?M) ?tab"
      using i(1) by (simp add: map_update ts list_update_same_conv)
    then have "tour_sim ?t (tour_hists (t_globalHistory s) ?tab s)" by (simp add: tour_sim_hists)
    then show ?thesis by (simp add: tour_self)
  qed
  ultimately show ?thesis using s len by (simp add: gs tour_threads_def)
qed

lemma tour_uncond_eq:
  assumes "tid < tour_threads p"
  shows "tournament_uncondBranch tid a p = Inr (\<lparr>th_globalHistory = t_globalHistory p ! tid,
      th_localHistoryIdx = invalidPredictorIndex, th_localHistory = invalidPredictorIndex,
      th_localPredTaken = True, th_globalPredTaken = True, th_globalUsed = True\<rparr>,
    tour_hists ((t_globalHistory p)[tid := shift_in True (t_globalHistory p ! tid) AND t_historyRegisterMask p]) (t_localHistoryTable p) p)"
  using assms by (simp add: tournament_uncondBranch_def tour_threads_def updateGlobalHist_def tour_hists_def)

lemma tour_btb_eq:
  assumes "tour_ok p" "tid < tour_threads p"
  shows "tournament_btbUpdate tid a h p = Inr (tour_hists
    ((t_globalHistory p)[tid := t_globalHistory p ! tid AND (t_historyRegisterMask p AND NOT 1)])
    ((t_localHistoryTable p)[unat (calcLocHistIdx a p) :=
       t_localHistoryTable p ! unat (calcLocHistIdx a p) AND (t_localPredictorMask p AND NOT 1)]) p)"
  using assms tour_index(1) [OF assms(1), of a] by (simp add: tournament_btbUpdate_def tour_threads_def tour_hists_def)

lemma tour_update_ok:
  assumes "tour_ok p" "tournament_update tid a taken h squashed p = Inr p'"
  shows "tour_ok p' \<and> tour_threads p' = tour_threads p"
proof -
  have r: "tour_ok p' \<and> tour_threads p' = tour_threads p" if "tournament_restore tid i taken h p = Inr p'" for i
    using that assms(1) by (auto simp: tournament_restore_def tour_ok_def tour_threads_def Let_def split: if_splits)
  have c: "tour_ok q' \<and> tour_threads q' = tour_threads q" if "tournament_choice taken h q = Inr q'" "tour_ok q" for q q'
    using that by (auto simp: tournament_choice_def tour_ok_def tour_threads_def split: if_splits)
  have k: "tour_ok q' \<and> tour_threads q' = tour_threads q" if "tournament_counters taken h q = Inr q'" "tour_ok q" for q q'
    using that by (auto simp: tournament_counters_def tour_ok_def tour_threads_def Let_def split: if_splits)
  show ?thesis
  proof (cases squashed)
    case True
    then show ?thesis using assms(2) r by (auto simp: tournament_update_def Let_def)
  next
    case False
    then obtain q where "tournament_choice taken h p = Inr q" "tournament_counters taken h q = Inr p'"
      using assms(2) by (auto simp: tournament_update_def Let_def)
    with c [of p q] k [of q p'] assms(1) show ?thesis by simp
  qed
qed

lemma tour_update_returns:
  assumes "tour_ok p" "tid < tour_threads p"
  shows "\<exists>p'. tournament_update tid a taken h squashed p = Inr p'"
proof -
  note i = tour_index [OF assms(1), of a]
  have m: "unat (x AND t_localPredictorMask p) < length (t_localCtrs p)" "unat (x AND t_globalHistoryMask p) < length (t_globalCtrs p)"
    "unat (x AND t_choiceHistoryMask p) < length (t_choiceCtrs p)" for x
    using assms(1) by (auto simp: tour_ok_def intro: le_less_trans [OF and_ucast_le])
  have "\<exists>q. tournament_choice taken h p = Inr q \<and> t_globalHistoryMask q = t_globalHistoryMask p \<and>
      t_localPredictorMask q = t_localPredictorMask p \<and> t_globalCtrs q = t_globalCtrs p \<and> t_localCtrs q = t_localCtrs p"
    using m by (simp add: tournament_choice_def)
  then obtain q where q: "tournament_choice taken h p = Inr q" "t_globalHistoryMask q = t_globalHistoryMask p"
    "t_localPredictorMask q = t_localPredictorMask p" "t_globalCtrs q = t_globalCtrs p" "t_localCtrs q = t_localCtrs p" by blast
  have c: "\<exists>p'. tournament_counters taken h q = Inr p'" using m by (simp add: tournament_counters_def q Let_def)
  have r: "\<exists>p'. tournament_restore tid (calcLocHistIdx a p) taken h p = Inr p'"
    using assms(2) i by (simp add: tournament_restore_def tour_threads_def Let_def)
  have "th_localHistory h AND t_localPredictorMask p < t_localPredictorSize p"
    using m(1) [of "th_localHistory h"] assms(1) by (simp add: tour_ok_def word_less_nat_alt)
  then show ?thesis using i c r q(1) by (cases squashed) (simp_all add: tournament_update_def Let_def)
qed

interpretation tour_bp: direction_predictor tournament_ops tour_ok tour_threads tour_sim
proof unfold_locales
  fix s t u :: TournamentBP
  show "tour_sim s s" by (rule tour_sim_refl)
  show "tour_sim s t \<Longrightarrow> tour_sim t u \<Longrightarrow> tour_sim s u" by (rule tour_sim_trans)
next
  fix s :: TournamentBP and tid a
  assume s: "tour_ok s" "tid < tour_threads s"
  show "\<exists>p h s'. d_lookup tournament_ops tid a s = Inr (p, h, s') \<and> tour_ok s' \<and> tour_threads s' = tour_threads s"
    using s tour_lookup_eq [OF s, of a] by (simp add: tournament_ops_def Let_def tour_threads_def)
  show "\<exists>h s'. d_uncondBranch tournament_ops tid a s = Inr (h, s') \<and> tour_ok s' \<and> tour_threads s' = tour_threads s"
    using s tour_uncond_eq [OF s(2), of a] by (simp add: tournament_ops_def tour_threads_def)
next
  fix s :: TournamentBP and tid a h
  assume s: "tour_ok s" "tid < tour_threads s"
  show "\<exists>s'. d_btbUpdate tournament_ops tid a h s = Inr s' \<and> tour_ok s' \<and> tour_threads s' = tour_threads s"
    using s tour_btb_eq [OF s, of a h] by (simp add: tournament_ops_def tour_threads_def)
next
  fix s :: TournamentBP and tid a taken h squashed
  assume s: "tour_ok s" "tid < tour_threads s"
  show "\<exists>s'. d_update tournament_ops tid a taken h squashed s = Inr s' \<and> tour_ok s' \<and> tour_threads s' = tour_threads s"
    using tour_update_returns [OF s] tour_update_ok [OF s(1)] by (simp add: tournament_ops_def) blast
next
  fix s s' t :: TournamentBP and tid a p h
  assume s: "tour_ok s" "d_lookup tournament_ops tid a s = Inr (p, h, s')" "tour_ok t" "tour_sim t s'"
  then have l: "tournament_lookup tid a s = Inr (p, h, s')" by (simp add: tournament_ops_def)
  note tid = tour_tid(1) [OF l]
  let ?i = "unat (calcLocHistIdx a s)"
  define g where "g = shift_in p (t_globalHistory s ! tid) AND t_historyRegisterMask s"
  define v where "v = shift_in p (t_localHistoryTable s ! ?i)"
  have h: "h = tour_hist tid a s"
    and s': "s' = tour_hists ((t_globalHistory s)[tid := g]) ((t_localHistoryTable s)[?i := v]) s"
    using l tour_lookup_eq [OF s(1) tid, of a] by (auto simp: Let_def g_def v_def)
  obtain ts where ts: "t = tour_hists (t_globalHistory s') ts s'"
    "map (\<lambda>x. x AND t_localPredictorMask s') ts = map (\<lambda>x. x AND t_localPredictorMask s') (t_localHistoryTable s')"
    by (rule tour_simE [OF s(4)])
  from tour_squash_back [OF s(1) tid refl, of ts a v g] ts
  show "\<exists>t'. d_squash tournament_ops tid h t = Inr t' \<and> tour_ok t' \<and> tour_threads t' = tour_threads t \<and> tour_sim t' s"
    by (simp add: tournament_ops_def s' h)
next
  fix s s' s'' t :: TournamentBP and tid a p h
  assume s: "tour_ok s" "d_lookup tournament_ops tid a s = Inr (p, h, s')" "d_btbUpdate tournament_ops tid a h s' = Inr s''"
    "tour_ok t" "tour_sim t s''"
  then have l: "tournament_lookup tid a s = Inr (p, h, s')" "tournament_btbUpdate tid a h s' = Inr s''"
    by (simp_all add: tournament_ops_def)
  note tid = tour_tid(1) [OF l(1)]
  let ?i = "unat (calcLocHistIdx a s)"
  have h: "h = tour_hist tid a s" and s': "\<exists>g v. s' = tour_hists ((t_globalHistory s)[tid := g]) ((t_localHistoryTable s)[?i := v]) s"
    using l(1) tour_lookup_eq [OF s(1) tid, of a] by (auto simp: Let_def)
  have ok': "tour_ok s'" "tid < tour_threads s'" using s' s(1) tid by (auto simp: tour_threads_def)
  obtain g v where s'': "s'' = tour_hists ((t_globalHistory s)[tid := g]) ((t_localHistoryTable s)[?i := v]) s"
    using s' tour_btb_eq [OF ok', of a h] l(2) by auto
  obtain ts where ts: "t = tour_hists (t_globalHistory s'') ts s''"
    "map (\<lambda>x. x AND t_localPredictorMask s'') ts = map (\<lambda>x. x AND t_localPredictorMask s'') (t_localHistoryTable s'')"
    by (rule tour_simE [OF s(5)])
  from tour_squash_back [OF s(1) tid refl, of ts a v g] ts
  show "\<exists>t'. d_squash tournament_ops tid h t = Inr t' \<and> tour_ok t' \<and> tour_threads t' = tour_threads t \<and> tour_sim t' s"
    by (simp add: tournament_ops_def s'' h)
next
  fix s s' t :: TournamentBP and tid a h
  assume s: "tour_ok s" "d_uncondBranch tournament_ops tid a s = Inr (h, s')" "tour_ok t" "tour_sim t s'"
  then have l: "tournament_uncondBranch tid a s = Inr (h, s')" by (simp add: tournament_ops_def)
  note tid = tour_tid(2) [OF l]
  obtain g where s': "s' = tour_hists ((t_globalHistory s)[tid := g]) (t_localHistoryTable s) s"
    and h: "th_globalHistory h = t_globalHistory s ! tid" "th_localHistoryIdx h = invalidPredictorIndex"
    using l tour_uncond_eq [OF tid, of a] by auto
  obtain ts where ts: "t = tour_hists (t_globalHistory s') ts s'" "length ts = length (t_localHistoryTable s')"
    "map (\<lambda>x. x AND t_localPredictorMask s') ts = map (\<lambda>x. x AND t_localPredictorMask s') (t_localHistoryTable s')"
    by (rule tour_simE [OF s(4)])
  have q: "tournament_squash tid h t = Inr (tour_hists (t_globalHistory s) ts s)"
    using tid h by (simp add: tournament_squash_def ts(1) s' tour_threads_def) (simp add: tour_hists_def)
  have "tour_sim (tour_hists (t_globalHistory s) ts s) (tour_hists (t_globalHistory s) (t_localHistoryTable s) s)"
    using ts(3) by (simp add: tour_sim_hists s')
  then show "\<exists>t'. d_squash tournament_ops tid h t = Inr t' \<and> tour_ok t' \<and> tour_threads t' = tour_threads t \<and> tour_sim t' s"
    using q s(1) ts(1,2) by (simp add: tournament_ops_def tour_self s' tour_threads_def)
next
  fix s s' t :: TournamentBP and tid a p h
  assume s: "tour_ok s" "tour_ok t" "tour_sim s t" "d_lookup tournament_ops tid a s = Inr (p, h, s')"
  then have l: "tournament_lookup tid a s = Inr (p, h, s')" by (simp add: tournament_ops_def)
  note tid = tour_tid(1) [OF l]
  obtain ts where ts: "s = tour_hists (t_globalHistory t) ts t" "length ts = length (t_localHistoryTable t)"
    "map (\<lambda>x. x AND t_localPredictorMask t) ts = map (\<lambda>x. x AND t_localPredictorMask t) (t_localHistoryTable t)"
    by (rule tour_simE [OF s(3)])
  let ?i = "unat (calcLocHistIdx a t)"
  have i: "?i < length ts" using tour_index(1) [OF s(2), of a] ts(2) by simp
  have m: "ts ! ?i AND t_localPredictorMask t = t_localHistoryTable t ! ?i AND t_localPredictorMask t"
    using arg_cong [OF ts(3), of "\<lambda>xs. xs ! ?i"] i ts(2) by simp
  have h: "tour_hist tid a s = tour_hist tid a t"
    unfolding ts(1) using m by (simp add: tour_hist_def Let_def) (simp add: tour_hists_def)
  have tid': "tid < tour_threads t" using tid ts(1) by (simp add: tour_threads_def)
  obtain k where k: "t_localPredictorMask t = mask k" using s(2) by (auto simp: tour_ok_def)
  let ?p = "tour_pred (tour_hist tid a t)"
  let ?g = "(t_globalHistory t)[tid := shift_in ?p (t_globalHistory t ! tid) AND t_historyRegisterMask t]"
  have ph: "p = ?p" "h = tour_hist tid a t"
    using l tour_lookup_eq [OF s(1) tid, of a] unfolding h by (auto simp: Let_def)
  have s': "s' = tour_hists ?g (ts[?i := shift_in ?p (ts ! ?i)]) t"
    using l tour_lookup_eq [OF s(1) tid, of a] unfolding h by (auto simp: Let_def ts(1))
  have "map (\<lambda>x. x AND t_localPredictorMask t) (ts[?i := shift_in ?p (ts ! ?i)]) =
      map (\<lambda>x. x AND t_localPredictorMask t) ((t_localHistoryTable t)[?i := shift_in ?p (t_localHistoryTable t ! ?i)])"
    by (rule map_upd_same [OF ts(3)]) (use shift_in_mask [OF m [unfolded k], of ?p] in \<open>simp add: k\<close>)
  then have "tour_sim s' (tour_hists ?g ((t_localHistoryTable t)[?i := shift_in ?p (t_localHistoryTable t ! ?i)]) t)"
    by (simp add: s' tour_sim_hists)
  then show "\<exists>t'. d_lookup tournament_ops tid a t = Inr (p, h, t') \<and> tour_sim s' t'"
    using ph tour_lookup_eq [OF s(2) tid', of a] by (simp add: tournament_ops_def Let_def)
qed

lemma ceilLog2_power: "j < 64 \<Longrightarrow> ceilLog2 (2 ^ j) = Inr j"
proof (cases j)
  case (Suc i)
  assume j: "j < 64"
  have u: "unat (2 ^ j :: u64) = 2 ^ j" by (rule unat_2p [OF j])
  have n: "(2 ^ j :: u64) \<noteq> 0" "(2 ^ j :: u64) \<noteq> 1" using u Suc by (auto dest!: arg_cong [where f = unat])
  have "unat (2 ^ j - 1 :: u64) = 2 ^ j - 1" using u n(1) by (simp add: unat_sub_if' word_le_nat_alt unat_gt_0)
  then have "floorLog2 (2 ^ j - 1) = Inr i" by (intro floorLog2_unique) (simp_all add: Suc)
  then show ?thesis using n by (simp add: ceilLog2_def Suc word_gt_0)
qed (simp add: ceilLog2_def)

lemma ucast_mask: "ucast (mask_n k) = (mask k :: u32)"
  by (rule bit_word_eqI) (auto simp: bit_ucast_iff mask_n_eq bit_mask_iff)

lemma power2_u32:
  assumes "isPowerOf2 (ucast (x :: u32))" "ceilLog2 (ucast x) = Inr k"
  shows "unat x = 2 ^ k" "k < 32" "unat (mask k :: u32) < unat x"
proof -
  obtain j where j: "j < 64" "ucast x = (2 ^ j :: u64)" using assms(1) by (auto simp: isPowerOf2_iff)
  with assms(2) have k: "k = j" by (simp add: ceilLog2_power)
  have "unat (ucast x :: u64) = unat x"
    by (simp add: unsigned_ucast_eq take_bit_nat_eq_self_iff order_less_trans [OF unsigned_less])
  then show u: "unat x = 2 ^ k" using j k by (simp add: unat_2p)
  then have "(2::nat) ^ k < 2 ^ 32" using unsigned_less [of x, where ?'a = nat] by simp
  then show k32: "k < 32" by (rule power_less_imp_less_exp [rotated]) simp
  have "unat (mask k :: u32) < 2 ^ k"
    by (simp add: unsigned_take_bit_eq take_bit_nat_less_exp flip: take_bit_minus_one_eq_mask)
  then show "unat (mask k :: u32) < unat x" by (simp add: u)
qed

lemma new_TournamentBP_ok:
  assumes "new_TournamentBP n ls lb tb gs gb cs cb sh = Inr p"
  shows "tour_ok p \<and> tour_threads p = n"
proof -
  obtain lc gc cc k where c: "new_SatCounter lb 0 = Inr lc" "new_SatCounter gb 0 = Inr gc" "new_SatCounter cb 0 = Inr cc"
    "ceilLog2 (ucast ls) = Inr k" "isPowerOf2 (ucast ls)" "isPowerOf2 (ucast gs)" "isPowerOf2 (ucast tb)" "isPowerOf2 (ucast cs)"
    and p: "t_localPredictorMask p = ucast (mask_n k)" "t_localPredictorSize p = ls" "t_localCtrs p = replicate (unat ls) lc"
      "t_localHistoryTable p = replicate (unat tb) 0" "t_localHistoryTableSize p = tb" "t_globalCtrs p = replicate (unat gs) gc"
      "t_globalHistory p = replicate n 0" "t_globalHistoryMask p = gs - 1" "t_choiceHistoryMask p = cs - 1"
      "t_choiceCtrs p = replicate (unat cs) cc"
    using assms by (auto simp: new_TournamentBP_def Let_def)
  have "ls \<noteq> 0" "gs \<noteq> 0" "tb \<noteq> 0" "cs \<noteq> 0" using c(5-8) by (auto simp: isPowerOf2_def)
  with c power2_u32(3) [OF c(5,4)] show ?thesis
    using pred_lt [of gs] pred_lt [of cs]
    by (auto simp: tour_ok_def tour_threads_def p ucast_mask intro!: all_ok_replicate new_SatCounter_ok)
qed

subsection \<open>Properties\<close>

lemma drop_bit_nonzero: "drop_bit k (x :: u8) \<noteq> 0 \<longleftrightarrow> 2 ^ k \<le> unat x"
proof -
  have "drop_bit k x = 0 \<longleftrightarrow> unat (drop_bit k x) = 0" by (simp add: unat_eq_0)
  also have "unat (drop_bit k x) = unat x div 2 ^ k" by (subst unsigned_drop_bit_eq) (simp add: drop_bit_eq_div take_bit_nat_eq_self unsigned_less [of x, where ?'a = nat, simplified])
  finally show ?thesis by (simp add: div_eq_0_iff not_less)
qed

lemma getPrediction_iff: "getPrediction c p \<longleftrightarrow> 2 ^ (l_ctrBits p - 1) \<le> unat c"
  by (simp add: getPrediction_def drop_bit_nonzero)

lemma threshold_value: "threshold b = Inr th \<Longrightarrow> b \<le> 8 \<Longrightarrow> 1 \<le> b \<and> unat th = 2 ^ (b - 1) - 1"
proof -
  assume t: "threshold b = Inr th" and b: "b \<le> 8"
  have p: "(2::nat) ^ (b - 1) \<le> 2 ^ 7" by (rule power_increasing) (use b in simp_all)
  have u: "unat (2 ^ (b - 1) :: u64) = 2 ^ (b - 1)" using b by (intro unat_2p) simp
  have "unat (2 ^ (b - 1) - 1 :: u64) = 2 ^ (b - 1) - 1"
    using u by (simp add: unat_sub_if' word_le_nat_alt)
  then show ?thesis using t p
    by (auto simp: threshold_def push_bit_eq_mult unsigned_ucast_eq take_bit_nat_eq_self_iff)
qed

text \<open>The two ways the predictors read a counter agree: the test of the local predictor, which shifts the
  most significant of its bits down, and the comparison with the threshold that the bi-mode and the
  tournament predictor precompute in their constructors.\<close>

theorem msb_is_threshold:
  assumes "threshold b = Inr th" "b \<le> 8" "l_ctrBits p = b"
  shows "getPrediction (counter c) p = above c th"
proof -
  have "unat (ucast (counter c) :: u32) = unat (counter c)"
    by (simp add: unsigned_ucast_eq take_bit_nat_eq_self_iff order_less_trans [OF unsigned_less])
  moreover have "unat th < n \<longleftrightarrow> 2 ^ (b - 1) \<le> n" for n using threshold_value [OF assms(1,2)] by (simp add: less_eq_Suc_le)
  ultimately show ?thesis using assms(3) by (simp add: getPrediction_iff above_def word_less_nat_alt)
qed

text \<open>The counter a branch maps to after \<open>n\<close> commits in the same direction.\<close>

primrec local_updates :: "nat \<Rightarrow> nat \<Rightarrow> Addr \<Rightarrow> bool \<Rightarrow> LocalBP \<Rightarrow> LocalBP res" where
  "local_updates 0 tid a taken p = Inr p"
| "local_updates (Suc n) tid a taken p = rbind (local_update tid a taken () False p) (local_updates n tid a taken)"

definition ctr_value :: "Addr \<Rightarrow> LocalBP \<Rightarrow> nat" where
  "ctr_value a p = unat (counter (l_ctrs p ! unat (getLocalIndex a p)))"

lemma local_update_step:
  assumes "local_ok p"
  shows "\<exists>p'. local_update tid a taken () False p = Inr p' \<and> local_ok p' \<and> l_ctrBits p' = l_ctrBits p \<and>
    ctr_value a p' = (if taken then min (2 ^ l_ctrBits p - 1) (ctr_value a p + 1) else ctr_value a p - 1)"
proof -
  let ?i = "unat (getLocalIndex a p)" and ?f = "if taken then incr else decr"
  note i = local_index [OF assms, of a]
  have u: "local_update tid a taken () False p = Inr (p\<lparr>l_ctrs := (l_ctrs p)[?i := ?f (l_ctrs p ! ?i)]\<rparr>)"
    using i by (simp add: local_update_def)
  have c: "sat_ok (l_ctrs p ! ?i)" "unat (maxVal (l_ctrs p ! ?i)) = 2 ^ l_ctrBits p - 1"
    using assms i by (auto simp: local_ok_def all_ok_def)
  have idx: "getLocalIndex a (p\<lparr>l_ctrs := cs\<rparr>) = getLocalIndex a p" for cs by (simp add: getLocalIndex_def)
  show ?thesis
    using u local_update_ok [OF assms u] i c unat_incr [OF c(1)] unat_decr [of "l_ctrs p ! ?i"]
    by (auto simp: ctr_value_def idx)
qed

lemma local_updates_value:
  "local_ok p \<Longrightarrow> \<exists>p'. local_updates n tid a taken p = Inr p' \<and> local_ok p' \<and> l_ctrBits p' = l_ctrBits p \<and>
    (if taken then min (2 ^ l_ctrBits p - 1) (ctr_value a p + n) \<le> ctr_value a p' else ctr_value a p' = ctr_value a p - n)"
proof (induction n arbitrary: p)
  case (Suc n)
  obtain q where q: "local_update tid a taken () False p = Inr q" "local_ok q" "l_ctrBits q = l_ctrBits p"
    "ctr_value a q = (if taken then min (2 ^ l_ctrBits p - 1) (ctr_value a p + 1) else ctr_value a p - 1)"
    using local_update_step [OF Suc.prems] by blast
  from Suc.IH [OF q(2)] q show ?case by (auto split: if_splits)
qed simp

text \<open>The local predictor learns: whatever its counters hold, once a branch has been committed in one
  direction at least half as often as a counter has values, it is predicted in that direction.\<close>

theorem local_training:
  assumes "local_ok p" "2 ^ (l_ctrBits p - 1) \<le> n"
  shows "\<exists>p'. local_updates n tid a taken p = Inr p' \<and> local_lookup tid a p' = Inr (taken, (), p')"
proof -
  obtain q where q: "local_updates n tid a taken p = Inr q" "local_ok q" "l_ctrBits q = l_ctrBits p"
    "if taken then min (2 ^ l_ctrBits p - 1) (ctr_value a p + n) \<le> ctr_value a q else ctr_value a q = ctr_value a p - n"
    using local_updates_value [OF assms(1)] by blast
  let ?c = "l_ctrs p ! unat (getLocalIndex a p)"
  have "sat_ok ?c" "unat (maxVal ?c) = 2 ^ l_ctrBits p - 1" and b: "1 \<le> l_ctrBits p"
    using assms(1) local_index [OF assms(1), of a] by (auto simp: local_ok_def all_ok_def)
  then have "ctr_value a p \<le> 2 ^ l_ctrBits p - 1" by (simp add: ctr_value_def sat_ok_def word_le_nat_alt)
  moreover have "(2::nat) ^ l_ctrBits p = 2 * 2 ^ (l_ctrBits p - 1)" using b by (cases "l_ctrBits p") simp_all
  moreover have "1 \<le> (2::nat) ^ (l_ctrBits p - 1)" by simp
  ultimately have "if taken then 2 ^ (l_ctrBits p - 1) \<le> ctr_value a q else ctr_value a q < 2 ^ (l_ctrBits p - 1)"
    using q(4) assms(2) by (cases taken; simp only: if_True if_False) linarith+
  then show ?thesis using q by (auto simp: local_lookup_eq getPrediction_iff ctr_value_def split: if_splits)
qed

end
