(* ===== verification/Branch_Target.thy ===== *)
theory Branch_Target
  imports Branch_Pred
begin

text \<open>
  Where a branch goes: the branch target buffer (\<^verbatim>\<open>gem5/src/cpu/pred/btb.cc\<close>), the return address stack
  (\<^verbatim>\<open>ras.cc\<close>, \<^verbatim>\<open>ras.hh\<close>) and the indirect predictor (\<^verbatim>\<open>simple_indirect.cc\<close>).  The program counter of
  the simulated architecture is a type parameter \<open>'pc\<close> with the operations of the record \<open>isa\<close>, since
  the architecture is chosen when the simulator is built.  The stack, a ring of entries, is shown to
  be a stack that forgets its oldest entry.
\<close>

unbundle bit_operations_syntax

text \<open>What the predictors use of the architecture: the state for an address (the constructor and \<^verbatim>\<open>set\<close>), the address of
  a state, the return target and the step to the next instruction.\<close>

record ('pc, 'inst) isa =
  pc_at :: "Addr \<Rightarrow> 'pc"
  instAddr :: "'pc \<Rightarrow> Addr"
  buildRetPC :: "'pc \<Rightarrow> 'pc \<Rightarrow> 'pc"
  advancePC :: "'pc \<Rightarrow> 'inst \<Rightarrow> 'pc"

subsection \<open>The branch target buffer\<close>

text \<open>The thread of an entry is set by the first update; until then the entry is not valid and its thread
  is not read.\<close>

record 'pc BTBEntry =
  e_tag :: Addr
  e_target :: 'pc
  e_tid :: "nat option"
  e_valid :: bool

record 'pc DefaultBTB =
  btb_vec :: "'pc BTBEntry list"
  btb_numEntries :: u32
  btb_idxMask :: u32
  btb_tagBits :: nat
  btb_tagMask :: u32
  btb_instShiftAmt :: nat
  btb_tagShiftAmt :: nat
  btb_log2NumThreads :: nat

definition new_DefaultBTB :: "('pc, 'inst) isa \<Rightarrow> u32 \<Rightarrow> nat \<Rightarrow> nat \<Rightarrow> nat \<Rightarrow> 'pc DefaultBTB res" where
  "new_DefaultBTB I n tagBits shift threads =
     rbind (floorLog2 (of_nat threads)) (\<lambda>lt.
     require (isPowerOf2 (ucast n)) (Fatal ''BTB entries is not a power of 2!'')
     (require (tagBits < 31) (Undefined ''signed shift'')
      (rbind (floorLog2 (ucast n)) (\<lambda>ln.
       Inr \<lparr>btb_vec = replicate (unat n) \<lparr>e_tag = 0, e_target = pc_at I 0, e_tid = None, e_valid = False\<rparr>,
            btb_numEntries = n, btb_idxMask = n - 1, btb_tagBits = tagBits, btb_tagMask = 2 ^ tagBits - 1,
            btb_instShiftAmt = shift, btb_tagShiftAmt = shift + ln, btb_log2NumThreads = lt\<rparr>))))"

definition btb_reset :: "'pc DefaultBTB \<Rightarrow> 'pc DefaultBTB" where
  "btb_reset b = b\<lparr>btb_vec := map (\<lambda>e. e\<lparr>e_valid := False\<rparr>) (btb_vec b)\<rparr>"

text \<open>The thread is shifted as an \<^verbatim>\<open>int\<close>, by an unsigned amount.\<close>

definition btb_getIndex :: "Addr \<Rightarrow> nat \<Rightarrow> 'pc DefaultBTB \<Rightarrow> u32 res" where
  "btb_getIndex a tid b =
     (let k = btb_tagShiftAmt b - btb_instShiftAmt b - btb_log2NumThreads b in
      require (btb_instShiftAmt b + btb_log2NumThreads b \<le> btb_tagShiftAmt b \<and> int tid * 2 ^ k < 2 ^ 31) (Undefined ''signed shift'')
      (Inr (ucast ((drop_bit (btb_instShiftAmt b) a XOR of_int (int tid * 2 ^ k)) AND ucast (btb_idxMask b)))))"

definition btb_getTag :: "Addr \<Rightarrow> 'pc DefaultBTB \<Rightarrow> Addr" where
  "btb_getTag a b = drop_bit (btb_tagShiftAmt b) a AND ucast (btb_tagMask b)"

definition btb_entry :: "Addr \<Rightarrow> nat \<Rightarrow> 'pc DefaultBTB \<Rightarrow> 'pc BTBEntry res" where
  "btb_entry a tid b =
     rbind (btb_getIndex a tid b) (\<lambda>i.
     require (i < btb_numEntries b) (AssertFail ''btb_idx < numEntries'') (vec_at (btb_vec b) (unat i)))"

definition btb_hit :: "Addr \<Rightarrow> nat \<Rightarrow> 'pc DefaultBTB \<Rightarrow> 'pc BTBEntry \<Rightarrow> bool" where
  "btb_hit a tid b e \<longleftrightarrow> e_valid e \<and> btb_getTag a b = e_tag e \<and> e_tid e = Some tid"

definition btb_valid :: "Addr \<Rightarrow> nat \<Rightarrow> 'pc DefaultBTB \<Rightarrow> bool res" where
  "btb_valid a tid b = rbind (btb_entry a tid b) (\<lambda>e. Inr (btb_hit a tid b e))"

definition btb_lookup :: "('pc, 'inst) isa \<Rightarrow> Addr \<Rightarrow> nat \<Rightarrow> 'pc DefaultBTB \<Rightarrow> 'pc res" where
  "btb_lookup I a tid b =
     rbind (btb_entry a tid b) (\<lambda>e. Inr (if btb_hit a tid b e then e_target e else pc_at I 0))"

definition btb_update :: "Addr \<Rightarrow> 'pc \<Rightarrow> nat \<Rightarrow> 'pc DefaultBTB \<Rightarrow> 'pc DefaultBTB res" where
  "btb_update a target tid b =
     rbind (btb_getIndex a tid b) (\<lambda>i.
     require (i < btb_numEntries b) (AssertFail ''btb_idx < numEntries'')
     (rbind (vec_upd (unat i) (\<lambda>e. e\<lparr>e_tid := Some tid, e_valid := True, e_target := target, e_tag := btb_getTag a b\<rparr>) (btb_vec b))
       (\<lambda>es. Inr (b\<lparr>btb_vec := es\<rparr>))))"

subsection \<open>The return address stack\<close>

record 'pc ReturnAddrStack =
  addrStack :: "'pc list"
  ras_numEntries :: u32
  usedEntries :: u32
  tos :: u32

definition ras_reset :: "('pc, 'inst) isa \<Rightarrow> 'pc ReturnAddrStack \<Rightarrow> 'pc ReturnAddrStack" where
  "ras_reset I r = r\<lparr>usedEntries := 0, tos := 0, addrStack := replicate (unat (ras_numEntries r)) (pc_at I 0)\<rparr>"

definition ras_init :: "('pc, 'inst) isa \<Rightarrow> u32 \<Rightarrow> 'pc ReturnAddrStack \<Rightarrow> 'pc ReturnAddrStack" where
  "ras_init I n r = ras_reset I (r\<lparr>ras_numEntries := n, addrStack := replicate (unat n) (pc_at I 0)\<rparr>)"

definition ras_top :: "'pc ReturnAddrStack \<Rightarrow> 'pc res" where
  "ras_top r = vec_at (addrStack r) (unat (tos r))"

definition topIdx :: "'pc ReturnAddrStack \<Rightarrow> u32" where
  "topIdx r = tos r"

definition ras_empty :: "'pc ReturnAddrStack \<Rightarrow> bool" where
  "ras_empty r \<longleftrightarrow> usedEntries r = 0"

definition ras_full :: "'pc ReturnAddrStack \<Rightarrow> bool" where
  "ras_full r \<longleftrightarrow> usedEntries r = ras_numEntries r"

definition incrTos :: "'pc ReturnAddrStack \<Rightarrow> 'pc ReturnAddrStack" where
  "incrTos r = r\<lparr>tos := (if tos r + 1 = ras_numEntries r then 0 else tos r + 1)\<rparr>"

definition decrTos :: "'pc ReturnAddrStack \<Rightarrow> 'pc ReturnAddrStack" where
  "decrTos r = r\<lparr>tos := (if tos r = 0 then ras_numEntries r - 1 else tos r - 1)\<rparr>"

definition ras_push :: "'pc \<Rightarrow> 'pc ReturnAddrStack \<Rightarrow> 'pc ReturnAddrStack res" where
  "ras_push x r =
     (let r1 = incrTos r in
      rbind (vec_upd (unat (tos r1)) (\<lambda>_. x) (addrStack r1)) (\<lambda>xs.
      Inr (r1\<lparr>addrStack := xs,
              usedEntries := (if usedEntries r1 \<noteq> ras_numEntries r1 then usedEntries r1 + 1 else usedEntries r1)\<rparr>)))"

definition ras_pop :: "'pc ReturnAddrStack \<Rightarrow> 'pc ReturnAddrStack" where
  "ras_pop r = decrTos (if usedEntries r > 0 then r\<lparr>usedEntries := usedEntries r - 1\<rparr> else r)"

definition ras_restore :: "u32 \<Rightarrow> 'pc \<Rightarrow> 'pc ReturnAddrStack \<Rightarrow> 'pc ReturnAddrStack res" where
  "ras_restore i x r =
     (let r1 = r\<lparr>tos := i\<rparr> in
      rbind (vec_upd (unat (tos r1)) (\<lambda>_. x) (addrStack r1)) (\<lambda>xs. Inr (r1\<lparr>addrStack := xs\<rparr>)))"

subsection \<open>The indirect predictor\<close>

record 'pc IPredEntry =
  i_tag :: Addr
  i_target :: 'pc

record HistoryEntry =
  h_pcAddr :: Addr
  h_targetAddr :: Addr
  h_seqNum :: u64

record ThreadInfo =
  pathHist :: "HistoryEntry list"
  headHistEntry :: nat
  ghr :: u32

record 'pc SimpleIndirectPredictor =
  hashGHR :: bool
  hashTargets :: bool
  numSets :: u32
  numWays :: nat
  si_tagBits :: nat
  pathLength :: nat
  si_instShift :: nat
  ghrMask :: u32
  targetCache :: "'pc IPredEntry list list"
  threadInfo :: "ThreadInfo list"
  randCalls :: nat

definition new_SimpleIndirectPredictor ::
  "('pc, 'inst) isa \<Rightarrow> bool \<Rightarrow> bool \<Rightarrow> u32 \<Rightarrow> nat \<Rightarrow> nat \<Rightarrow> nat \<Rightarrow> nat \<Rightarrow> nat \<Rightarrow> nat \<Rightarrow> 'pc SimpleIndirectPredictor res" where
  "new_SimpleIndirectPredictor I hg ht sets ways tagBits plen shift ghrBits threads =
     require (ghrBits < 31) (Undefined ''signed shift'')
     (require (isPowerOf2 (ucast sets)) (Panic ''Indirect predictor requires power of 2 number of sets'')
      (require (ghrBits \<le> 32) (Fatal ''ghr_size is too big'')
       (Inr \<lparr>hashGHR = hg, hashTargets = ht, numSets = sets, numWays = ways, si_tagBits = tagBits, pathLength = plen,
             si_instShift = shift, ghrMask = 2 ^ ghrBits - 1,
             targetCache = replicate (unat sets) (replicate ways \<lparr>i_tag = 0, i_target = pc_at I 0\<rparr>),
             threadInfo = replicate threads \<lparr>pathHist = [], headHistEntry = 0, ghr = 0\<rparr>, randCalls = 0\<rparr>)))"

definition genIndirectInfo :: "nat \<Rightarrow> 'pc SimpleIndirectPredictor \<Rightarrow> u32 res" where
  "genIndirectInfo tid p = rbind (vec_at (threadInfo p) tid) (\<lambda>t. Inr (ghr t))"

definition upd_thread :: "nat \<Rightarrow> (ThreadInfo \<Rightarrow> ThreadInfo) \<Rightarrow> 'pc SimpleIndirectPredictor \<Rightarrow> 'pc SimpleIndirectPredictor res" where
  "upd_thread tid f p = rbind (vec_upd tid f (threadInfo p)) (\<lambda>ts. Inr (p\<lparr>threadInfo := ts\<rparr>))"

definition updateDirectionInfo :: "nat \<Rightarrow> bool \<Rightarrow> 'pc SimpleIndirectPredictor \<Rightarrow> 'pc SimpleIndirectPredictor res" where
  "updateDirectionInfo tid taken p =
     upd_thread tid (\<lambda>t. t\<lparr>ghr := (push_bit 1 (ghr t) OR (if taken then 1 else 0)) AND ghrMask p\<rparr>) p"

definition changeDirectionPrediction :: "nat \<Rightarrow> u32 \<Rightarrow> bool \<Rightarrow> 'pc SimpleIndirectPredictor \<Rightarrow> 'pc SimpleIndirectPredictor res" where
  "changeDirectionPrediction tid previousGhr taken p =
     upd_thread tid (\<lambda>t. t\<lparr>ghr := (push_bit 1 previousGhr + (if taken then 1 else 0)) AND ghrMask p\<rparr>) p"

text \<open>The targets of the path, the latest first, are folded into the hash.\<close>

fun path_hash :: "nat \<Rightarrow> nat \<Rightarrow> nat \<Rightarrow> HistoryEntry list \<Rightarrow> nat \<Rightarrow> Addr \<Rightarrow> Addr" where
  "path_hash shift hash_shift len [] p hash = hash"
| "path_hash shift hash_shift len (e # es) p hash =
     (if p < len then path_hash shift hash_shift len es (p + 1) (hash XOR drop_bit (shift + p * hash_shift) (h_targetAddr e))
      else hash)"

definition getSetIndex :: "Addr \<Rightarrow> u32 \<Rightarrow> nat \<Rightarrow> 'pc SimpleIndirectPredictor \<Rightarrow> Addr res" where
  "getSetIndex a g tid p =
     rbind (vec_at (threadInfo p) tid) (\<lambda>t.
     let h0 = drop_bit (si_instShift p) a; h1 = (if hashGHR p then h0 XOR ucast g else h0) in
     if hashTargets p
     then rbind (floorLog2 (ucast (numSets p))) (\<lambda>l.
          require (pathLength p \<noteq> 0) (Undefined ''division by zero'')
          (Inr (path_hash (si_instShift p) (l div pathLength p) (pathLength p) (rev (pathHist t)) 0 h1 AND ucast (numSets p - 1))))
     else Inr (h1 AND ucast (numSets p - 1)))"

definition si_getTag :: "Addr \<Rightarrow> 'pc SimpleIndirectPredictor \<Rightarrow> Addr res" where
  "si_getTag a p = require (si_tagBits p < 31) (Undefined ''signed shift'')
     (Inr (drop_bit (si_instShift p) a AND (2 ^ si_tagBits p - 1)))"

definition si_lookup :: "Addr \<Rightarrow> nat \<Rightarrow> 'pc SimpleIndirectPredictor \<Rightarrow> 'pc option res" where
  "si_lookup a tid p =
     rbind (vec_at (threadInfo p) tid) (\<lambda>t.
     rbind (getSetIndex a (ghr t) tid p) (\<lambda>si.
     rbind (si_getTag a p) (\<lambda>tag.
     require (si < ucast (numSets p)) (AssertFail ''set_index < numSets'')
     (rbind (vec_at (targetCache p) (unat si)) (\<lambda>iset.
      Inr (map_option i_target (find (\<lambda>w. i_tag w = tag) iset)))))))"

definition recordIndirect :: "Addr \<Rightarrow> Addr \<Rightarrow> u64 \<Rightarrow> nat \<Rightarrow> 'pc SimpleIndirectPredictor \<Rightarrow> 'pc SimpleIndirectPredictor res" where
  "recordIndirect a tgt sn tid p =
     upd_thread tid (\<lambda>t. t\<lparr>pathHist := pathHist t @ [\<lparr>h_pcAddr = a, h_targetAddr = tgt, h_seqNum = sn\<rparr>]\<rparr>) p"

definition commit_thread :: "nat \<Rightarrow> u64 \<Rightarrow> ThreadInfo \<Rightarrow> ThreadInfo" where
  "commit_thread plen sn t =
     (if pathHist t \<noteq> [] \<and> headHistEntry t < length (pathHist t) \<and> h_seqNum (pathHist t ! headHistEntry t) \<le> sn
      then if headHistEntry t \<ge> plen then t\<lparr>pathHist := tl (pathHist t)\<rparr> else t\<lparr>headHistEntry := headHistEntry t + 1\<rparr>
      else t)"

definition si_commit :: "u64 \<Rightarrow> nat \<Rightarrow> u32 \<Rightarrow> 'pc SimpleIndirectPredictor \<Rightarrow> 'pc SimpleIndirectPredictor res" where
  "si_commit sn tid h p = upd_thread tid (commit_thread (pathLength p) sn) p"

definition si_squash :: "u64 \<Rightarrow> nat \<Rightarrow> 'pc SimpleIndirectPredictor \<Rightarrow> 'pc SimpleIndirectPredictor res" where
  "si_squash sn tid p = upd_thread tid (\<lambda>t. t\<lparr>pathHist := takeWhile (\<lambda>e. \<not> h_seqNum e > sn) (pathHist t)\<rparr>) p"

definition deleteIndirectInfo :: "nat \<Rightarrow> u32 \<Rightarrow> 'pc SimpleIndirectPredictor \<Rightarrow> 'pc SimpleIndirectPredictor res" where
  "deleteIndirectInfo tid previousGhr p = upd_thread tid (\<lambda>t. t\<lparr>ghr := previousGhr\<rparr>) p"

fun set_way :: "Addr \<Rightarrow> 'pc \<Rightarrow> 'pc IPredEntry list \<Rightarrow> 'pc IPredEntry list option" where
  "set_way tag tgt [] = None"
| "set_way tag tgt (w # ws) =
     (if i_tag w = tag then Some (w\<lparr>i_target := tgt\<rparr> # ws) else map_option ((#) w) (set_way tag tgt ws))"

text \<open>\<open>rnd n\<close> is the value of the \<open>n\<close>-th call of \<^verbatim>\<open>rand\<close>.\<close>

definition alloc_way :: "(nat \<Rightarrow> nat) \<Rightarrow> Addr \<Rightarrow> 'pc \<Rightarrow> 'pc SimpleIndirectPredictor \<Rightarrow> 'pc IPredEntry list \<Rightarrow> 'pc IPredEntry list res" where
  "alloc_way rnd tag tgt p iset =
     require (numWays p \<noteq> 0) (Undefined ''division by zero'')
     (vec_upd (rnd (randCalls p) mod numWays p) (\<lambda>w. w\<lparr>i_tag := tag, i_target := tgt\<rparr>) iset)"

definition recordTarget :: "('pc, 'inst) isa \<Rightarrow> (nat \<Rightarrow> nat) \<Rightarrow> u32 \<Rightarrow> 'pc \<Rightarrow> nat \<Rightarrow> 'pc SimpleIndirectPredictor \<Rightarrow> 'pc SimpleIndirectPredictor res" where
  "recordTarget I rnd g tgt tid p =
     rbind (vec_at (threadInfo p) tid) (\<lambda>t.
     require (pathHist t \<noteq> []) (Undefined ''rbegin of an empty deque'')
     (let e = last (pathHist t) in
      rbind (upd_thread tid (\<lambda>t. t\<lparr>pathHist := butlast (pathHist t)\<rparr>) p) (\<lambda>p1.
      rbind (getSetIndex (h_pcAddr e) g tid p1) (\<lambda>si.
      rbind (si_getTag (h_pcAddr e) p1) (\<lambda>tag.
      rbind (upd_thread tid (\<lambda>t. t\<lparr>pathHist := pathHist t @ [e\<lparr>h_targetAddr := instAddr I tgt\<rparr>]\<rparr>) p1) (\<lambda>p2.
      require (si < ucast (numSets p2)) (AssertFail ''set_index < numSets'')
      (rbind (vec_at (targetCache p2) (unat si)) (\<lambda>iset.
       case set_way tag tgt iset of
         Some iset1 \<Rightarrow> Inr (p2\<lparr>targetCache := (targetCache p2)[unat si := iset1]\<rparr>)
       | None \<Rightarrow> rbind (alloc_way rnd tag tgt p2 iset)
           (\<lambda>iset1. Inr (p2\<lparr>targetCache := (targetCache p2)[unat si := iset1], randCalls := randCalls p2 + 1\<rparr>))))))))))"

subsection \<open>The target buffer keeps what it is given\<close>

definition btb_ok :: "nat \<Rightarrow> 'pc DefaultBTB \<Rightarrow> bool" where
  "btb_ok threads b \<longleftrightarrow>
     (let k = btb_tagShiftAmt b - btb_instShiftAmt b - btb_log2NumThreads b in
      btb_instShiftAmt b + btb_log2NumThreads b \<le> btb_tagShiftAmt b \<and> int threads * 2 ^ k \<le> 2 ^ 31 \<and>
      length (btb_vec b) = unat (btb_numEntries b) \<and> unat (btb_idxMask b) < unat (btb_numEntries b))"

lemma ucast_and_le: "unat (ucast (x AND ucast m) :: u32) \<le> unat m" for x :: u64 and m :: u32
proof -
  have "unat (ucast (x AND ucast m) :: u32) \<le> unat (x AND ucast m)" by (simp add: unsigned_ucast_eq)
  also have "\<dots> \<le> unat (ucast m :: u64)" by (rule and_ucast_le)
  also have "\<dots> = unat m" by (simp add: unsigned_ucast_eq take_bit_nat_eq_self_iff order_less_trans [OF unsigned_less])
  finally show ?thesis .
qed

lemma btb_index_total:
  assumes "btb_ok n b" "tid < n"
  obtains i where "btb_getIndex a tid b = Inr i" "i < btb_numEntries b" "unat i < length (btb_vec b)"
proof -
  define k where "k = btb_tagShiftAmt b - btb_instShiftAmt b - btb_log2NumThreads b"
  define i :: u32 where "i = ucast ((drop_bit (btb_instShiftAmt b) a XOR of_int (int tid * 2 ^ k)) AND ucast (btb_idxMask b))"
  have ok: "btb_instShiftAmt b + btb_log2NumThreads b \<le> btb_tagShiftAmt b" "int n * 2 ^ k \<le> 2 ^ 31"
    "length (btb_vec b) = unat (btb_numEntries b)" "unat (btb_idxMask b) < unat (btb_numEntries b)"
    using assms(1) by (simp_all add: btb_ok_def Let_def k_def)
  have "int tid * 2 ^ k < 2 ^ 31" by (rule less_le_trans [OF _ ok(2)]) (use assms(2) in simp)
  then have "btb_getIndex a tid b = Inr i"
    using ok(1) by (simp add: btb_getIndex_def Let_def i_def k_def [symmetric] del: diff_diff_left)
  moreover have "unat i < unat (btb_numEntries b)" unfolding i_def by (rule le_less_trans [OF ucast_and_le ok(4)])
  ultimately show thesis using ok(3) by (intro that) (simp_all add: word_less_nat_alt)
qed

lemma btb_fields [simp]:
  "btb_getIndex a tid (b\<lparr>btb_vec := es\<rparr>) = btb_getIndex a tid b" "btb_getTag a (b\<lparr>btb_vec := es\<rparr>) = btb_getTag a b"
  by (auto simp: btb_getIndex_def btb_getTag_def btb_ok_def Let_def)

lemma btb_ok_entries: "btb_ok n b \<Longrightarrow> length es = length (btb_vec b) \<Longrightarrow> btb_ok n (b\<lparr>btb_vec := es\<rparr>)"
  by (auto simp: btb_ok_def Let_def)

lemma btb_update_eq:
  assumes "btb_ok n b" "tid < n" "btb_getIndex a tid b = Inr i"
  shows "btb_update a tgt tid b = Inr (b\<lparr>btb_vec := (btb_vec b)[unat i := (btb_vec b ! unat i)\<lparr>e_tid := Some tid, e_valid := True,
    e_target := tgt, e_tag := btb_getTag a b\<rparr>]\<rparr>)"
  using btb_index_total [OF assms(1,2), of a] assms(3) by (auto simp: btb_update_def)

lemma btb_entry_eq:
  assumes "btb_ok n b" "tid < n" "btb_getIndex a tid b = Inr i"
  shows "btb_entry a tid b = Inr (btb_vec b ! unat i)"
  using btb_index_total [OF assms(1,2), of a] assms(3) by (auto simp: btb_entry_def)

lemma btb_lookup_total:
  "btb_ok n b \<Longrightarrow> tid < n \<Longrightarrow> \<exists>v t. btb_valid a tid b = Inr v \<and> btb_lookup I a tid b = Inr t"
  by (metis (no_types, lifting) btb_entry_eq btb_index_total btb_lookup_def btb_valid_def rbind_simps(2))

lemma btb_update_total:
  "btb_ok n b \<Longrightarrow> tid < n \<Longrightarrow> \<exists>b'. btb_update a t tid b = Inr b' \<and> btb_ok n b'"
  by (metis btb_update_eq btb_index_total btb_ok_entries length_list_update)


text \<open>A constructed buffer is one these facts apply to, if it has no fewer entries than there are threads.\<close>

lemma new_btb_ok:
  assumes b: "new_DefaultBTB I n tb sh threads = Inr b" and n: "unat n \<le> 2 ^ 30" "threads \<le> unat n"
  shows "btb_ok threads b"
proof -
  obtain lt ln where l: "floorLog2 (of_nat threads) = Inr lt" "floorLog2 (ucast n) = Inr ln" "isPowerOf2 (ucast n)"
    and b': "length (btb_vec b) = unat n" "btb_numEntries b = n" "btb_idxMask b = n - 1" "btb_instShiftAmt b = sh"
      "btb_tagShiftAmt b = sh + ln" "btb_log2NumThreads b = lt"
    using b by (auto simp: new_DefaultBTB_def)
  have u: "unat (ucast n :: u64) = unat n"
    by (simp add: unsigned_ucast_eq take_bit_nat_eq_self_iff order_less_trans [OF unsigned_less])
  have t: "unat (of_nat threads :: u64) = threads" using n by (simp add: unsigned_of_nat take_bit_nat_eq_self_iff)
  have lb: "2 ^ lt \<le> threads" "threads \<le> 2 ^ (lt + 1)" "unat n < 2 ^ (ln + 1)" "2 ^ ln \<le> unat n"
    using floorLog2_bounds [OF l(1)] floorLog2_bounds [OF l(2)] u t by simp_all
  have "(2::nat) ^ lt < 2 ^ (ln + 1)" using lb n(2) by linarith
  then have "lt < ln + 1" by (rule power_less_imp_less_exp [rotated]) simp
  then have le: "lt \<le> ln" by simp
  have "(2::nat) ^ ln \<le> 2 ^ 30" using lb(4) n(1) by linarith
  then have ln: "ln \<le> 30" by (rule power_le_imp_le_exp [rotated]) simp
  have "threads * 2 ^ (ln - lt) \<le> 2 ^ (lt + 1) * 2 ^ (ln - lt)" using lb(2) by (rule mult_right_mono) simp
  also have "\<dots> = 2 ^ (ln + 1)" using le by (simp flip: power_add)
  also have "\<dots> \<le> 2 ^ 31" using ln by (intro power_increasing) simp_all
  finally have "int (threads * 2 ^ (ln - lt)) \<le> int (2 ^ 31)" by (simp only: of_nat_le_iff)
  then have m: "int threads * 2 ^ (ln - lt) \<le> 2 ^ 31" by simp
  have "n \<noteq> 0" using l(3) by (auto simp: isPowerOf2_def)
  from pred_lt [OF this] show ?thesis using le m by (simp add: btb_ok_def b' Let_def)
qed

text \<open>The branch target buffer after an update: the branch just recorded is valid with its target; a branch
  of the same set is valid exactly if it has the recorded tag and thread, and then reads the same target;
  a branch of another set is looked up as before.\<close>

theorem btb_lookup_after_update:
  assumes ok: "btb_ok n b" and tid: "tid < n" "tid' < n"
    and i: "btb_getIndex a tid b = Inr i" "btb_getIndex a' tid' b = Inr i'"
  shows "\<exists>b1. btb_update a tgt tid b = Inr b1 \<and> btb_ok n b1 \<and>
    btb_valid a' tid' b1 = (if i' = i then Inr (btb_getTag a' b = btb_getTag a b \<and> tid' = tid) else btb_valid a' tid' b) \<and>
    btb_lookup I a' tid' b1 = (if i' = i then Inr (if btb_getTag a' b = btb_getTag a b \<and> tid' = tid then tgt else pc_at I 0)
      else btb_lookup I a' tid' b)"
proof -
  define b1 where "b1 = b\<lparr>btb_vec := (btb_vec b)[unat i := (btb_vec b ! unat i)\<lparr>e_tid := Some tid, e_valid := True,
    e_target := tgt, e_tag := btb_getTag a b\<rparr>]\<rparr>"
  have u: "btb_update a tgt tid b = Inr b1" unfolding b1_def by (rule btb_update_eq [OF ok tid(1) i(1)])
  have ok1: "btb_ok n b1" unfolding b1_def by (rule btb_ok_entries [OF ok]) simp
  have idx: "btb_getIndex a' tid' b1 = Inr i'" "btb_getTag a' b1 = btb_getTag a' b" using i(2) by (simp_all add: b1_def)
  have e1: "btb_entry a' tid' b1 = Inr (btb_vec b1 ! unat i')" by (rule btb_entry_eq [OF ok1 tid(2) idx(1)])
  have e: "btb_entry a' tid' b = Inr (btb_vec b ! unat i')" by (rule btb_entry_eq [OF ok tid(2) i(2)])
  have len: "unat i < length (btb_vec b)" using btb_index_total [OF ok tid(1), of a] i(1) by auto
  have nth: "btb_vec b1 ! unat i' = (if i' = i then (btb_vec b ! unat i)\<lparr>e_tid := Some tid, e_valid := True,
    e_target := tgt, e_tag := btb_getTag a b\<rparr> else btb_vec b ! unat i')"
    using len by (auto simp: b1_def nth_list_update dest: unsigned_word_eqI)
  have "btb_hit a' tid' b1 (btb_vec b1 ! unat i') =
      (if i' = i then btb_getTag a' b = btb_getTag a b \<and> tid' = tid else btb_hit a' tid' b (btb_vec b ! unat i'))"
    unfolding btb_hit_def nth idx(2) by auto
  then show ?thesis using u ok1 nth by (simp add: btb_valid_def btb_lookup_def e e1)
qed

subsection \<open>The return address stack forgets its oldest entry\<close>

definition ras_ok :: "'pc ReturnAddrStack \<Rightarrow> bool" where
  "ras_ok r \<longleftrightarrow> tos r < ras_numEntries r \<and> length (addrStack r) = unat (ras_numEntries r) \<and> usedEntries r \<le> ras_numEntries r"

text \<open>The entries from the top down, around the ring.\<close>

definition ras_list :: "'pc ReturnAddrStack \<Rightarrow> 'pc list" where
  "ras_list r = (let n = length (addrStack r) in map (\<lambda>j. addrStack r ! ((unat (tos r) + n - j) mod n)) [0..<n])"

lemma length_ras_list [simp]: "length (ras_list r) = length (addrStack r)"
  by (simp add: ras_list_def Let_def)

lemma nth_ras_list: "j < length (addrStack r) \<Longrightarrow>
    ras_list r ! j = addrStack r ! ((unat (tos r) + length (addrStack r) - j) mod length (addrStack r))"
  by (simp add: ras_list_def Let_def)

lemma unat_incrTos: "ras_ok r \<Longrightarrow> unat (tos (incrTos r)) = (unat (tos r) + 1) mod length (addrStack r)"
proof -
  assume ok: "ras_ok r"
  let ?n = "unat (ras_numEntries r)"
  have t: "unat (tos r) < ?n" "length (addrStack r) = ?n" using ok by (simp_all add: ras_ok_def word_less_nat_alt)
  have "?n < 2 ^ 32" using unsigned_less [of "ras_numEntries r", where ?'a = nat] by simp
  with t have s: "unat (tos r + 1) = unat (tos r) + 1" by (simp add: unat_word_ariths)
  have "tos r + 1 = ras_numEntries r \<longleftrightarrow> unat (tos r) + 1 = ?n" using s by (metis unsigned_word_eqI)
  then show ?thesis using t s by (auto simp: incrTos_def)
qed

lemma unat_decrTos: "ras_ok r \<Longrightarrow> unat (tos (decrTos r)) = (unat (tos r) + length (addrStack r) - 1) mod length (addrStack r)"
proof -
  assume ok: "ras_ok r"
  let ?n = "unat (ras_numEntries r)"
  have t: "unat (tos r) < ?n" "length (addrStack r) = ?n" using ok by (simp_all add: ras_ok_def word_less_nat_alt)
  show ?thesis
  proof (cases "tos r = 0")
    case True
    then show ?thesis using t by (simp add: decrTos_def unat_sub_if' word_le_nat_alt)
  next
    case False
    then have p: "0 < unat (tos r)" by (simp add: unat_gt_0)
    have "(unat (tos r) + ?n - 1) mod ?n = (unat (tos r) - 1 + ?n) mod ?n" using p by simp
    also have "\<dots> = unat (tos r) - 1" using t(1) by simp
    finally show ?thesis using False p t(2) by (simp add: decrTos_def unat_sub_if' word_le_nat_alt)
  qed
qed

lemma ring_up:
  fixes t n j :: nat
  assumes "t < n" "j < n"
  shows "((t + 1) mod n + n - Suc j) mod n = (t + n - j) mod n"
  using assms by (cases "t + 1 = n") (auto simp: mod_if)

lemma ring_down:
  fixes t n j :: nat
  assumes "t < n" "Suc j < n"
  shows "((t + n - 1) mod n + n - j) mod n = (t + n - Suc j) mod n"
proof (cases "t = 0")
  case False
  then have "(t + n - 1) mod n = t - 1" using assms(1) by (simp add: mod_if)
  then show ?thesis using False by simp
qed (use assms in \<open>auto simp: mod_if\<close>)

lemma ring_distinct:
  fixes t n j :: nat
  assumes "t < n" "0 < j" "j < n"
  shows "(t + n - j) mod n \<noteq> t"
  using assms by (auto simp: mod_if)

lemma ras_okD: "ras_ok r \<Longrightarrow> unat (tos r) < length (addrStack r)"
  by (simp add: ras_ok_def word_less_nat_alt)

lemma unat_incrTos_less: "ras_ok r \<Longrightarrow> unat (tos (incrTos r)) < length (addrStack r)"
  using ras_okD [of r] by (subst unat_incrTos) (auto intro: mod_less_divisor)

lemma ras_list_0: "ras_ok r \<Longrightarrow> ras_list r ! 0 = addrStack r ! unat (tos r)"
  using ras_okD [of r] by (subst nth_ras_list) auto

text \<open>Writing a new top, whether pushed or restored.\<close>

lemma ras_list_new_top:
  assumes "ras_ok r" "addrStack r1 = (addrStack r)[unat (tos r1) := x]" "tos r1 = tos (incrTos r)"
  shows "ras_list r1 = x # butlast (ras_list r)"
proof (rule nth_equalityI)
  let ?n = "length (addrStack r)"
  note n = ras_okD [OF assms(1)]
  note up = unat_incrTos [OF assms(1)]
  have top: "unat (tos r1) < ?n" unfolding assms(3) by (rule unat_incrTos_less [OF assms(1)])
  have len: "length (addrStack r1) = ?n" by (simp add: assms(2))
  show "length (ras_list r1) = length (x # butlast (ras_list r))" using n by (simp add: len)
  fix j
  assume "j < length (ras_list r1)"
  then have j: "j < ?n" by (simp add: len)
  show "ras_list r1 ! j = (x # butlast (ras_list r)) ! j"
  proof (cases j)
    case 0
    have "0 < length (addrStack r1)" unfolding len using j by (rule le_less_trans [OF le0])
    then have "ras_list r1 ! 0 = addrStack r1 ! unat (tos r1)" using top by (subst nth_ras_list) (simp_all add: len)
    then show ?thesis using top 0 by (simp add: assms(2))
  next
    case (Suc i)
    have "(unat (tos r1) + ?n - j) mod ?n \<noteq> unat (tos r1)" using top j Suc by (intro ring_distinct) simp_all
    then have "ras_list r1 ! j = addrStack r ! ((unat (tos r1) + ?n - j) mod ?n)"
      using j by (simp add: nth_ras_list len assms(2))
    also have "(unat (tos r1) + ?n - j) mod ?n = (unat (tos r) + ?n - i) mod ?n"
      unfolding assms(3) up Suc using n j Suc by (intro ring_up) simp_all
    finally show ?thesis using j Suc by (simp add: nth_ras_list nth_butlast)
  qed
qed

lemma ras_push_eq:
  assumes "ras_ok r"
  obtains r1 where "ras_push x r = Inr r1" "ras_ok r1" "ras_list r1 = x # butlast (ras_list r)" "tos r1 = tos (incrTos r)"
    "length (addrStack r1) = length (addrStack r)"
proof -
  define r1 where "r1 = (incrTos r)\<lparr>addrStack := (addrStack r)[unat (tos (incrTos r)) := x],
    usedEntries := (if usedEntries r \<noteq> ras_numEntries r then usedEntries r + 1 else usedEntries r)\<rparr>"
  note up = unat_incrTos_less [OF assms]
  have f: "addrStack (incrTos r) = addrStack r" "usedEntries (incrTos r) = usedEntries r"
    "ras_numEntries (incrTos r) = ras_numEntries r" by (simp_all add: incrTos_def)
  have p: "ras_push x r = Inr r1" using up by (simp add: ras_push_def Let_def f r1_def)
  have "usedEntries r \<noteq> ras_numEntries r \<Longrightarrow> usedEntries r + 1 \<le> ras_numEntries r"
    using assms inc_le [of "usedEntries r" "ras_numEntries r"] by (auto simp: ras_ok_def order_less_le)
  then have ok: "ras_ok r1" using assms up by (auto simp: ras_ok_def r1_def f word_less_nat_alt)
  have l: "ras_list r1 = x # butlast (ras_list r)" by (rule ras_list_new_top [OF assms]) (simp_all add: r1_def)
  show thesis by (rule that [OF p ok l]) (simp_all add: r1_def)
qed

lemma ras_pop_list:
  assumes "ras_ok r"
  shows "ras_list (ras_pop r) = rotate1 (ras_list r)" "ras_ok (ras_pop r)" "tos (ras_pop r) = tos (decrTos r)"
    "length (addrStack (ras_pop r)) = length (addrStack r)"
proof -
  let ?n = "length (addrStack r)" and ?u = "if usedEntries r > 0 then r\<lparr>usedEntries := usedEntries r - 1\<rparr> else r"
  have n: "unat (tos r) < ?n" "?n = unat (ras_numEntries r)" using assms by (simp_all add: ras_ok_def word_less_nat_alt)
  show t: "tos (ras_pop r) = tos (decrTos r)" by (simp add: ras_pop_def decrTos_def)
  have f: "addrStack (ras_pop r) = addrStack r" "ras_numEntries (ras_pop r) = ras_numEntries r"
    by (simp_all add: ras_pop_def decrTos_def)
  then show "length (addrStack (ras_pop r)) = ?n" by simp
  note down = unat_decrTos [OF assms]
  have "usedEntries (ras_pop r) \<le> ras_numEntries r"
    using assms by (auto simp: ras_pop_def decrTos_def ras_ok_def word_le_nat_alt unat_sub_if' word_less_nat_alt)
  then show "ras_ok (ras_pop r)" using n by (simp add: ras_ok_def f t down word_less_nat_alt)
  show "ras_list (ras_pop r) = rotate1 (ras_list r)"
  proof (rule nth_equalityI)
    fix j
    assume "j < length (ras_list (ras_pop r))"
    then have j: "j < ?n" by (simp add: f)
    have l: "ras_list (ras_pop r) ! j = addrStack r ! (((unat (tos r) + ?n - 1) mod ?n + ?n - j) mod ?n)"
      using j by (simp add: nth_ras_list f t down)
    have r: "rotate1 (ras_list r) ! j = ras_list r ! (Suc j mod ?n)" using j by (simp add: nth_rotate1)
    show "ras_list (ras_pop r) ! j = rotate1 (ras_list r) ! j"
    proof (cases "Suc j < ?n")
      case True
      then show ?thesis using l r n(1) by (simp add: nth_ras_list ring_down del: One_nat_def)
    next
      case False
      then have "Suc j = ?n" using j by simp
      moreover have "((unat (tos r) + ?n - 1) mod ?n + ?n - j) mod ?n = unat (tos r)"
        using n(1) \<open>Suc j = ?n\<close> by (cases "unat (tos r)") (auto simp: mod_if)
      ultimately show ?thesis using l r ras_list_0 [OF assms] by simp
    qed
  qed (simp add: f)
qed

lemma ras_restore_eq:
  assumes "ras_ok r" "i = tos (incrTos r)"
  obtains r1 where "ras_restore i x r = Inr r1" "ras_ok r1" "ras_list r1 = x # butlast (ras_list r)" "tos r1 = i"
    "length (addrStack r1) = length (addrStack r)"
proof -
  have up: "unat i < length (addrStack r)" unfolding assms(2) by (rule unat_incrTos_less [OF assms(1)])
  define r1 where "r1 = r\<lparr>tos := i, addrStack := (addrStack r)[unat i := x]\<rparr>"
  have a: "ras_restore i x r = Inr r1" using up by (simp add: ras_restore_def Let_def r1_def)
  have b: "ras_ok r1" using assms up by (simp add: ras_ok_def r1_def word_less_nat_alt)
  have c: "ras_list r1 = x # butlast (ras_list r)"
    by (rule ras_list_new_top [OF assms(1)]) (simp_all add: r1_def assms(2))
  show thesis by (rule that [OF a b c]) (simp_all add: r1_def)
qed

lemma decr_incr_tos: "ras_ok r \<Longrightarrow> tos r1 = tos (incrTos r) \<Longrightarrow> ras_ok r1 \<Longrightarrow> length (addrStack r1) = length (addrStack r) \<Longrightarrow>
    tos (decrTos r1) = tos r"
  by (rule unsigned_word_eqI [where ?'a = nat])
    (auto simp: unat_decrTos unat_incrTos mod_if ras_ok_def word_less_nat_alt)

lemma incr_decr_tos: "ras_ok r \<Longrightarrow> tos r1 = tos (decrTos r) \<Longrightarrow> ras_ok r1 \<Longrightarrow> length (addrStack r1) = length (addrStack r) \<Longrightarrow>
    tos (incrTos r1) = tos r"
  by (rule unsigned_word_eqI [where ?'a = nat])
    (auto simp: unat_decrTos unat_incrTos mod_if ras_ok_def word_less_nat_alt)

lemma ras_top_eq: "ras_ok r \<Longrightarrow> ras_top r = Inr (hd (ras_list r))"
  using ras_list_0 [of r] ras_okD [of r] by (subst hd_conv_nth) (auto simp: ras_top_def simp flip: length_greater_0_conv)

lemma ras_init_ok: "n \<noteq> 0 \<Longrightarrow> ras_ok (ras_init I n r)"
  by (simp add: ras_init_def ras_reset_def ras_ok_def word_gt_0)

text \<open>C24: The return address stack refines a stack of fixed height: reading the ring from the top down, the top is
  its head, a push puts an address on it and forgets the oldest entry, a pop moves the top to the bottom,
  and restoring the entry above the top (what squashing a return does) is a push.\<close>

theorem ras_refines_stack:
  assumes "ras_ok r"
  shows "\<exists>r1 r2. ras_top r = Inr (hd (ras_list r)) \<and>
    ras_push x r = Inr r1 \<and> ras_ok r1 \<and> ras_list r1 = x # butlast (ras_list r) \<and>
    ras_ok (ras_pop r) \<and> ras_list (ras_pop r) = rotate1 (ras_list r) \<and>
    ras_restore (tos (incrTos r)) x r = Inr r2 \<and> ras_ok r2 \<and> ras_list r2 = x # butlast (ras_list r)"
proof -
  obtain r1 where r1: "ras_push x r = Inr r1" "ras_ok r1" "ras_list r1 = x # butlast (ras_list r)"
    by (rule ras_push_eq [OF assms])
  obtain r2 where r2: "ras_restore (tos (incrTos r)) x r = Inr r2" "ras_ok r2" "ras_list r2 = x # butlast (ras_list r)"
    by (rule ras_restore_eq [OF assms refl])
  show ?thesis using r1 r2 ras_top_eq [OF assms] ras_pop_list [OF assms] by blast
qed

theorem ras_refines_stack_witness:
  "\<exists>r1 r2. let r = \<lparr>addrStack = [1, 2, 3 :: nat], ras_numEntries = 3, usedEntries = 2, tos = 1\<rparr> in
    ras_list r = [2, 1, 3] \<and> ras_push 9 r = Inr r1 \<and> ras_list r1 = [9, 2, 1] \<and> ras_list (ras_pop r) = [1, 3, 2] \<and>
    ras_restore (tos (incrTos r)) 9 r = Inr r2 \<and> ras_list r2 = [9, 2, 1]"
proof -
  let ?r = "\<lparr>addrStack = [1, 2, 3 :: nat], ras_numEntries = 3, usedEntries = 2, tos = 1\<rparr>"
  have "ras_ok ?r" by code_simp
  moreover have "ras_list ?r = [2, 1, 3]" by code_simp
  ultimately show ?thesis using ras_refines_stack [of ?r 9] unfolding Let_def by auto
qed

subsection \<open>The indirect predictor\<close>

definition si_ok :: "nat \<Rightarrow> 'pc SimpleIndirectPredictor \<Rightarrow> bool" where
  "si_ok threads p \<longleftrightarrow> length (threadInfo p) = threads \<and> isPowerOf2 (ucast (numSets p)) \<and> si_tagBits p < 31 \<and>
     length (targetCache p) = unat (numSets p) \<and> (\<forall>ws \<in> set (targetCache p). length ws = numWays p) \<and>
     pathLength p \<noteq> 0 \<and> numWays p \<noteq> 0"

lemma ucast_u32_u64: "unat (ucast x :: u64) = unat x" for x :: u32
  by (simp add: unsigned_ucast_eq take_bit_nat_eq_self_iff order_less_trans [OF unsigned_less])

lemma set_index_total:
  assumes "si_ok n p" "tid < n"
  obtains si where "getSetIndex a g tid p = Inr si" "si < ucast (numSets p)" "unat si < length (targetCache p)"
proof -
  have nz: "numSets p \<noteq> 0" using assms(1) by (auto simp: si_ok_def isPowerOf2_def)
  then have "(ucast (numSets p) :: u64) \<noteq> 0" using ucast_u32_u64 [of "numSets p"] by (metis unsigned_eq_0_iff)
  then obtain l where l: "floorLog2 (ucast (numSets p)) = Inr l" using floorLog2_total by blast
  have "\<exists>h. getSetIndex a g tid p = Inr (h AND ucast (numSets p - 1))"
    using assms l by (auto simp: getSetIndex_def si_ok_def Let_def)
  then obtain h where h: "getSetIndex a g tid p = Inr (h AND ucast (numSets p - 1))" ..
  have "unat (h AND ucast (numSets p - 1)) \<le> unat (numSets p - 1)"
    using and_ucast_le [of h "ucast (numSets p - 1)"] by (simp add: ucast_u32_u64)
  also have "\<dots> < unat (numSets p)" by (rule pred_lt [OF nz])
  finally show thesis using assms(1) by (intro that [OF h]) (simp_all add: word_less_nat_alt ucast_u32_u64 si_ok_def)
qed

lemma find_set_way: "set_way tag tgt ws = Some ws' \<Longrightarrow> map_option i_target (find (\<lambda>w. i_tag w = tag) ws') = Some tgt"
  by (induction ws arbitrary: ws') (auto split: if_splits)

lemma set_way_None: "set_way tag tgt ws = None \<longleftrightarrow> (\<forall>w \<in> set ws. i_tag w \<noteq> tag)"
  by (induction ws) auto

lemma length_set_way: "set_way tag tgt ws = Some ws' \<Longrightarrow> length ws' = length ws"
  by (induction ws arbitrary: ws') (auto split: if_splits)

lemma find_update_new:
  "i < length ws \<Longrightarrow> \<forall>w \<in> set ws. \<not> P w \<Longrightarrow> P v \<Longrightarrow> find P (ws[i := v]) = Some v"
  by (induction ws arbitrary: i) (auto split: nat.split simp: nth_Cons')

lemma upd_thread_eq: "tid < length (threadInfo p) \<Longrightarrow>
    upd_thread tid f p = Inr (p\<lparr>threadInfo := (threadInfo p)[tid := f (threadInfo p ! tid)]\<rparr>)"
  by (simp add: upd_thread_def)

lemma getSetIndex_cong:
  "numSets q = numSets p \<Longrightarrow> hashGHR q = hashGHR p \<Longrightarrow> hashTargets q = hashTargets p \<Longrightarrow> pathLength q = pathLength p \<Longrightarrow>
   si_instShift q = si_instShift p \<Longrightarrow> tid < length (threadInfo p) \<Longrightarrow> tid < length (threadInfo q) \<Longrightarrow>
   pathHist (threadInfo q ! tid) = pathHist (threadInfo p ! tid) \<Longrightarrow> getSetIndex a g tid q = getSetIndex a g tid p"
  by (simp add: getSetIndex_def Let_def)

text \<open>C25: The indirect predictor learns a target: when the target of the latest indirect branch of the path has been recorded,
  the same branch, reached with the same earlier path and the global history it was predicted with, is predicted to
  go there.\<close>

theorem indirect_target_learned:
  assumes ok: "si_ok n p" and tid: "tid < n" and path: "pathHist (threadInfo p ! tid) = es @ [e]"
  shows "\<exists>p'. recordTarget I rnd g tgt tid p = Inr p' \<and> si_ok n p' \<and>
    si_lookup (h_pcAddr e) tid (p'\<lparr>threadInfo := (threadInfo p')[tid := (threadInfo p' ! tid)\<lparr>pathHist := es, ghr := g\<rparr>]\<rparr>) =
      Inr (Some tgt)"
proof -
  have t: "tid < length (threadInfo p)" using ok tid by (simp add: si_ok_def)
  define p1 where "p1 = p\<lparr>threadInfo := (threadInfo p)[tid := (threadInfo p ! tid)\<lparr>pathHist := es\<rparr>]\<rparr>"
  define ti where "ti = (threadInfo p)[tid := (threadInfo p ! tid)\<lparr>pathHist := es @ [e\<lparr>h_targetAddr := instAddr I tgt\<rparr>]\<rparr>]"
  have ok1: "si_ok n p1" using ok by (simp add: si_ok_def p1_def)
  obtain si where si: "getSetIndex (h_pcAddr e) g tid p1 = Inr si" "si < ucast (numSets p1)" "unat si < length (targetCache p1)"
    by (rule set_index_total [OF ok1 tid])
  have tag: "si_getTag (h_pcAddr e) q = Inr (drop_bit (si_instShift p) (h_pcAddr e) AND (2 ^ si_tagBits p - 1))"
    if "si_tagBits q = si_tagBits p" "si_instShift q = si_instShift p" for q :: "'a SimpleIndirectPredictor"
    using ok that by (simp add: si_getTag_def si_ok_def)
  let ?tag = "drop_bit (si_instShift p) (h_pcAddr e) AND (2 ^ si_tagBits p - 1)"
  let ?ws = "targetCache p ! unat si"
  have len: "length ?ws = numWays p" "unat si < length (targetCache p)" using ok si(3) by (auto simp: si_ok_def p1_def)
  have "\<exists>ws' k. recordTarget I rnd g tgt tid p = Inr (p\<lparr>threadInfo := ti, targetCache := (targetCache p)[unat si := ws'], randCalls := k\<rparr>) \<and>
      length ws' = numWays p \<and> map_option i_target (find (\<lambda>w. i_tag w = ?tag) ws') = Some tgt"
  proof (cases "set_way ?tag tgt ?ws")
    case (Some ws')
    have "recordTarget I rnd g tgt tid p =
        Inr (p\<lparr>threadInfo := ti, targetCache := (targetCache p)[unat si := ws'], randCalls := randCalls p\<rparr>)"
      using t path si Some tag by (simp add: recordTarget_def Let_def upd_thread_eq p1_def ti_def)
    then show ?thesis
      by (rule_tac x = ws' in exI, rule_tac x = "randCalls p" in exI)
        (simp add: find_set_way [OF Some] length_set_way [OF Some] len)
  next
    case None
    have lt: "rnd (randCalls p) mod numWays p < length ?ws" using ok len(1) by (simp add: si_ok_def)
    let ?i = "rnd (randCalls p) mod numWays p"
    let ?w = "(?ws ! ?i)\<lparr>i_tag := ?tag, i_target := tgt\<rparr>"
    have "recordTarget I rnd g tgt tid p =
        Inr (p\<lparr>threadInfo := ti, targetCache := (targetCache p)[unat si := ?ws[?i := ?w]], randCalls := randCalls p + 1\<rparr>)"
      using t path si None tag lt ok by (simp add: recordTarget_def Let_def upd_thread_eq p1_def ti_def alloc_way_def si_ok_def)
    moreover have "find (\<lambda>w. i_tag w = ?tag) (?ws[?i := ?w]) = Some ?w"
      using None lt by (intro find_update_new) (simp_all add: set_way_None)
    ultimately show ?thesis
      by (rule_tac x = "?ws[?i := ?w]" in exI, rule_tac x = "randCalls p + 1" in exI) (simp add: len)
  qed
  then obtain ws' k where r: "recordTarget I rnd g tgt tid p =
      Inr (p\<lparr>threadInfo := ti, targetCache := (targetCache p)[unat si := ws'], randCalls := k\<rparr>)"
    "length ws' = numWays p" "map_option i_target (find (\<lambda>w. i_tag w = ?tag) ws') = Some tgt" by blast
  let ?p' = "p\<lparr>threadInfo := ti, targetCache := (targetCache p)[unat si := ws'], randCalls := k\<rparr>"
  let ?q = "?p'\<lparr>threadInfo := (threadInfo ?p')[tid := (threadInfo ?p' ! tid)\<lparr>pathHist := es, ghr := g\<rparr>]\<rparr>"
  have "si_ok n ?p'" using ok r(2) len(2) by (auto simp: si_ok_def ti_def dest!: set_update_subset_insert [THEN subsetD])
  moreover have "getSetIndex (h_pcAddr e) g tid ?q = getSetIndex (h_pcAddr e) g tid p1"
    using t by (intro getSetIndex_cong) (simp_all add: p1_def ti_def)
  then have "si_lookup (h_pcAddr e) tid ?q = Inr (Some tgt)"
    using t si len r(3) tag [of ?q] by (simp add: si_lookup_def ti_def p1_def)
  ultimately show ?thesis using r(1) by blast
qed

text \<open>C26: A new indirect predictor already answers: its entries have no valid bit and start with tag zero, so a
  branch whose tag bits are zero hits one of them and is predicted to go to address zero.\<close>

theorem fresh_indirect_hit:
  assumes "new_SimpleIndirectPredictor I hg ht sets ways tb plen sh gb n = Inr p" "tid < n"
    and "si_getTag a p = Inr 0" "getSetIndex a 0 tid p = Inr si" "ways \<noteq> 0" "unat si < unat sets"
  shows "si_lookup a tid p = Inr (Some (pc_at I 0))"
proof -
  have u: "unat (ucast sets :: u64) = unat sets" by (rule ucast_u32_u64)
  have "find (\<lambda>w. i_tag w = 0) (replicate ways \<lparr>i_tag = 0, i_target = pc_at I 0\<rparr>) = Some \<lparr>i_tag = 0, i_target = pc_at I 0\<rparr>"
    using assms(5) by (cases ways) simp_all
  then show ?thesis using assms u by (auto simp: new_SimpleIndirectPredictor_def si_lookup_def word_less_nat_alt)
qed

theorem fresh_indirect_hit_witness:
  "\<exists>p. new_SimpleIndirectPredictor \<lparr>pc_at = unat, instAddr = of_nat, buildRetPC = (\<lambda>p r. r), advancePC = (\<lambda>p (i::unit). p + 4)\<rparr>
     True True 2 1 4 3 2 13 1 = Inr p \<and> si_lookup 0x1000 0 p = Inr (Some 0)"
proof -
  let ?I = "\<lparr>pc_at = unat :: Addr \<Rightarrow> nat, instAddr = of_nat, buildRetPC = (\<lambda>p r. r), advancePC = (\<lambda>p (i::unit). p + 4)\<rparr>"
  define p where "p = \<lparr>hashGHR = True, hashTargets = True, numSets = 2, numWays = 1, si_tagBits = 4, pathLength = 3, si_instShift = 2,
    ghrMask = 0x1FFF, targetCache = [[\<lparr>i_tag = 0, i_target = 0 :: nat\<rparr>], [\<lparr>i_tag = 0, i_target = 0\<rparr>]],
    threadInfo = [\<lparr>pathHist = [], headHistEntry = 0, ghr = 0\<rparr>], randCalls = 0\<rparr>"
  have n: "new_SimpleIndirectPredictor ?I True True 2 1 4 3 2 13 1 = Inr p" unfolding p_def by code_simp
  have "si_getTag 0x1000 p = Inr 0" "getSetIndex 0x1000 0 0 p = Inr 0" unfolding p_def by code_simp+
  from fresh_indirect_hit [OF n _ this] n show ?thesis by simp
qed

theorem indirect_target_learned_witness:
  "\<exists>p'. recordTarget \<lparr>pc_at = unat, instAddr = of_nat, buildRetPC = (\<lambda>p r. r), advancePC = (\<lambda>p (i::unit). p + 4)\<rparr> (\<lambda>k. 5) 1 99 0
     \<lparr>hashGHR = True, hashTargets = True, numSets = 2, numWays = 1, si_tagBits = 4, pathLength = 3, si_instShift = 2,
      ghrMask = 0x1FFF, targetCache = [[\<lparr>i_tag = 0, i_target = 0 :: nat\<rparr>], [\<lparr>i_tag = 0, i_target = 0\<rparr>]],
      threadInfo = [\<lparr>pathHist = [\<lparr>h_pcAddr = 0x1004, h_targetAddr = 8, h_seqNum = 3\<rparr>], headHistEntry = 0, ghr = 0\<rparr>], randCalls = 0\<rparr> = Inr p'"
proof -
  let ?I = "\<lparr>pc_at = unat :: Addr \<Rightarrow> nat, instAddr = of_nat, buildRetPC = (\<lambda>p r. r), advancePC = (\<lambda>p (i::unit). p + 4)\<rparr>"
  define p where "p = \<lparr>hashGHR = True, hashTargets = True, numSets = 2, numWays = 1, si_tagBits = 4, pathLength = 3, si_instShift = 2,
    ghrMask = 0x1FFF, targetCache = [[\<lparr>i_tag = 0, i_target = 0 :: nat\<rparr>], [\<lparr>i_tag = 0, i_target = 0\<rparr>]],
    threadInfo = [\<lparr>pathHist = [\<lparr>h_pcAddr = 0x1004, h_targetAddr = 8, h_seqNum = 3\<rparr>], headHistEntry = 0, ghr = 0\<rparr>], randCalls = 0\<rparr>"
  have "si_ok 1 p" unfolding p_def by code_simp
  moreover have "pathHist (threadInfo p ! 0) = [] @ [\<lparr>h_pcAddr = 0x1004, h_targetAddr = 8, h_seqNum = 3\<rparr>]" by (simp add: p_def)
  ultimately show ?thesis using indirect_target_learned [of 1 p 0 "[]" _ ?I "\<lambda>k. 5" 1 99] by (auto simp: p_def)
qed

end
