(* ===== verification/BPred_Unit.thy ===== *)
theory BPred_Unit
  imports Branch_Target
begin

text \<open>
  The branch prediction unit (\<^verbatim>\<open>gem5/src/cpu/pred/bpred_unit.cc\<close>): \<^verbatim>\<open>predict\<close>, the commit of predictions
  (\<^verbatim>\<open>update\<close>) and the two forms of \<^verbatim>\<open>squash\<close>, over any direction predictor of \<open>Branch_Pred\<close> and the target
  predictors of \<open>Branch_Target\<close>.  The history of outstanding predictions is a list per thread, youngest
  first, as the deque of the source.  The theorems are proved once, in the locale
  \<open>direction_predictor\<close>, and read off for the three predictors: the unit never fails from a good state,
  and squashing undoes the predictions it squashes.
\<close>

subsection \<open>Instructions and histories\<close>

record StaticInst =
  isCall :: bool
  isReturn :: bool
  isDirectCtrl :: bool
  isUncondCtrl :: bool

record ('pc, 'h, 'inst) PredictorHistory =
  ph_seqNum :: u64
  ph_pc :: Addr
  ph_bpHistory :: 'h
  ph_indirectHistory :: "u32 option"
  ph_RASTarget :: 'pc
  ph_RASIndex :: u32
  ph_tid :: nat
  ph_predTaken :: bool
  ph_usedRAS :: bool
  ph_pushedRAS :: bool
  ph_wasCall :: bool
  ph_wasReturn :: bool
  ph_wasIndirect :: bool
  ph_target :: Addr
  ph_inst :: 'inst

definition new_history ::
  "('pc, 'inst) isa \<Rightarrow> u64 \<Rightarrow> Addr \<Rightarrow> bool \<Rightarrow> 'h \<Rightarrow> u32 option \<Rightarrow> nat \<Rightarrow> 'inst \<Rightarrow> ('pc, 'h, 'inst) PredictorHistory" where
  "new_history I sn pc taken h ih tid inst =
     \<lparr>ph_seqNum = sn, ph_pc = pc, ph_bpHistory = h, ph_indirectHistory = ih, ph_RASTarget = pc_at I 0, ph_RASIndex = 0,
      ph_tid = tid, ph_predTaken = taken, ph_usedRAS = False, ph_pushedRAS = False, ph_wasCall = False,
      ph_wasReturn = False, ph_wasIndirect = False, ph_target = -1, ph_inst = inst\<rparr>"

record bp_stats =
  st_lookups :: nat
  st_condPredicted :: nat
  st_condIncorrect :: nat
  st_BTBLookups :: nat
  st_BTBHits :: nat
  st_usedRAS :: nat
  st_RASIncorrect :: nat
  st_indirectLookups :: nat
  st_indirectHits :: nat
  st_indirectMisses :: nat
  st_indirectMispredicted :: nat

record ('pc, 'h, 's, 'inst) BPredUnit =
  u_dir :: 's
  predHist :: "('pc, 'h, 'inst) PredictorHistory list list"
  u_BTB :: "'pc DefaultBTB"
  u_RAS :: "'pc ReturnAddrStack list"
  iPred :: "'pc SimpleIndirectPredictor option"
  u_stats :: bp_stats

definition no_stats :: bp_stats where
  "no_stats = \<lparr>st_lookups = 0, st_condPredicted = 0, st_condIncorrect = 0, st_BTBLookups = 0, st_BTBHits = 0, st_usedRAS = 0,
     st_RASIncorrect = 0, st_indirectLookups = 0, st_indirectHits = 0, st_indirectMisses = 0, st_indirectMispredicted = 0\<rparr>"

definition count :: "(bp_stats \<Rightarrow> bp_stats) \<Rightarrow> ('pc, 'h, 's, 'inst) BPredUnit \<Rightarrow> ('pc, 'h, 's, 'inst) BPredUnit" where
  "count f u = u\<lparr>u_stats := f (u_stats u)\<rparr>"

definition new_BPredUnit ::
  "('pc, 'inst) isa \<Rightarrow> nat \<Rightarrow> u32 \<Rightarrow> nat \<Rightarrow> nat \<Rightarrow> u32 \<Rightarrow> 'pc SimpleIndirectPredictor option \<Rightarrow> 's \<Rightarrow>
   ('pc, 'h, 's, 'inst) BPredUnit res" where
  "new_BPredUnit I threads btbEntries btbTag shift rasSize ip d =
     rbind (new_DefaultBTB I btbEntries btbTag shift threads) (\<lambda>b.
     Inr \<lparr>u_dir = d, predHist = replicate threads [], u_BTB = b,
          u_RAS = replicate threads (ras_init I rasSize \<lparr>addrStack = [], ras_numEntries = 0, usedEntries = 0, tos = 0\<rparr>),
          iPred = ip, u_stats = no_stats\<rparr>)"

definition drainSanityCheck :: "('pc, 'h, 's, 'inst) BPredUnit \<Rightarrow> unit res" where
  "drainSanityCheck u = require (\<forall>ph \<in> set (predHist u). ph = []) (AssertFail ''ph.empty()'') (Inr ())"

subsection \<open>Prediction\<close>

definition on_RAS :: "nat \<Rightarrow> ('pc ReturnAddrStack \<Rightarrow> 'pc ReturnAddrStack res) \<Rightarrow> ('pc, 'h, 's, 'inst) BPredUnit \<Rightarrow>
    ('pc, 'h, 's, 'inst) BPredUnit res" where
  "on_RAS tid f u = rbind (vec_at (u_RAS u) tid) (\<lambda>r. rbind (f r) (\<lambda>r1. Inr (u\<lparr>u_RAS := (u_RAS u)[tid := r1]\<rparr>)))"

definition on_iPred :: "('pc SimpleIndirectPredictor \<Rightarrow> 'pc SimpleIndirectPredictor res) \<Rightarrow> ('pc, 'h, 's, 'inst) BPredUnit \<Rightarrow>
    ('pc, 'h, 's, 'inst) BPredUnit res" where
  "on_iPred f u = (case iPred u of None \<Rightarrow> Inr u | Some p \<Rightarrow> rbind (f p) (\<lambda>p1. Inr (u\<lparr>iPred := Some p1\<rparr>)))"

definition predict_dir :: "('h, 's) dir_ops \<Rightarrow> ('pc, 'x StaticInst_scheme) isa \<Rightarrow> 'x StaticInst_scheme \<Rightarrow> 'pc \<Rightarrow> nat \<Rightarrow>
    ('pc, 'h, 's, 'x StaticInst_scheme) BPredUnit \<Rightarrow> (bool \<times> 'h \<times> ('pc, 'h, 's, 'x StaticInst_scheme) BPredUnit) res" where
  "predict_dir D I inst pc tid u =
     (if isUncondCtrl inst
      then rbind (d_uncondBranch D tid (instAddr I pc) (u_dir u)) (\<lambda>(h, s). Inr (True, h, u\<lparr>u_dir := s\<rparr>))
      else let u1 = count (\<lambda>st. st\<lparr>st_condPredicted := st_condPredicted st + 1\<rparr>) u in
           rbind (d_lookup D tid (instAddr I pc) (u_dir u1)) (\<lambda>(taken, h, s). Inr (taken, h, u1\<lparr>u_dir := s\<rparr>)))"

definition predict_return where
  "predict_return I pc tid r u =
     (let u1 = count (\<lambda>st. st\<lparr>st_usedRAS := st_usedRAS st + 1\<rparr>) u in
      rbind (vec_at (u_RAS u1) tid) (\<lambda>ras.
      rbind (ras_top ras) (\<lambda>rasTop.
      rbind (on_RAS tid (\<lambda>x. Inr (ras_pop x)) u1) (\<lambda>u2.
      Inr (buildRetPC I pc rasTop,
           r\<lparr>ph_wasReturn := True, ph_usedRAS := True, ph_RASIndex := topIdx ras, ph_RASTarget := rasTop\<rparr>, u2)))))"

definition predict_call where
  "predict_call inst pc tid r u =
     (if isCall inst
      then rbind (on_RAS tid (ras_push pc) u) (\<lambda>u1. Inr (r\<lparr>ph_pushedRAS := True, ph_wasCall := True\<rparr>, u1))
      else Inr (r, u))"

text \<open>When no target is known, a conditional call is taken back from the return address stack.\<close>

definition undo_call where
  "undo_call inst tid r u =
     (if isCall inst \<and> \<not> isUncondCtrl inst
      then rbind (on_RAS tid (\<lambda>x. Inr (ras_pop x)) u) (\<lambda>u1. Inr (r\<lparr>ph_pushedRAS := False\<rparr>, u1))
      else Inr (r, u))"

definition predict_direct where
  "predict_direct D I inst pc tid r u =
     (let u1 = count (\<lambda>st. st\<lparr>st_BTBLookups := st_BTBLookups st + 1\<rparr>) u; a = instAddr I pc in
      rbind (btb_valid a tid (u_BTB u1)) (\<lambda>v.
      if v
      then rbind (btb_lookup I a tid (u_BTB u1)) (\<lambda>target.
           Inr (True, target, r, count (\<lambda>st. st\<lparr>st_BTBHits := st_BTBHits st + 1\<rparr>) u1))
      else let r1 = r\<lparr>ph_predTaken := False\<rparr> in
           rbind (if \<not> isCall inst \<and> \<not> isReturn inst
                  then rbind (d_btbUpdate D tid a (ph_bpHistory r1) (u_dir u1)) (\<lambda>s. Inr (r1, u1\<lparr>u_dir := s\<rparr>))
                  else undo_call inst tid r1 u1)
             (\<lambda>(r2, u2). Inr (False, advancePC I pc inst, r2, u2))))"

definition predict_indirect where
  "predict_indirect I inst sn pc tid p r u =
     (let r0 = r\<lparr>ph_wasIndirect := True\<rparr>; u1 = count (\<lambda>st. st\<lparr>st_indirectLookups := st_indirectLookups st + 1\<rparr>) u;
          a = instAddr I pc in
      rbind (si_lookup a tid p) (\<lambda>hit.
      rbind (case hit of
               Some target \<Rightarrow> Inr (True, target, r0, count (\<lambda>st. st\<lparr>st_indirectHits := st_indirectHits st + 1\<rparr>) u1)
             | None \<Rightarrow>
                 rbind (undo_call inst tid (r0\<lparr>ph_predTaken := False\<rparr>)
                          (count (\<lambda>st. st\<lparr>st_indirectMisses := st_indirectMisses st + 1\<rparr>) u1))
                   (\<lambda>(r1, u2). Inr (False, advancePC I pc inst, r1, u2)))
        (\<lambda>(taken, target, r1, u2).
           rbind (on_iPred (recordIndirect a (instAddr I target) sn tid) u2) (\<lambda>u3. Inr (taken, target, r1, u3)))))"

definition predict_target where
  "predict_target D I inst sn pc tid taken r u =
     (if taken then
        if isReturn inst
        then rbind (predict_return I pc tid r u) (\<lambda>(target, r1, u1). Inr (True, target, r1, u1))
        else rbind (predict_call inst pc tid r u) (\<lambda>(r1, u1).
             case iPred u1 of
               None \<Rightarrow> predict_direct D I inst pc tid r1 u1
             | Some p \<Rightarrow> if isDirectCtrl inst then predict_direct D I inst pc tid r1 u1
                         else predict_indirect I inst sn pc tid p r1 u1)
      else Inr (False, advancePC I pc inst, (if isReturn inst then r\<lparr>ph_wasReturn := True\<rparr> else r), u))"

definition gen_info :: "nat \<Rightarrow> ('pc, 'h, 's, 'inst) BPredUnit \<Rightarrow> u32 option res" where
  "gen_info tid u = (case iPred u of None \<Rightarrow> Inr None | Some p \<Rightarrow> rbind (genIndirectInfo tid p) (\<lambda>g. Inr (Some g)))"

definition predict where
  "predict D I inst sn pc tid u =
     rbind (predict_dir D I inst pc tid (count (\<lambda>st. st\<lparr>st_lookups := st_lookups st + 1\<rparr>) u)) (\<lambda>(taken0, h, u1).
     rbind (gen_info tid u1) (\<lambda>ih.
     rbind (predict_target D I inst sn pc tid taken0 (new_history I sn (instAddr I pc) taken0 h ih tid inst) u1)
       (\<lambda>(taken, target, r, u2).
     rbind (on_iPred (updateDirectionInfo tid taken0) u2) (\<lambda>u3.
     rbind (vec_upd tid ((#) (r\<lparr>ph_target := instAddr I target\<rparr>)) (predHist u3)) (\<lambda>hs.
     Inr (taken, target, u3\<lparr>predHist := hs\<rparr>))))))"

subsection \<open>Commit\<close>

text \<open>The loop takes the oldest predictions from the back of the deque; \<open>commit_loop\<close> is given it oldest first.\<close>

fun commit_loop where
  "commit_loop D done tid [] u = Inr ([], u)"
| "commit_loop D done tid (h # hs) u =
     (if ph_seqNum h \<le> done
      then rbind (d_update D tid (ph_pc h) (ph_predTaken h) (ph_bpHistory h) False (u_dir u)) (\<lambda>s.
           rbind (on_iPred (\<lambda>p. case ph_indirectHistory h of None \<Rightarrow> Inl (Undefined ''null history'')
                                | Some g \<Rightarrow> si_commit done tid g p) (u\<lparr>u_dir := s\<rparr>)) (\<lambda>u1.
           commit_loop D done tid hs u1))
      else Inr (h # hs, u))"

definition unit_update where
  "unit_update D done tid u =
     rbind (vec_at (predHist u) tid) (\<lambda>hs.
     rbind (commit_loop D done tid (rev hs) u) (\<lambda>(left, u1). Inr (u1\<lparr>predHist := (predHist u1)[tid := rev left]\<rparr>)))"

subsection \<open>Squash\<close>

definition squash_RAS where
  "squash_RAS tid h u =
     (if ph_usedRAS h then on_RAS tid (ras_restore (ph_RASIndex h) (ph_RASTarget h)) u
      else if ph_wasCall h \<and> ph_pushedRAS h then on_RAS tid (\<lambda>x. Inr (ras_pop x)) u
      else Inr u)"

fun squash_loop where
  "squash_loop D sn tid [] u = Inr ([], u)"
| "squash_loop D sn tid (h # hs) u =
     (if ph_seqNum h > sn
      then rbind (squash_RAS tid h u) (\<lambda>u1.
           rbind (d_squash D tid (ph_bpHistory h) (u_dir u1)) (\<lambda>s.
           rbind (on_iPred (\<lambda>p. case ph_indirectHistory h of None \<Rightarrow> Inl (Undefined ''null history'')
                                | Some g \<Rightarrow> deleteIndirectInfo tid g p) (u1\<lparr>u_dir := s\<rparr>)) (\<lambda>u2.
           squash_loop D sn tid hs u2)))
      else Inr (h # hs, u))"

definition unit_squash where
  "unit_squash D sn tid u =
     rbind (vec_at (predHist u) tid) (\<lambda>hs.
     rbind (on_iPred (si_squash sn tid) u) (\<lambda>u1.
     rbind (squash_loop D sn tid hs u1) (\<lambda>(left, u2). Inr (u2\<lparr>predHist := (predHist u2)[tid := left]\<rparr>))))"

subsection \<open>Correction of a mispredicted branch\<close>

definition correct_taken where
  "correct_taken I rnd corr tid h u =
     rbind (if ph_wasReturn h \<and> \<not> ph_usedRAS h
            then rbind (on_RAS tid (\<lambda>x. Inr (ras_pop x)) u) (\<lambda>u1. Inr (h\<lparr>ph_usedRAS := True\<rparr>, u1))
            else Inr (h, u)) (\<lambda>(h1, u1).
     rbind (if ph_wasIndirect h1
            then on_iPred (\<lambda>p. case ph_indirectHistory h1 of None \<Rightarrow> Inl (Undefined ''null history'')
                               | Some g \<Rightarrow> recordTarget I rnd g corr tid p)
                   (count (\<lambda>st. st\<lparr>st_indirectMispredicted := st_indirectMispredicted st + 1\<rparr>) u1)
            else rbind (btb_update (ph_pc h1) corr tid (u_BTB u1)) (\<lambda>b. Inr (u1\<lparr>u_BTB := b\<rparr>))) (\<lambda>u2.
     Inr (h1, u2)))"

definition correct_not_taken where
  "correct_not_taken tid h u =
     (if ph_usedRAS h
      then rbind (on_RAS tid (ras_restore (ph_RASIndex h) (ph_RASTarget h)) u) (\<lambda>u1. Inr (h\<lparr>ph_usedRAS := False\<rparr>, u1))
      else if ph_wasCall h \<and> ph_pushedRAS h
      then rbind (on_RAS tid (\<lambda>x. Inr (ras_pop x)) u) (\<lambda>u1. Inr (h\<lparr>ph_pushedRAS := False\<rparr>, u1))
      else Inr (h, u))"

definition correct_front where
  "correct_front D I rnd corr taken tid h u =
     (let u1 = (if ph_usedRAS h then count (\<lambda>st. st\<lparr>st_RASIncorrect := st_RASIncorrect st + 1\<rparr>) u else u);
          h1 = h\<lparr>ph_predTaken := taken, ph_target := instAddr I corr\<rparr> in
      rbind (d_update D tid (ph_pc h1) taken (ph_bpHistory h1) True (u_dir u1)) (\<lambda>s.
      rbind (on_iPred (\<lambda>p. case ph_indirectHistory h1 of None \<Rightarrow> Inl (Undefined ''null history'')
                           | Some g \<Rightarrow> changeDirectionPrediction tid g taken p) (u1\<lparr>u_dir := s\<rparr>)) (\<lambda>u2.
      if taken then correct_taken I rnd corr tid h1 u2 else correct_not_taken tid h1 u2)))"

definition squash_correct where
  "squash_correct D I rnd sn corr taken tid u =
     rbind (unit_squash D sn tid (count (\<lambda>st. st\<lparr>st_condIncorrect := st_condIncorrect st + 1\<rparr>) u)) (\<lambda>u1.
     rbind (vec_at (predHist u1) tid) (\<lambda>hs.
     case hs of [] \<Rightarrow> Inr u1
     | h # hs1 \<Rightarrow>
         require (ph_seqNum h = sn) (AssertFail ''pred_hist.front().seqNum == squashed_sn'')
         (rbind (correct_front D I rnd corr taken tid h u1) (\<lambda>(h1, u2).
          Inr (u2\<lparr>predHist := (predHist u2)[tid := h1 # hs1]\<rparr>)))))"

subsection \<open>Good states of the unit\<close>

definition hist_ok :: "'pc ReturnAddrStack \<Rightarrow> bool \<Rightarrow> ('pc, 'h, 'inst) PredictorHistory \<Rightarrow> bool" where
  "hist_ok r ind h \<longleftrightarrow> (ind \<longrightarrow> ph_indirectHistory h \<noteq> None) \<and> (ph_usedRAS h \<longrightarrow> ph_RASIndex h < ras_numEntries r)"

definition unit_ok :: "('s \<Rightarrow> bool) \<Rightarrow> ('s \<Rightarrow> nat) \<Rightarrow> nat \<Rightarrow> ('pc, 'h, 's, 'inst) BPredUnit \<Rightarrow> bool" where
  "unit_ok ok threads n u \<longleftrightarrow>
     ok (u_dir u) \<and> threads (u_dir u) = n \<and> length (predHist u) = n \<and> btb_ok n (u_BTB u) \<and> length (u_RAS u) = n \<and>
     (\<forall>r \<in> set (u_RAS u). ras_ok r) \<and> (\<forall>p. iPred u = Some p \<longrightarrow> si_ok n p) \<and>
     (\<forall>tid < n. \<forall>h \<in> set (predHist u ! tid). hist_ok (u_RAS u ! tid) (iPred u \<noteq> None) h)"

lemma unit_okD:
  assumes "unit_ok ok threads n u" "tid < n"
  shows "ok (u_dir u)" "threads (u_dir u) = n" "tid < length (predHist u)" "btb_ok n (u_BTB u)" "tid < length (u_RAS u)"
    "ras_ok (u_RAS u ! tid)" "\<And>p. iPred u = Some p \<Longrightarrow> si_ok n p"
    "\<And>h. h \<in> set (predHist u ! tid) \<Longrightarrow> hist_ok (u_RAS u ! tid) (iPred u \<noteq> None) h"
  using assms by (auto simp: unit_ok_def)

lemma new_unit_ok:
  assumes "new_BPredUnit I n be bt sh rs ip d = Inr u" "ok d" "threads d = n" "rs \<noteq> 0" "unat be \<le> 2 ^ 30" "n \<le> unat be"
    "\<And>p. ip = Some p \<Longrightarrow> si_ok n p"
  shows "unit_ok ok threads n u"
  using assms new_btb_ok [of I be bt sh n] by (auto simp: new_BPredUnit_def unit_ok_def ras_init_ok)

lemma on_RAS_eq: "tid < length (u_RAS u) \<Longrightarrow>
    on_RAS tid f u = rbind (f (u_RAS u ! tid)) (\<lambda>r1. Inr (u\<lparr>u_RAS := (u_RAS u)[tid := r1]\<rparr>))"
  by (simp add: on_RAS_def)

lemma count_fields [simp]:
  "u_dir (count f u) = u_dir u" "predHist (count f u) = predHist u" "u_BTB (count f u) = u_BTB u"
  "u_RAS (count f u) = u_RAS u" "iPred (count f u) = iPred u"
  by (simp_all add: count_def)

text \<open>How a prediction left the return address stack: popped by a return, pushed by a call, or as it was, up to
  the entry above the top that a call wrote before it was taken back.\<close>

definition ras_trace :: "('pc, 'h, 'inst) PredictorHistory \<Rightarrow> 'pc ReturnAddrStack \<Rightarrow> 'pc ReturnAddrStack \<Rightarrow> bool" where
  "ras_trace h r0 r1 \<longleftrightarrow>
     (if ph_usedRAS h then ph_RASIndex h = tos r0 \<and> ph_RASTarget h = hd (ras_list r0) \<and> r1 = ras_pop r0
      else if ph_wasCall h \<and> ph_pushedRAS h then \<exists>x. ras_push x r0 = Inr r1
      else r1 = r0 \<or> (\<exists>x r. ras_push x r0 = Inr r \<and> r1 = ras_pop r))"

text \<open>The path of the indirect predictor is extended by entries of the predicted instruction.\<close>

definition path_ext :: "nat \<Rightarrow> u64 \<Rightarrow> 'pc SimpleIndirectPredictor option \<Rightarrow> 'pc SimpleIndirectPredictor option \<Rightarrow> bool" where
  "path_ext tid sn i i1 \<longleftrightarrow>
     (case i of None \<Rightarrow> i1 = None
      | Some p \<Rightarrow> \<exists>es. (\<forall>e \<in> set es. h_seqNum e = sn) \<and>
          i1 = Some (p\<lparr>threadInfo := (threadInfo p)[tid := (threadInfo p ! tid)\<lparr>pathHist := pathHist (threadInfo p ! tid) @ es\<rparr>]\<rparr>))"

lemma path_ext_refl: "path_ext tid sn i i"
  by (auto simp: path_ext_def split: option.split intro!: exI [of _ "[]"])

lemma ras_push_ok: "ras_ok r \<Longrightarrow> \<exists>r1. ras_push x r = Inr r1 \<and> ras_ok r1 \<and> ras_numEntries r1 = ras_numEntries r"
proof -
  assume r: "ras_ok r"
  obtain r1 where "ras_push x r = Inr r1" "ras_ok r1" by (rule ras_push_eq [OF r])
  moreover from this(1) have "ras_numEntries r1 = ras_numEntries r" by (auto simp: ras_push_def Let_def incrTos_def)
  ultimately show ?thesis by blast
qed

lemma ras_pop_entries [simp]: "ras_numEntries (ras_pop r) = ras_numEntries r"
  by (simp add: ras_pop_def decrTos_def)

lemma si_lookup_total: "si_ok n p \<Longrightarrow> tid < n \<Longrightarrow> \<exists>v. si_lookup a tid p = Inr v"
proof -
  assume s: "si_ok n p" "tid < n"
  obtain si where "getSetIndex a (ghr (threadInfo p ! tid)) tid p = Inr si" "si < ucast (numSets p)" "unat si < length (targetCache p)"
    by (rule set_index_total [OF s])
  with s show ?thesis by (simp add: si_lookup_def si_ok_def si_getTag_def)
qed

text \<open>What looking for the target does to the unit, whichever way it takes.\<close>

definition target_post where
  "target_post D tid a sn inst r u r1 u1 \<longleftrightarrow>
     u_BTB u1 = u_BTB u \<and> predHist u1 = predHist u \<and> path_ext tid sn (iPred u) (iPred u1) \<and>
     (\<exists>R. u_RAS u1 = (u_RAS u)[tid := R] \<and> ras_ok R \<and> ras_numEntries R = ras_numEntries (u_RAS u ! tid) \<and>
        ras_trace r1 (u_RAS u ! tid) R \<and>
        (ph_usedRAS r1 \<or> isCall inst \<or> R = u_RAS u ! tid \<and> \<not> ph_wasCall r1)) \<and>
     (u_dir u1 = u_dir u \<or> \<not> isCall inst \<and> \<not> isReturn inst \<and> d_btbUpdate D tid a (ph_bpHistory r) (u_dir u) = Inr (u_dir u1)) \<and>
     ph_bpHistory r1 = ph_bpHistory r \<and> ph_indirectHistory r1 = ph_indirectHistory r \<and> ph_seqNum r1 = ph_seqNum r \<and>
     (ph_usedRAS r1 \<longrightarrow> ph_RASIndex r1 = tos (u_RAS u ! tid))"

lemma predict_return_post:
  assumes "tid < length (u_RAS u)" "ras_ok (u_RAS u ! tid)"
  shows "\<exists>t r1 u1. predict_return I pc tid r u = Inr (t, r1, u1) \<and> target_post D tid a sn inst r u r1 u1"
  using assms ras_pop_list(2) [OF assms(2)]
  by (simp add: predict_return_def Let_def ras_top_eq on_RAS_eq target_post_def path_ext_refl ras_trace_def topIdx_def)

text \<open>After the push of a call, if there is one: \<open>r0\<close> is the stack before it.\<close>

definition call_post where
  "call_post tid inst r u r1 u1 \<longleftrightarrow>
     u_BTB u1 = u_BTB u \<and> predHist u1 = predHist u \<and> iPred u1 = iPred u \<and> u_dir u1 = u_dir u \<and>
     ph_bpHistory r1 = ph_bpHistory r \<and> ph_indirectHistory r1 = ph_indirectHistory r \<and> ph_seqNum r1 = ph_seqNum r \<and> \<not> ph_usedRAS r1 \<and>
     (if isCall inst
      then ph_wasCall r1 \<and> ph_pushedRAS r1 \<and>
        (\<exists>x R. ras_push x (u_RAS u ! tid) = Inr R \<and> ras_ok R \<and> ras_numEntries R = ras_numEntries (u_RAS u ! tid) \<and> u_RAS u1 = (u_RAS u)[tid := R])
      else \<not> ph_wasCall r1 \<and> u_RAS u1 = u_RAS u)"

lemma predict_call_post:
  assumes "tid < length (u_RAS u)" "ras_ok (u_RAS u ! tid)" "\<not> ph_usedRAS r" "\<not> ph_wasCall r"
  shows "\<exists>r1 u1. predict_call inst pc tid r u = Inr (r1, u1) \<and> call_post tid inst r u r1 u1"
  using assms ras_push_ok [OF assms(2), of pc] by (auto simp: predict_call_def on_RAS_eq call_post_def) blast

text \<open>A record or a unit that agrees with the one after the call on what the history keeps.\<close>

lemma call_post_done:
  assumes "call_post tid inst r u r1 u1" "tid < length (u_RAS u)" "ras_ok (u_RAS u ! tid)"
    and "u_BTB u2 = u_BTB u1" "predHist u2 = predHist u1" "path_ext tid sn (iPred u1) (iPred u2)" "u_RAS u2 = u_RAS u1"
    and "u_dir u2 = u_dir u1 \<or> \<not> isCall inst \<and> \<not> isReturn inst \<and> d_btbUpdate D tid a (ph_bpHistory r) (u_dir u) = Inr (u_dir u2)"
    and "ph_bpHistory r2 = ph_bpHistory r1" "ph_indirectHistory r2 = ph_indirectHistory r1" "ph_seqNum r2 = ph_seqNum r1"
      "ph_usedRAS r2 = ph_usedRAS r1" "ph_wasCall r2 = ph_wasCall r1" "ph_pushedRAS r2 = ph_pushedRAS r1"
  shows "target_post D tid a sn inst r u r2 u2"
proof (cases "isCall inst")
  case True
  with assms obtain x R where "ras_push x (u_RAS u ! tid) = Inr R" "ras_ok R" "ras_numEntries R = ras_numEntries (u_RAS u ! tid)"
    "u_RAS u2 = (u_RAS u)[tid := R]" by (auto simp: call_post_def)
  with True assms show ?thesis unfolding target_post_def ras_trace_def call_post_def by auto
next
  case False
  then have "u_RAS u2 = (u_RAS u)[tid := u_RAS u ! tid]" using assms by (simp add: call_post_def)
  with False assms show ?thesis unfolding target_post_def ras_trace_def call_post_def by auto
qed

lemma undo_call_post:
  assumes c: "call_post tid inst r u r1 u1" and t: "tid < length (u_RAS u)" "ras_ok (u_RAS u ! tid)"
    and e: "u_RAS u2 = u_RAS u1" "u_BTB u2 = u_BTB u1" "predHist u2 = predHist u1" "iPred u2 = iPred u1" "u_dir u2 = u_dir u1"
    and h: "ph_bpHistory r2 = ph_bpHistory r1" "ph_indirectHistory r2 = ph_indirectHistory r1" "ph_seqNum r2 = ph_seqNum r1"
      "ph_usedRAS r2 = ph_usedRAS r1" "ph_wasCall r2 = ph_wasCall r1" "ph_pushedRAS r2 = ph_pushedRAS r1"
  shows "\<exists>r3 u3. undo_call inst tid r2 u2 = Inr (r3, u3) \<and> iPred u3 = iPred u1 \<and> target_post D tid a sn inst r u r3 u3"
proof (cases "isCall inst \<and> \<not> isUncondCtrl inst")
  case True
  with c obtain x R where R: "ras_push x (u_RAS u ! tid) = Inr R" "ras_ok R" "ras_numEntries R = ras_numEntries (u_RAS u ! tid)"
    "u_RAS u1 = (u_RAS u)[tid := R]" by (auto simp: call_post_def)
  have "undo_call inst tid r2 u2 = Inr (r2\<lparr>ph_pushedRAS := False\<rparr>, u2\<lparr>u_RAS := (u_RAS u)[tid := ras_pop R]\<rparr>)"
    using True t R e by (simp add: undo_call_def on_RAS_eq)
  moreover have "target_post D tid a sn inst r u (r2\<lparr>ph_pushedRAS := False\<rparr>) (u2\<lparr>u_RAS := (u_RAS u)[tid := ras_pop R]\<rparr>)"
  proof -
    have "\<not> ph_usedRAS r2" using c h by (simp add: call_post_def)
    then have "ras_trace (r2\<lparr>ph_pushedRAS := False\<rparr>) (u_RAS u ! tid) (ras_pop R)" using R(1) by (auto simp: ras_trace_def)
    then show ?thesis
      using True c R(2,3) e h ras_pop_list(2) [OF R(2)] unfolding target_post_def call_post_def
      by (intro conjI exI [of _ "ras_pop R"]) (simp_all add: path_ext_refl)
  qed
  ultimately show ?thesis using e by auto
next
  case False
  have "target_post D tid a sn inst r u r2 u2" by (rule call_post_done [OF c t]) (simp_all add: e h path_ext_refl)
  with False e show ?thesis by (auto simp: undo_call_def)
qed

lemma target_post_iPred:
  "target_post D tid a sn inst r u r1 u1 \<Longrightarrow> path_ext tid sn (iPred u) i \<Longrightarrow> target_post D tid a sn inst r u r1 (u1\<lparr>iPred := i\<rparr>)"
  by (simp add: target_post_def)

lemma record_ext:
  assumes "tid < length (threadInfo p)"
  shows "\<exists>p1. recordIndirect a t sn tid p = Inr p1 \<and> path_ext tid sn (Some p) (Some p1)"
  using assms by (auto simp: recordIndirect_def upd_thread_eq path_ext_def
      intro!: exI [of _ "[\<lparr>h_pcAddr = a, h_targetAddr = t, h_seqNum = sn\<rparr>]"])

lemma indirect_post:
  assumes c: "call_post tid inst r u r1 u1" and t: "tid < length (u_RAS u)" "ras_ok (u_RAS u ! tid)"
    and p: "iPred u = Some p" "si_ok n p" "tid < n"
  shows "\<exists>t tgt r2 u2. predict_indirect I inst sn pc tid p r1 u1 = Inr (t, tgt, r2, u2) \<and>
    target_post D tid a sn inst r u r2 u2"
proof -
  obtain hit where hit: "si_lookup (instAddr I pc) tid p = Inr hit" using si_lookup_total [OF p(2,3)] by blast
  have i1: "iPred u1 = Some p" using c p by (simp add: call_post_def)
  have tp: "tid < length (threadInfo p)" using p by (simp add: si_ok_def)
  define v where "v = count (\<lambda>st. st\<lparr>st_indirectLookups := st_indirectLookups st + 1\<rparr>) u1"
  show ?thesis
  proof (cases hit)
    case (Some tg)
    obtain p1 where p1: "recordIndirect (instAddr I pc) (instAddr I tg) sn tid p = Inr p1" "path_ext tid sn (Some p) (Some p1)"
      using record_ext [OF tp] by blast
    let ?v = "count (\<lambda>st. st\<lparr>st_indirectHits := st_indirectHits st + 1\<rparr>) v"
    have "target_post D tid a sn inst r u (r1\<lparr>ph_wasIndirect := True\<rparr>) ?v"
      by (rule call_post_done [OF c t]) (simp_all add: v_def path_ext_refl)
    from target_post_iPred [OF this, of "Some p1"] p1(2) p(1)
    have "target_post D tid a sn inst r u (r1\<lparr>ph_wasIndirect := True\<rparr>) (?v\<lparr>iPred := Some p1\<rparr>)" by simp
    moreover have "predict_indirect I inst sn pc tid p r1 u1 = Inr (True, tg, r1\<lparr>ph_wasIndirect := True\<rparr>, ?v\<lparr>iPred := Some p1\<rparr>)"
      using hit Some p1(1) i1 by (simp add: predict_indirect_def Let_def on_iPred_def v_def)
    ultimately show ?thesis by blast
  next
    case None
    let ?v = "count (\<lambda>st. st\<lparr>st_indirectMisses := st_indirectMisses st + 1\<rparr>) v"
    have "\<exists>r3 u3. undo_call inst tid (r1\<lparr>ph_wasIndirect := True, ph_predTaken := False\<rparr>) ?v = Inr (r3, u3) \<and> iPred u3 = iPred u1 \<and>
        target_post D tid a sn inst r u r3 u3"
      by (rule undo_call_post [OF c t]) (simp_all add: v_def)
    then obtain r3 u3 where u: "undo_call inst tid (r1\<lparr>ph_wasIndirect := True, ph_predTaken := False\<rparr>) ?v = Inr (r3, u3)"
      "iPred u3 = iPred u1" "target_post D tid a sn inst r u r3 u3" by blast
    obtain p1 where p1: "recordIndirect (instAddr I pc) (instAddr I (advancePC I pc inst)) sn tid p = Inr p1"
      "path_ext tid sn (Some p) (Some p1)" using record_ext [OF tp] by blast
    have "target_post D tid a sn inst r u r3 (u3\<lparr>iPred := Some p1\<rparr>)"
      using target_post_iPred [OF u(3), of "Some p1"] p1(2) p(1) by simp
    moreover have "predict_indirect I inst sn pc tid p r1 u1 = Inr (False, advancePC I pc inst, r3, u3\<lparr>iPred := Some p1\<rparr>)"
      using hit None u(1,2) p1(1) i1 by (simp add: predict_indirect_def Let_def on_iPred_def v_def)
    ultimately show ?thesis by blast
  qed
qed

context direction_predictor
begin

lemma direct_post:
  assumes c: "call_post tid inst r u r1 u1" and t: "tid < length (u_RAS u)" "ras_ok (u_RAS u ! tid)"
    and b: "btb_ok n (u_BTB u)" "tid < n" and d: "ok (u_dir u)" "threads (u_dir u) = n"
  shows "\<exists>t tgt r2 u2. predict_direct D I inst pc tid r1 u1 = Inr (t, tgt, r2, u2) \<and>
    target_post D tid (instAddr I pc) sn inst r u r2 u2"
proof -
  let ?a = "instAddr I pc"
  define v where "v = count (\<lambda>st. st\<lparr>st_BTBLookups := st_BTBLookups st + 1\<rparr>) u1"
  have e: "u_BTB u1 = u_BTB u" "u_dir u1 = u_dir u" "ph_bpHistory r1 = ph_bpHistory r" using c by (simp_all add: call_post_def)
  obtain hit tg where h: "btb_valid ?a tid (u_BTB u) = Inr hit" "btb_lookup I ?a tid (u_BTB u) = Inr tg"
    using btb_lookup_total [OF b] by blast
  consider "hit" | "\<not> hit" "\<not> isCall inst" "\<not> isReturn inst" | "\<not> hit" "isCall inst \<or> isReturn inst" by blast
  then show ?thesis
  proof cases
    case 1
    let ?v = "count (\<lambda>st. st\<lparr>st_BTBHits := st_BTBHits st + 1\<rparr>) v"
    have "target_post D tid ?a sn inst r u r1 ?v" by (rule call_post_done [OF c t]) (simp_all add: v_def path_ext_refl)
    moreover have "predict_direct D I inst pc tid r1 u1 = Inr (True, tg, r1, ?v)"
      using 1 h e by (simp add: predict_direct_def Let_def v_def)
    ultimately show ?thesis by blast
  next
    case 2
    obtain s where s: "d_btbUpdate D tid ?a (ph_bpHistory r) (u_dir u) = Inr s" using btb_total d b(2) by metis
    have "target_post D tid ?a sn inst r u (r1\<lparr>ph_predTaken := False\<rparr>) (v\<lparr>u_dir := s\<rparr>)"
      by (rule call_post_done [OF c t]) (use 2 s in \<open>simp_all add: v_def path_ext_refl\<close>)
    moreover have "predict_direct D I inst pc tid r1 u1 =
        Inr (False, advancePC I pc inst, r1\<lparr>ph_predTaken := False\<rparr>, v\<lparr>u_dir := s\<rparr>)"
      using 2 h e s by (simp add: predict_direct_def Let_def v_def)
    ultimately show ?thesis by blast
  next
    case 3
    have "\<exists>r3 u3. undo_call inst tid (r1\<lparr>ph_predTaken := False\<rparr>) v = Inr (r3, u3) \<and> iPred u3 = iPred u1 \<and>
        target_post D tid ?a sn inst r u r3 u3"
      by (rule undo_call_post [OF c t]) (simp_all add: v_def)
    then obtain r3 u3 where u: "undo_call inst tid (r1\<lparr>ph_predTaken := False\<rparr>) v = Inr (r3, u3)"
      "target_post D tid ?a sn inst r u r3 u3" by blast
    moreover have "predict_direct D I inst pc tid r1 u1 = Inr (False, advancePC I pc inst, r3, u3)"
      using 3 h e u(1) by (auto simp: predict_direct_def Let_def v_def)
    ultimately show ?thesis by blast
  qed
qed

lemma predict_target_post:
  assumes u: "tid < length (u_RAS u)" "ras_ok (u_RAS u ! tid)" "btb_ok n (u_BTB u)" "tid < n" "ok (u_dir u)" "threads (u_dir u) = n"
    "\<And>p. iPred u = Some p \<Longrightarrow> si_ok n p"
    and r: "\<not> ph_usedRAS r" "\<not> ph_wasCall r"
  shows "\<exists>t tgt r1 u1. predict_target D I inst sn pc tid taken r u = Inr (t, tgt, r1, u1) \<and>
    target_post D tid (instAddr I pc) sn inst r u r1 u1"
proof -
  consider "\<not> taken" | "taken" "isReturn inst" | "taken" "\<not> isReturn inst" by blast
  then show ?thesis
  proof cases
    case 1
    then show ?thesis using u r by (auto simp: predict_target_def target_post_def path_ext_refl ras_trace_def intro!: exI [of _ "u_RAS u ! tid"])
  next
    case 2
    obtain t r1 u1 where "predict_return I pc tid r u = Inr (t, r1, u1)" "target_post D tid (instAddr I pc) sn inst r u r1 u1"
      using predict_return_post [OF u(1,2)] by blast
    with 2 show ?thesis by (auto simp: predict_target_def)
  next
    case 3
    obtain r1 u1 where c: "predict_call inst pc tid r u = Inr (r1, u1)" "call_post tid inst r u r1 u1"
      using predict_call_post [OF u(1,2) r] by blast
    have i: "iPred u1 = iPred u" using c(2) by (simp add: call_post_def)
    show ?thesis
    proof (cases "iPred u")
      case None
      with 3 c i direct_post [OF c(2) u(1-6), of I pc sn] show ?thesis by (simp add: predict_target_def)
    next
      case (Some p)
      with 3 c i direct_post [OF c(2) u(1-6), of I pc sn] indirect_post [OF c(2) u(1,2) Some u(7) [OF Some] u(4), of I sn pc D]
      show ?thesis by (simp add: predict_target_def)
    qed
  qed
qed

end

subsection \<open>One prediction and its undoing\<close>

definition undoable where
  "undoable D ok threads sim tid h s s1 \<longleftrightarrow>
     (\<forall>t. ok t \<longrightarrow> sim t s1 \<longrightarrow> (\<exists>t1. d_squash D tid h t = Inr t1 \<and> ok t1 \<and> threads t1 = threads t \<and> sim t1 s))"

text \<open>An unconditional branch that the target buffer does not know, and that is neither a call nor a return, is the one
  case in which \<^verbatim>\<open>btbUpdate\<close> follows \<^verbatim>\<open>uncondBranch\<close>; not every predictor can undo both.\<close>

definition plain_jump :: "'x StaticInst_scheme \<Rightarrow> bool" where
  "plain_jump inst \<longleftrightarrow> isUncondCtrl inst \<and> \<not> isCall inst \<and> \<not> isReturn inst"

definition jumps_undoable where
  "jumps_undoable D ok threads sim \<longleftrightarrow>
     (\<forall>s tid a h s1 s2. ok s \<longrightarrow> d_uncondBranch D tid a s = Inr (h, s1) \<longrightarrow> d_btbUpdate D tid a h s1 = Inr s2 \<longrightarrow>
        undoable D ok threads sim tid h s s2)"

definition info_ext :: "nat \<Rightarrow> u64 \<Rightarrow> u32 option \<Rightarrow> 'pc SimpleIndirectPredictor option \<Rightarrow> 'pc SimpleIndirectPredictor option \<Rightarrow> bool" where
  "info_ext tid sn ih i i1 \<longleftrightarrow>
     (case i of None \<Rightarrow> i1 = None
      | Some p \<Rightarrow> ih = Some (ghr (threadInfo p ! tid)) \<and> (\<exists>es g. (\<forall>e \<in> set es. h_seqNum e = sn) \<and>
          i1 = Some (p\<lparr>threadInfo := (threadInfo p)[tid := (threadInfo p ! tid)\<lparr>pathHist := pathHist (threadInfo p ! tid) @ es, ghr := g\<rparr>]\<rparr>)))"

definition step_post where
  "step_post tid sn inst r u u1 \<longleftrightarrow>
     predHist u1 = (predHist u)[tid := r # predHist u ! tid] \<and> ph_seqNum r = sn \<and> u_BTB u1 = u_BTB u \<and>
     info_ext tid sn (ph_indirectHistory r) (iPred u) (iPred u1) \<and>
     (\<exists>R. u_RAS u1 = (u_RAS u)[tid := R] \<and> ras_ok R \<and> ras_numEntries R = ras_numEntries (u_RAS u ! tid) \<and>
        ras_trace r (u_RAS u ! tid) R \<and> (ph_usedRAS r \<or> isCall inst \<or> R = u_RAS u ! tid \<and> \<not> ph_wasCall r))"

lemma info_ext_ok: "info_ext tid sn ih i i1 \<Longrightarrow> (\<And>p. i = Some p \<Longrightarrow> si_ok n p) \<Longrightarrow> i1 = Some q \<Longrightarrow> si_ok n q"
  by (auto simp: info_ext_def si_ok_def split: option.splits)

lemma info_ext_None: "info_ext tid sn ih i i1 \<Longrightarrow> i1 = None \<longleftrightarrow> i = None"
  by (auto simp: info_ext_def split: option.splits)

lemma direction_info:
  assumes "path_ext tid sn i (iPred u)"
    and "\<And>p. i = Some p \<Longrightarrow> tid < length (threadInfo p) \<and> ih = Some (ghr (threadInfo p ! tid))"
  shows "\<exists>u1. on_iPred (updateDirectionInfo tid taken) u = Inr u1 \<and> info_ext tid sn ih i (iPred u1) \<and>
    u_dir u1 = u_dir u \<and> predHist u1 = predHist u \<and> u_BTB u1 = u_BTB u \<and> u_RAS u1 = u_RAS u"
proof (cases i)
  case None
  then show ?thesis using assms by (auto simp: on_iPred_def path_ext_def info_ext_def)
next
  case (Some p)
  then obtain es where es: "\<forall>e \<in> set es. h_seqNum e = sn"
    "iPred u = Some (p\<lparr>threadInfo := (threadInfo p)[tid := (threadInfo p ! tid)\<lparr>pathHist := pathHist (threadInfo p ! tid) @ es\<rparr>]\<rparr>)"
    using assms(1) by (auto simp: path_ext_def)
  define G where "G = (push_bit 1 (ghr (threadInfo p ! tid)) OR (if taken then 1 else 0)) AND ghrMask p"
  define p1 where "p1 = p\<lparr>threadInfo := (threadInfo p)[tid := (threadInfo p ! tid)\<lparr>pathHist := pathHist (threadInfo p ! tid) @ es, ghr := G\<rparr>]\<rparr>"
  have "info_ext tid sn ih i (Some p1)" using Some assms(2) [OF Some] es(1) unfolding info_ext_def p1_def by auto
  moreover have "on_iPred (updateDirectionInfo tid taken) u = Inr (u\<lparr>iPred := Some p1\<rparr>)"
    using assms(2) [OF Some] es(2) by (simp add: on_iPred_def updateDirectionInfo_def upd_thread_eq p1_def G_def)
  ultimately show ?thesis by simp
qed

lemma step_hist_ok:
  assumes "step_post tid sn inst r u u1" "ras_ok (u_RAS u ! tid)" "ras_numEntries R = ras_numEntries (u_RAS u ! tid)"
  shows "hist_ok R (iPred u1 \<noteq> None) r"
  using assms by (auto simp: step_post_def hist_ok_def info_ext_def ras_trace_def ras_ok_def split: option.splits)

lemma step_unit_ok:
  assumes u: "unit_ok ok threads n u" "tid < n" and p: "step_post tid sn inst r u u1"
    and d: "ok (u_dir u1)" "threads (u_dir u1) = n"
  shows "unit_ok ok threads n u1"
proof -
  note o = unit_okD [OF u]
  obtain R where R: "u_RAS u1 = (u_RAS u)[tid := R]" "ras_ok R" "ras_numEntries R = ras_numEntries (u_RAS u ! tid)"
    using p by (auto simp: step_post_def)
  have i: "info_ext tid sn (ph_indirectHistory r) (iPred u) (iPred u1)"
    and h: "predHist u1 = (predHist u)[tid := r # predHist u ! tid]" "u_BTB u1 = u_BTB u" using p by (auto simp: step_post_def)
  have "hist_ok (u_RAS u1 ! k) (iPred u1 \<noteq> None) x" if k: "k < n" "x \<in> set (predHist u1 ! k)" for k x
  proof (cases "k = tid")
    case True
    then have "x = r \<or> x \<in> set (predHist u ! tid)" using k(2) h(1) o(3) by simp
    then show ?thesis
      using True step_hist_ok [OF p o(6) R(3)] o(8) [of x] R(1,3) o(5) info_ext_None [OF i] by (auto simp: hist_ok_def)
  next
    case False
    then show ?thesis using k u(1) R(1) h(1) info_ext_None [OF i] by (auto simp: unit_ok_def)
  qed
  moreover have "\<forall>x \<in> set (u_RAS u1). ras_ok x"
    using u(1) R(1,2) by (auto simp: unit_ok_def dest!: set_update_subset_insert [THEN subsetD])
  ultimately show ?thesis
    using u(1) d h R(1) info_ext_ok [OF i o(7)] by (auto simp: unit_ok_def)
qed

context direction_predictor
begin

lemma predict_dir_post:
  assumes "ok (u_dir u)" "tid < threads (u_dir u)"
  shows "\<exists>taken h u1 s1. predict_dir D I inst pc tid u = Inr (taken, h, u1) \<and> ok s1 \<and> threads s1 = threads (u_dir u) \<and> u_dir u1 = s1 \<and>
    (if isUncondCtrl inst then d_uncondBranch D tid (instAddr I pc) (u_dir u) = Inr (h, s1)
     else \<exists>t. d_lookup D tid (instAddr I pc) (u_dir u) = Inr (t, h, s1)) \<and>
    predHist u1 = predHist u \<and> u_BTB u1 = u_BTB u \<and> u_RAS u1 = u_RAS u \<and> iPred u1 = iPred u"
proof (cases "isUncondCtrl inst")
  case True
  obtain h s where "d_uncondBranch D tid (instAddr I pc) (u_dir u) = Inr (h, s)" "ok s" "threads s = threads (u_dir u)"
    using uncond_total [OF assms] by blast
  with True show ?thesis by (auto simp: predict_dir_def)
next
  case False
  obtain t h s where "d_lookup D tid (instAddr I pc) (u_dir u) = Inr (t, h, s)" "ok s" "threads s = threads (u_dir u)"
    using lookup_total [OF assms] by blast
  with False show ?thesis by (auto simp: predict_dir_def Let_def)
qed

lemma dir_undoable:
  assumes s: "ok s" and l: "if isUncondCtrl inst then d_uncondBranch D tid a s = Inr (h, s1) else \<exists>t. d_lookup D tid a s = Inr (t, h, s1)"
    and b: "s2 = s1 \<or> \<not> isCall inst \<and> \<not> isReturn inst \<and> d_btbUpdate D tid a h s1 = Inr s2"
    and j: "jumps_undoable D ok threads sim \<or> \<not> plain_jump inst"
  shows "undoable D ok threads sim tid h s s2"
proof (cases "isUncondCtrl inst")
  case True
  then have u: "d_uncondBranch D tid a s = Inr (h, s1)" using l by simp
  show ?thesis
  proof (cases "s2 = s1")
    case True
    then show ?thesis using squash_uncond [OF s u] by (auto simp: undoable_def)
  next
    case False
    then show ?thesis using b j \<open>isUncondCtrl inst\<close> s u unfolding jumps_undoable_def plain_jump_def by blast
  qed
next
  case False
  then obtain t where t: "d_lookup D tid a s = Inr (t, h, s1)" using l by auto
  show ?thesis using b squash_lookup [OF s t] squash_btb [OF s t] by (auto simp: undoable_def)
qed

lemma predict_step:
  assumes u: "unit_ok ok threads n u" "tid < n"
  shows "\<exists>t tgt u1 r. predict D I inst sn pc tid u = Inr (t, tgt, u1) \<and> unit_ok ok threads n u1 \<and> step_post tid sn inst r u u1 \<and>
    (jumps_undoable D ok threads sim \<or> \<not> plain_jump inst \<longrightarrow>
      undoable D ok threads sim tid (ph_bpHistory r) (u_dir u) (u_dir u1))"
proof -
  note o = unit_okD [OF u]
  let ?a = "instAddr I pc" and ?c = "count (\<lambda>st. st\<lparr>st_lookups := st_lookups st + 1\<rparr>) u"
  obtain taken h u1 s1 where d: "predict_dir D I inst pc tid ?c = Inr (taken, h, u1)" "ok s1" "threads s1 = n" "u_dir u1 = s1"
    "if isUncondCtrl inst then d_uncondBranch D tid ?a (u_dir u) = Inr (h, s1) else \<exists>t. d_lookup D tid ?a (u_dir u) = Inr (t, h, s1)"
    "predHist u1 = predHist u" "u_BTB u1 = u_BTB u" "u_RAS u1 = u_RAS u" "iPred u1 = iPred u"
    using predict_dir_post [of ?c tid I inst pc] unfolding count_fields o(2) using o(1) u(2) by blast
  obtain ih where g: "gen_info tid u1 = Inr ih" "\<And>p. iPred u = Some p \<Longrightarrow> ih = Some (ghr (threadInfo p ! tid))"
    using o(7) u(2) d(9) by (cases "iPred u") (auto simp: gen_info_def genIndirectInfo_def si_ok_def)
  let ?r = "new_history I sn ?a taken h ih tid inst"
  have "\<exists>t tgt r2 u2. predict_target D I inst sn pc tid taken ?r u1 = Inr (t, tgt, r2, u2) \<and> target_post D tid ?a sn inst ?r u1 r2 u2"
    by (rule predict_target_post [where n = n]) (use o d u(2) in \<open>simp_all add: new_history_def\<close>)
  then obtain t tgt r2 u2 where t: "predict_target D I inst sn pc tid taken ?r u1 = Inr (t, tgt, r2, u2)"
    and p: "target_post D tid ?a sn inst ?r u1 r2 u2" by blast
  let ?r3 = "r2\<lparr>ph_target := instAddr I tgt\<rparr>"
  have "\<exists>u3. on_iPred (updateDirectionInfo tid taken) u2 = Inr u3 \<and> info_ext tid sn ih (iPred u) (iPred u3) \<and>
      u_dir u3 = u_dir u2 \<and> predHist u3 = predHist u2 \<and> u_BTB u3 = u_BTB u2 \<and> u_RAS u3 = u_RAS u2"
    by (rule direction_info) (use p d(9) g(2) o(7) u(2) in \<open>auto simp: target_post_def si_ok_def\<close>)
  then obtain u3 where u3: "on_iPred (updateDirectionInfo tid taken) u2 = Inr u3" "info_ext tid sn ih (iPred u) (iPred u3)"
    "u_dir u3 = u_dir u2" "predHist u3 = predHist u2" "u_BTB u3 = u_BTB u2" "u_RAS u3 = u_RAS u2" by blast
  let ?u = "u3\<lparr>predHist := (predHist u)[tid := ?r3 # predHist u ! tid]\<rparr>"
  have e: "predHist u3 = predHist u" using u3 p d by (simp add: target_post_def)
  have res: "predict D I inst sn pc tid u = Inr (t, tgt, ?u)"
    using d(1) g(1) t u3(1) o(3) e by (simp add: predict_def)
  have st: "step_post tid sn inst ?r3 u ?u"
    using p u3 d unfolding step_post_def target_post_def by (auto simp: new_history_def ras_trace_def)
  have dir: "u_dir u3 = s1 \<or> \<not> isCall inst \<and> \<not> isReturn inst \<and> d_btbUpdate D tid ?a h s1 = Inr (u_dir u3)"
    using p u3(3) d(4) by (auto simp: target_post_def new_history_def)
  have "ok (u_dir u3) \<and> threads (u_dir u3) = n" using dir d(2,3) btb_total u(2) by (metis sum.inject(2))
  then have "unit_ok ok threads n ?u" using step_unit_ok [OF u st] by simp
  moreover have "ph_bpHistory ?r3 = h" using p by (simp add: target_post_def new_history_def)
  ultimately show ?thesis using res st dir_undoable [OF o(1) d(5) dir] by auto
qed

end

subsection \<open>Squashing undoes predictions\<close>

definition set_path :: "nat \<Rightarrow> HistoryEntry list \<Rightarrow> 'pc SimpleIndirectPredictor \<Rightarrow> 'pc SimpleIndirectPredictor" where
  "set_path tid es p = p\<lparr>threadInfo := (threadInfo p)[tid := (threadInfo p ! tid)\<lparr>pathHist := es\<rparr>]\<rparr>"

text \<open>A stack with the same top index and the same \<open>m\<close> topmost entries.\<close>

definition ras_agree :: "nat \<Rightarrow> 'pc ReturnAddrStack \<Rightarrow> 'pc ReturnAddrStack \<Rightarrow> bool" where
  "ras_agree m r r0 \<longleftrightarrow> ras_ok r \<and> tos r = tos r0 \<and> ras_numEntries r = ras_numEntries r0 \<and>
     take m (ras_list r) = take m (ras_list r0)"

lemma ras_agree_mono: "ras_agree m r r0 \<Longrightarrow> k \<le> m \<Longrightarrow> ras_agree k r r0"
  unfolding ras_agree_def by (metis min_def take_take)

lemma take_butlast_less: "m < length xs \<Longrightarrow> take m (butlast xs) = take m xs"
  by (simp add: butlast_conv_take)

lemma ras_length: "ras_ok r \<Longrightarrow> length (addrStack r) = unat (ras_numEntries r)"
  by (simp add: ras_ok_def)

lemma take_rotate1: "m < length xs \<Longrightarrow> take m (rotate1 xs) = take m (tl xs)"
  by (cases xs) auto

text \<open>The three ways a prediction left the stack are undone by the three branches of the squash.\<close>

lemma undo_pop:
  assumes r: "ras_ok r0" "ras_agree m r (ras_pop r0)" "m \<le> unat (ras_numEntries r0)"
  shows "\<exists>r1. ras_restore (tos r0) (hd (ras_list r0)) r = Inr r1 \<and> ras_agree m r1 r0"
proof -
  note p = ras_pop_list [OF r(1)]
  have ok: "ras_ok r" "ras_numEntries r = ras_numEntries r0" using r(2) by (simp_all add: ras_agree_def)
  have t: "tos (incrTos r) = tos r0"
    by (rule incr_decr_tos [OF r(1)]) (use r(2) p(3) ok ras_length [OF ok(1)] ras_length [OF r(1)] in \<open>simp_all add: ras_agree_def\<close>)
  obtain r1 where r1: "ras_restore (tos r0) (hd (ras_list r0)) r = Inr r1" "ras_ok r1"
    "ras_list r1 = hd (ras_list r0) # butlast (ras_list r)" "tos r1 = tos r0" "length (addrStack r1) = length (addrStack r)"
    by (rule ras_restore_eq [OF ok(1) t [symmetric], of "hd (ras_list r0)"])
  have n: "ras_numEntries r1 = ras_numEntries r0" using r1(1) ok(2) by (auto simp: ras_restore_def Let_def)
  have len: "length (ras_list r0) = unat (ras_numEntries r0)" "length (ras_list r) = unat (ras_numEntries r0)"
    using ras_length [OF r(1)] ras_length [OF ok(1)] ok(2) by simp_all
  have "take m (ras_list r1) = take m (ras_list r0)"
  proof (cases m)
    case (Suc k)
    have "take k (butlast (ras_list r)) = take k (ras_list r)" using len r(3) Suc by (intro take_butlast_less) simp
    also have "\<dots> = take k (rotate1 (ras_list r0))"
      using ras_agree_mono [OF r(2), of k] Suc p(1) by (simp add: ras_agree_def)
    also have "\<dots> = take k (tl (ras_list r0))" using len r(3) Suc by (intro take_rotate1) simp
    finally show ?thesis using Suc len r(3) r1(3) by (cases "ras_list r0") auto
  qed simp
  then show ?thesis using r1 n by (simp add: ras_agree_def)
qed

lemma undo_push:
  assumes r: "ras_ok r0" "ras_push x r0 = Inr rp" "ras_agree (m + 1) r rp" "m < unat (ras_numEntries r0)"
  shows "ras_agree m (ras_pop r) r0"
proof -
  obtain r' where r': "ras_push x r0 = Inr r'" "ras_ok r'" "ras_list r' = x # butlast (ras_list r0)" "tos r' = tos (incrTos r0)"
    "length (addrStack r') = length (addrStack r0)" by (rule ras_push_eq [OF r(1)])
  then have rp: "ras_ok rp" "ras_list rp = x # butlast (ras_list r0)" "tos rp = tos (incrTos r0)" "length (addrStack rp) = length (addrStack r0)"
    using r(2) by simp_all
  have n: "ras_numEntries rp = ras_numEntries r0" using rp(1,4) r(1) ras_length by (metis unsigned_word_eqI)
  have ok: "ras_ok r" "ras_numEntries r = ras_numEntries r0" "tos r = tos rp" using r(3) n by (simp_all add: ras_agree_def)
  note p = ras_pop_list [OF ok(1)]
  have "tos (decrTos r) = tos r0"
    by (rule decr_incr_tos [OF r(1)]) (use ok rp ras_length [OF ok(1)] ras_length [OF r(1)] in simp_all)
  moreover have "take m (ras_list (ras_pop r)) = take m (ras_list r0)"
  proof -
    have len: "length (ras_list r) = unat (ras_numEntries r0)" "length (ras_list r0) = unat (ras_numEntries r0)"
      using ras_length [OF ok(1)] ras_length [OF r(1)] ok(2) by simp_all
    have "take m (rotate1 (ras_list r)) = take m (tl (ras_list r))" using len r(4) by (intro take_rotate1) simp
    also have "\<dots> = tl (take (m + 1) (ras_list r))" by (simp add: tl_take)
    also have "\<dots> = take m (butlast (ras_list r0))" using r(3) rp(2) by (simp add: ras_agree_def)
    also have "\<dots> = take m (ras_list r0)" using len r(4) by (intro take_butlast_less) simp
    finally show ?thesis by (simp add: p(1))
  qed
  ultimately show ?thesis using p ok by (simp add: ras_agree_def)
qed

lemma push_pop_agree:
  assumes r: "ras_ok r0" "ras_push x r0 = Inr rp" "m < unat (ras_numEntries r0)"
  shows "ras_agree m (ras_pop rp) r0"
proof (rule undo_push [OF r(1,2) _ r(3)])
  show "ras_agree (m + 1) rp rp" using ras_push_ok [OF r(1), of x] r(2) by (auto simp: ras_agree_def)
qed

lemma ras_agree_trans: "ras_agree m r r1 \<Longrightarrow> ras_agree m r1 r2 \<Longrightarrow> ras_agree m r r2"
  by (simp add: ras_agree_def)

text \<open>A unit during a squash, compared with an earlier one: the path of the indirect predictor has been cut to \<open>es\<close>
  already, the history of the thread is still to be cut.\<close>

definition agrees :: "('s \<Rightarrow> bool) \<Rightarrow> ('s \<Rightarrow> nat) \<Rightarrow> ('s \<Rightarrow> 's \<Rightarrow> bool) \<Rightarrow> nat \<Rightarrow> nat \<Rightarrow> HistoryEntry list \<Rightarrow>
    ('pc, 'h, 'inst) PredictorHistory list list \<Rightarrow> nat \<Rightarrow> ('pc, 'h, 's, 'inst) BPredUnit \<Rightarrow> ('pc, 'h, 's, 'inst) BPredUnit \<Rightarrow> bool" where
  "agrees ok threads sim n tid es hist m t u \<longleftrightarrow>
     ok (u_dir t) \<and> threads (u_dir t) = n \<and> sim (u_dir t) (u_dir u) \<and> u_BTB t = u_BTB u \<and> predHist t = hist \<and>
     iPred t = map_option (set_path tid es) (iPred u) \<and>
     (\<exists>R. u_RAS t = (u_RAS u)[tid := R] \<and> ras_agree m R (u_RAS u ! tid))"

lemma squash_RAS_back:
  assumes p: "step_post tid sn inst r u u1" and t: "tid < length (u_RAS u)" "ras_ok (u_RAS u ! tid)"
    and a: "u_RAS t = (u_RAS u1)[tid := R]" "ras_agree (if isCall inst then m + 1 else m) R (u_RAS u1 ! tid)"
    and m: "(if isCall inst then m + 1 else m) \<le> unat (ras_numEntries (u_RAS u ! tid))"
  shows "\<exists>R0. squash_RAS tid r t = Inr (t\<lparr>u_RAS := (u_RAS u)[tid := R0]\<rparr>) \<and> ras_agree m R0 (u_RAS u ! tid)"
proof -
  let ?R = "u_RAS u ! tid"
  obtain R1 where R1: "u_RAS u1 = (u_RAS u)[tid := R1]" "ras_trace r ?R R1" "ph_usedRAS r \<or> isCall inst \<or> R1 = ?R \<and> \<not> ph_wasCall r"
    using p by (auto simp: step_post_def)
  have tr: "u_RAS t = (u_RAS u)[tid := R]" "tid < length (u_RAS t)" "u_RAS t ! tid = R" using a(1) R1(1) t(1) by simp_all
  have R: "ras_agree (if isCall inst then m + 1 else m) R R1" using a(2) R1(1) t(1) by simp
  then have Rm: "ras_agree m R R1" by (rule ras_agree_mono) simp
  consider "ph_usedRAS r" | "\<not> ph_usedRAS r" "ph_wasCall r \<and> ph_pushedRAS r" "isCall inst" | "\<not> ph_usedRAS r" "\<not> (ph_wasCall r \<and> ph_pushedRAS r)" using R1(3) by blast
  then show ?thesis
  proof cases
    case 1
    then have tr1: "ph_RASIndex r = tos ?R" "ph_RASTarget r = hd (ras_list ?R)" "R1 = ras_pop ?R" using R1(2) by (simp_all add: ras_trace_def)
    obtain R0 where "ras_restore (tos ?R) (hd (ras_list ?R)) R = Inr R0" "ras_agree m R0 ?R"
      using undo_pop [OF t(2) Rm [unfolded tr1(3)]] m by (auto split: if_splits)
    then show ?thesis using 1 tr tr1 by (auto simp: squash_RAS_def on_RAS_eq)
  next
    case 2
    then obtain x where x: "ras_push x ?R = Inr R1" using R1(2) by (auto simp: ras_trace_def)
    have "ras_agree m (ras_pop R) ?R" using undo_push [OF t(2) x] R m 2(3) by simp
    then show ?thesis using 2 tr by (auto simp: squash_RAS_def on_RAS_eq)
  next
    case 3
    have "ras_agree m R1 ?R"
    proof (cases "R1 = ?R")
      case True
      then show ?thesis using t(2) by (simp add: ras_agree_def)
    next
      case False
      then obtain x rp where "ras_push x ?R = Inr rp" "R1 = ras_pop rp" "isCall inst" using R1(2,3) 3 by (auto simp: ras_trace_def)
      then show ?thesis using push_pop_agree [OF t(2)] m by simp
    qed
    from ras_agree_trans [OF Rm this] have "ras_agree m R ?R" .
    moreover have "squash_RAS tid r t = Inr (t\<lparr>u_RAS := (u_RAS u)[tid := R]\<rparr>)" using 3 tr(1) by (auto simp: squash_RAS_def)
    ultimately show ?thesis by blast
  qed
qed

lemma set_path_length: "iPred u = Some p \<Longrightarrow> length (threadInfo (set_path tid es p)) = length (threadInfo p)"
  by (simp add: set_path_def)

lemma delete_info_back:
  assumes i: "info_ext tid sn ih (iPred u) (iPred u1)" and p: "\<And>p. iPred u = Some p \<Longrightarrow> tid < length (threadInfo p)"
    and t: "iPred t = map_option (set_path tid es) (iPred u1)"
  shows "on_iPred (\<lambda>p. case ih of None \<Rightarrow> Inl (Undefined ''null history'') | Some g \<Rightarrow> deleteIndirectInfo tid g p) t =
    Inr (t\<lparr>iPred := map_option (set_path tid es) (iPred u)\<rparr>)"
proof (cases "iPred u")
  case None
  then show ?thesis using i t by (simp add: info_ext_def on_iPred_def)
next
  case (Some q)
  then show ?thesis using i t p [OF Some]
    by (auto simp: info_ext_def on_iPred_def deleteIndirectInfo_def upd_thread_eq set_path_def)
qed

lemma squash_step:
  assumes p: "step_post tid sn inst r u u1" and u: "unit_ok ok threads n u" "tid < n" and sn: "sn0 < sn"
    and d: "undoable D ok threads sim tid (ph_bpHistory r) (u_dir u) (u_dir u1)"
    and a: "agrees ok threads sim n tid es hist (if isCall inst then m + 1 else m) t u1"
    and m: "(if isCall inst then m + 1 else m) \<le> unat (ras_numEntries (u_RAS u ! tid))"
  shows "\<exists>t0. squash_loop D sn0 tid (r # hs) t = squash_loop D sn0 tid hs t0 \<and> agrees ok threads sim n tid es hist m t0 u"
proof -
  note o = unit_okD [OF u]
  obtain R where R: "u_RAS t = (u_RAS u1)[tid := R]" "ras_agree (if isCall inst then m + 1 else m) R (u_RAS u1 ! tid)"
    and at: "ok (u_dir t)" "threads (u_dir t) = n" "sim (u_dir t) (u_dir u1)" "u_BTB t = u_BTB u1" "predHist t = hist"
      "iPred t = map_option (set_path tid es) (iPred u1)"
    using a unfolding agrees_def by blast
  obtain R0 where R0: "squash_RAS tid r t = Inr (t\<lparr>u_RAS := (u_RAS u)[tid := R0]\<rparr>)" "ras_agree m R0 (u_RAS u ! tid)"
    using squash_RAS_back [OF p o(5,6) R m] by blast
  obtain s where s: "d_squash D tid (ph_bpHistory r) (u_dir t) = Inr s" "ok s" "threads s = n" "sim s (u_dir u)"
    using d at(1-3) unfolding undoable_def by blast
  have i: "info_ext tid sn (ph_indirectHistory r) (iPred u) (iPred u1)" "ph_seqNum r = sn" "u_BTB u1 = u_BTB u"
    using p by (simp_all add: step_post_def)
  have ti: "\<And>q. iPred u = Some q \<Longrightarrow> tid < length (threadInfo q)" using o(7) u(2) by (auto simp: si_ok_def)
  let ?t = "t\<lparr>u_RAS := (u_RAS u)[tid := R0], u_dir := s\<rparr>"
  let ?v = "?t\<lparr>iPred := map_option (set_path tid es) (iPred u)\<rparr>"
  have "on_iPred (\<lambda>p. case ph_indirectHistory r of None \<Rightarrow> Inl (Undefined ''null history'') | Some g \<Rightarrow> deleteIndirectInfo tid g p) ?t = Inr ?v"
    by (rule delete_info_back [OF i(1) ti]) (simp_all add: at(6))
  then have "squash_loop D sn0 tid (r # hs) t = squash_loop D sn0 tid hs ?v" using sn i(2) R0(1) s(1) by simp
  moreover have "agrees ok threads sim n tid es hist m ?v u"
    using s(2-4) at(4,5) i(3) R0(2) unfolding agrees_def by auto
  ultimately show ?thesis by blast
qed

text \<open>A sequence of predictions of one thread.\<close>

fun predicts where
  "predicts D I tid [] u = Inr u"
| "predicts D I tid ((inst, sn, pc) # xs) u = rbind (predict D I inst sn pc tid u) (\<lambda>(taken, target, u1). predicts D I tid xs u1)"

definition calls :: "('x StaticInst_scheme \<times> u64 \<times> 'pc) list \<Rightarrow> nat" where
  "calls xs = length (filter (\<lambda>(inst, sn, pc). isCall inst) xs)"

text \<open>The path after a sequence of predictions.\<close>

definition path_after :: "nat \<Rightarrow> u64 \<Rightarrow> 'pc SimpleIndirectPredictor option \<Rightarrow> 'pc SimpleIndirectPredictor option \<Rightarrow> bool" where
  "path_after tid sn i i1 \<longleftrightarrow>
     (case i of None \<Rightarrow> i1 = None
      | Some p \<Rightarrow> \<exists>q es. i1 = Some q \<and> pathHist (threadInfo q ! tid) = pathHist (threadInfo p ! tid) @ es \<and> (\<forall>e \<in> set es. sn < h_seqNum e))"

lemma path_after_step:
  assumes "info_ext tid sn1 ih i i1" "\<And>p. i = Some p \<Longrightarrow> tid < length (threadInfo p)" "sn < sn1" "path_after tid sn i1 i2"
  shows "path_after tid sn i i2"
proof (cases i)
  case (Some p)
  obtain es g where es: "\<forall>e \<in> set es. h_seqNum e = sn1" "i1 = Some (p\<lparr>threadInfo := (threadInfo p)[tid :=
      (threadInfo p ! tid)\<lparr>pathHist := pathHist (threadInfo p ! tid) @ es, ghr := g\<rparr>]\<rparr>)"
    using assms(1) Some by (auto simp: info_ext_def)
  then obtain q es' where q: "i2 = Some q" "pathHist (threadInfo q ! tid) = pathHist (threadInfo p ! tid) @ es @ es'" "\<forall>e \<in> set es'. sn < h_seqNum e"
    using assms(4) assms(2) [OF Some] by (auto simp: path_after_def)
  have "\<forall>e \<in> set (es @ es'). sn < h_seqNum e" using q(3) es(1) assms(3) by auto
  then show ?thesis using q(1,2) Some unfolding path_after_def by auto
qed (use assms in \<open>simp add: info_ext_def path_after_def\<close>)

context direction_predictor
begin

lemma predicts_undone:
  assumes "unit_ok ok threads n u" "tid < n" "\<forall>(inst, sn1, pc) \<in> set xs. sn < sn1"
    "jumps_undoable D ok threads sim \<or> (\<forall>(inst, sn1, pc) \<in> set xs. \<not> plain_jump inst)"
    "m + calls xs \<le> unat (ras_numEntries (u_RAS u ! tid))"
  shows "\<exists>u1 hs. predicts D I tid xs u = Inr u1 \<and> unit_ok ok threads n u1 \<and> path_after tid sn (iPred u) (iPred u1) \<and>
    predHist u1 = (predHist u)[tid := hs @ predHist u ! tid] \<and>
    (\<forall>es hist t left. agrees ok threads sim n tid es hist (m + calls xs) t u1 \<longrightarrow>
      (\<exists>t0. squash_loop D sn tid (hs @ left) t = squash_loop D sn tid left t0 \<and> agrees ok threads sim n tid es hist m t0 u))"
  using assms
proof (induction xs arbitrary: u m)
  case Nil
  then show ?case
    by (auto simp: calls_def path_after_def split: option.split intro!: exI [of _ "[]"])
next
  case (Cons x xs)
  obtain inst sn1 pc where x: "x = (inst, sn1, pc)" by (cases x)
  obtain t tgt u1 r where s: "predict D I inst sn1 pc tid u = Inr (t, tgt, u1)" "unit_ok ok threads n u1" "step_post tid sn1 inst r u u1"
    "jumps_undoable D ok threads sim \<or> \<not> plain_jump inst \<Longrightarrow> undoable D ok threads sim tid (ph_bpHistory r) (u_dir u) (u_dir u1)"
    using predict_step [OF Cons.prems(1,2), of I inst sn1 pc] by blast
  let ?m = "if isCall inst then m + 1 else m"
  note o = unit_okD [OF Cons.prems(1,2)]
  have h: "predHist u1 = (predHist u)[tid := r # predHist u ! tid]"
    "info_ext tid sn1 (ph_indirectHistory r) (iPred u) (iPred u1)" using s(3) by (simp_all add: step_post_def)
  have n: "ras_numEntries (u_RAS u1 ! tid) = ras_numEntries (u_RAS u ! tid)" using s(3) o(5) by (auto simp: step_post_def)
  have c: "m + calls (x # xs) = ?m + calls xs" by (simp add: calls_def x)
  then have le: "?m + calls xs \<le> unat (ras_numEntries (u_RAS u1 ! tid))" using Cons.prems(5) n by simp
  have lts: "\<forall>(inst, sn1, pc) \<in> set xs. sn < sn1" using Cons.prems(3) by simp
  have js: "jumps_undoable D ok threads sim \<or> (\<forall>(inst, sn1, pc) \<in> set xs. \<not> plain_jump inst)" using Cons.prems(4) by auto
  from Cons.IH [OF s(2) Cons.prems(2) lts js le]
  obtain u2 hs where u2: "predicts D I tid xs u1 = Inr u2" "unit_ok ok threads n u2" "path_after tid sn (iPred u1) (iPred u2)"
    "predHist u2 = (predHist u1)[tid := hs @ predHist u1 ! tid]"
    and bk: "\<And>es hist t left. agrees ok threads sim n tid es hist (?m + calls xs) t u2 \<Longrightarrow>
      \<exists>t0. squash_loop D sn tid (hs @ left) t = squash_loop D sn tid left t0 \<and> agrees ok threads sim n tid es hist ?m t0 u1"
    by blast
  have un: "undoable D ok threads sim tid (ph_bpHistory r) (u_dir u) (u_dir u1)"
    by (rule s(4)) (use Cons.prems(4) x in auto)
  have lt: "sn < sn1" using Cons.prems(3) x by auto
  have mm: "?m \<le> unat (ras_numEntries (u_RAS u ! tid))" using Cons.prems(5) c by simp
  have b: "\<exists>t0. squash_loop D sn tid ((hs @ [r]) @ left) t = squash_loop D sn tid left t0 \<and> agrees ok threads sim n tid es hist m t0 u"
    if ag: "agrees ok threads sim n tid es hist (m + calls (x # xs)) t u2" for es hist t left
  proof -
    obtain t1 where t1: "squash_loop D sn tid (hs @ r # left) t = squash_loop D sn tid (r # left) t1"
      "agrees ok threads sim n tid es hist ?m t1 u1"
      using bk [of es hist t "r # left"] ag [unfolded c] by blast
    from squash_step [OF s(3) Cons.prems(1,2) lt un t1(2) mm, of left] t1(1) show ?thesis by auto
  qed
  have pa: "path_after tid sn (iPred u) (iPred u2)"
    by (rule path_after_step [OF h(2) _ lt u2(3)]) (use o(7) Cons.prems(2) in \<open>auto simp: si_ok_def\<close>)
  have "predicts D I tid (x # xs) u = Inr u2" using s(1) u2(1) x by simp
  moreover have "predHist u2 = (predHist u)[tid := (hs @ [r]) @ predHist u ! tid]" using u2(4) h(1) o(3) by simp
  ultimately show ?case using u2(2) pa b by blast
qed

end

lemma squash_path:
  assumes "path_after tid sn i i1" "\<And>p. i = Some p \<Longrightarrow> \<forall>e \<in> set (pathHist (threadInfo p ! tid)). h_seqNum e \<le> sn"
    and "iPred u = i1" "\<And>p. i1 = Some p \<Longrightarrow> tid < length (threadInfo p)"
  shows "on_iPred (si_squash sn tid) u =
    Inr (u\<lparr>iPred := map_option (set_path tid (case i of None \<Rightarrow> [] | Some p \<Rightarrow> pathHist (threadInfo p ! tid))) (iPred u)\<rparr>)"
proof (cases i)
  case None
  then show ?thesis using assms by (simp add: path_after_def on_iPred_def)
next
  case (Some p)
  then obtain q es where q: "i1 = Some q" "pathHist (threadInfo q ! tid) = pathHist (threadInfo p ! tid) @ es" "\<forall>e \<in> set es. sn < h_seqNum e"
    using assms(1) by (auto simp: path_after_def)
  have "takeWhile (\<lambda>e. \<not> sn < h_seqNum e) es = []" using q(3) by (cases es) auto
  then have "takeWhile (\<lambda>e. \<not> sn < h_seqNum e) (pathHist (threadInfo q ! tid)) = pathHist (threadInfo p ! tid)"
    using assms(2) [OF Some] by (simp add: q(2) takeWhile_append not_less)
  then show ?thesis using Some q(1) assms(3) assms(4) [OF q(1)]
    by (simp add: on_iPred_def si_squash_def upd_thread_eq set_path_def)
qed

lemma set_path_self: "set_path tid (pathHist (threadInfo p ! tid)) p = p"
  by (simp add: set_path_def)

lemma squash_stops: "\<forall>h \<in> set hs. ph_seqNum h \<le> sn \<Longrightarrow> squash_loop D sn tid hs u = Inr (hs, u)"
  by (cases hs) (auto simp: not_less)

context direction_predictor
begin

lemma squash_undoes:
  assumes u: "unit_ok ok threads n u" "tid < n" and xs: "\<forall>(inst, sn1, pc) \<in> set xs. sn < sn1"
    "jumps_undoable D ok threads sim \<or> (\<forall>(inst, sn1, pc) \<in> set xs. \<not> plain_jump inst)"
    "m + calls xs \<le> unat (ras_numEntries (u_RAS u ! tid))"
    and h: "\<forall>h \<in> set (predHist u ! tid). ph_seqNum h \<le> sn"
    and p: "\<And>p. iPred u = Some p \<Longrightarrow> \<forall>e \<in> set (pathHist (threadInfo p ! tid)). h_seqNum e \<le> sn"
  shows "\<exists>u1 u2 R. predicts D I tid xs u = Inr u1 \<and> unit_squash D sn tid u1 = Inr u2 \<and> predHist u2 = predHist u \<and>
    u_BTB u2 = u_BTB u \<and> iPred u2 = iPred u \<and> sim (u_dir u2) (u_dir u) \<and>
    u_RAS u2 = (u_RAS u)[tid := R] \<and> ras_agree m R (u_RAS u ! tid)"
proof -
  obtain u1 hs where u1: "predicts D I tid xs u = Inr u1" "unit_ok ok threads n u1" "path_after tid sn (iPred u) (iPred u1)"
    "predHist u1 = (predHist u)[tid := hs @ predHist u ! tid]"
    and bk: "\<And>es hist t left. agrees ok threads sim n tid es hist (m + calls xs) t u1 \<Longrightarrow>
      \<exists>t0. squash_loop D sn tid (hs @ left) t = squash_loop D sn tid left t0 \<and> agrees ok threads sim n tid es hist m t0 u"
    using predicts_undone [OF u xs, of I] by blast
  note o = unit_okD [OF u] and o1 = unit_okD [OF u1(2) u(2)]
  let ?es = "case iPred u of None \<Rightarrow> [] | Some p \<Rightarrow> pathHist (threadInfo p ! tid)"
  let ?t = "u1\<lparr>iPred := map_option (set_path tid ?es) (iPred u1)\<rparr>"
  have ip: "on_iPred (si_squash sn tid) u1 = Inr ?t"
    by (rule squash_path [OF u1(3) p refl]) (use o1(7) u(2) in \<open>auto simp: si_ok_def\<close>)
  have "agrees ok threads sim n tid ?es (predHist u1) (m + calls xs) ?t u1"
    using o1 unfolding agrees_def by (auto simp: sim_refl ras_agree_def intro!: exI [of _ "u_RAS u1 ! tid"])
  from bk [OF this, of "predHist u ! tid"] obtain t0 where t0: "squash_loop D sn tid (hs @ predHist u ! tid) ?t = Inr (predHist u ! tid, t0)"
    "agrees ok threads sim n tid ?es (predHist u1) m t0 u" using squash_stops [OF h] by metis
  let ?u = "t0\<lparr>predHist := (predHist t0)[tid := predHist u ! tid]\<rparr>"
  have "unit_squash D sn tid u1 = Inr ?u" using o(3) u1(4) ip t0(1) by (simp add: unit_squash_def)
  moreover have "predHist ?u = predHist u" using t0(2) u1(4) by (simp add: agrees_def)
  moreover have "iPred ?u = iPred u" using t0(2) by (cases "iPred u") (simp_all add: agrees_def set_path_self)
  ultimately show ?thesis using u1(1) t0(2) unfolding agrees_def by auto
qed

lemma commit_loop_total:
  assumes "ok (u_dir u)" "threads (u_dir u) = n" "tid < n" "\<And>p. iPred u = Some p \<Longrightarrow> si_ok n p"
    "\<forall>h \<in> set hs. iPred u \<noteq> None \<longrightarrow> ph_indirectHistory h \<noteq> None"
  shows "\<exists>u1. commit_loop D done tid hs u = Inr (dropWhile (\<lambda>h. ph_seqNum h \<le> done) hs, u1) \<and> ok (u_dir u1) \<and> threads (u_dir u1) = n \<and>
    (\<forall>p. iPred u1 = Some p \<longrightarrow> si_ok n p) \<and> (iPred u1 = None \<longleftrightarrow> iPred u = None) \<and>
    predHist u1 = predHist u \<and> u_BTB u1 = u_BTB u \<and> u_RAS u1 = u_RAS u"
  using assms
proof (induction hs arbitrary: u)
  case (Cons h hs)
  show ?case
  proof (cases "ph_seqNum h \<le> done")
    case True
    obtain s where s: "d_update D tid (ph_pc h) (ph_predTaken h) (ph_bpHistory h) False (u_dir u) = Inr s" "ok s" "threads s = n"
      using update_total Cons.prems(1-3) by metis
    obtain i where i: "on_iPred (\<lambda>p. case ph_indirectHistory h of None \<Rightarrow> Inl (Undefined ''null history'') | Some g \<Rightarrow> si_commit done tid g p)
        (u\<lparr>u_dir := s\<rparr>) = Inr (u\<lparr>u_dir := s, iPred := i\<rparr>)" "\<And>p. i = Some p \<Longrightarrow> si_ok n p" "i = None \<longleftrightarrow> iPred u = None"
    proof (cases "iPred u")
      case None
      then show ?thesis by (intro that [of None]) (simp_all add: on_iPred_def)
    next
      case (Some p)
      then have ok: "si_ok n p" and "ph_indirectHistory h \<noteq> None" using Cons.prems(4,5) by auto
      then obtain g where g: "ph_indirectHistory h = Some g" by blast
      have "tid < length (threadInfo p)" using ok Cons.prems(3) by (simp add: si_ok_def)
      then show ?thesis using Some g ok
        by (intro that [of "Some (p\<lparr>threadInfo := (threadInfo p)[tid := commit_thread (pathLength p) done (threadInfo p ! tid)]\<rparr>)"])
          (auto simp: on_iPred_def si_commit_def upd_thread_eq si_ok_def)
    qed
    have "\<exists>u1. commit_loop D done tid hs (u\<lparr>u_dir := s, iPred := i\<rparr>) = Inr (dropWhile (\<lambda>h. ph_seqNum h \<le> done) hs, u1) \<and> ok (u_dir u1) \<and>
        threads (u_dir u1) = n \<and> (\<forall>p. iPred u1 = Some p \<longrightarrow> si_ok n p) \<and> (iPred u1 = None \<longleftrightarrow> iPred u = None) \<and>
        predHist u1 = predHist u \<and> u_BTB u1 = u_BTB u \<and> u_RAS u1 = u_RAS u"
      using Cons.IH [of "u\<lparr>u_dir := s, iPred := i\<rparr>"] s i(2,3) Cons.prems(3,5) by simp
    then show ?thesis using True s(1) i(1) by simp
  next
    case False
    then show ?thesis using Cons.prems by simp
  qed
qed simp

lemma update_commits:
  assumes u: "unit_ok ok threads n u" "tid < n"
  shows "\<exists>u1. unit_update D done tid u = Inr u1 \<and> unit_ok ok threads n u1 \<and>
    predHist u1 = (predHist u)[tid := rev (dropWhile (\<lambda>h. ph_seqNum h \<le> done) (rev (predHist u ! tid)))] \<and>
    u_BTB u1 = u_BTB u \<and> u_RAS u1 = u_RAS u"
proof -
  note o = unit_okD [OF u]
  have "\<forall>h \<in> set (rev (predHist u ! tid)). iPred u \<noteq> None \<longrightarrow> ph_indirectHistory h \<noteq> None" using o(8) by (auto simp: hist_ok_def)
  from commit_loop_total [OF o(1,2) u(2) o(7) this, of "done"]
  obtain u1 where u1: "commit_loop D done tid (rev (predHist u ! tid)) u = Inr (dropWhile (\<lambda>h. ph_seqNum h \<le> done) (rev (predHist u ! tid)), u1)"
    "ok (u_dir u1)" "threads (u_dir u1) = n" "\<forall>p. iPred u1 = Some p \<longrightarrow> si_ok n p" "iPred u1 = None \<longleftrightarrow> iPred u = None"
    "predHist u1 = predHist u" "u_BTB u1 = u_BTB u" "u_RAS u1 = u_RAS u" by auto
  let ?left = "rev (dropWhile (\<lambda>h. ph_seqNum h \<le> done) (rev (predHist u ! tid)))"
  let ?u = "u1\<lparr>predHist := (predHist u)[tid := ?left]\<rparr>"
  have sub: "set ?left \<subseteq> set (predHist u ! tid)" using set_dropWhileD by fastforce
  have "hist_ok (u_RAS u ! k) (iPred u1 \<noteq> None) x" if "k < n" "x \<in> set ((predHist u)[tid := ?left] ! k)" for k x
    using that u(1) u1(5) sub by (cases "k = tid") (auto simp: unit_ok_def)
  then have "unit_ok ok threads n ?u" using u(1) u1 unfolding unit_ok_def by simp
  moreover have "unit_update D done tid u = Inr ?u" using o(3) u1(1,6) by (simp add: unit_update_def)
  ultimately show ?thesis using u1(7,8) by simp
qed

end

subsection \<open>Properties\<close>

lemma local_jumps: "jumps_undoable local_ops local_ok (\<lambda>_. n) (=)"
  by (simp add: jumps_undoable_def undoable_def local_ops_def)

lemma bimode_jumps: "jumps_undoable bimode_ops bimode_ok bimode_threads (=)"
  unfolding jumps_undoable_def
proof (intro allI impI)
  fix s tid a h s1 s2
  assume s: "bimode_ok s" "d_uncondBranch bimode_ops tid a s = Inr (h, s1)" "d_btbUpdate bimode_ops tid a h s1 = Inr s2"
  then have l: "bimode_uncondBranch tid a s = Inr (h, s1)" "bimode_btbUpdate tid a h s1 = Inr s2" by (simp_all add: bimode_ops_def)
  note tid = bimode_tid(2) [OF l(1)]
  have t: "tid < length (b_globalHistoryReg s)" using tid by (simp add: bimode_threads_def)
  have "bimode_squash tid h s2 = Inr s"
    using l t by (auto simp: bimode_uncondBranch_def bimode_updateGlobalHistReg_def bimode_btbUpdate_def bimode_squash_def)
  moreover have "bimode_threads s2 = bimode_threads s"
    using l by (auto simp: bimode_uncondBranch_def bimode_updateGlobalHistReg_def bimode_btbUpdate_def bimode_threads_def)
  ultimately show "undoable bimode_ops bimode_ok bimode_threads (=) tid h s s2"
    using s(1) by (simp add: undoable_def bimode_ops_def)
qed

text \<open>Small units for the witnesses: one thread, four entries in the buffer and the stack, no indirect predictor,
  program counters that are numbers.\<close>

definition demo_isa :: "(nat, StaticInst) isa" where
  "demo_isa = \<lparr>pc_at = unat, instAddr = of_nat, buildRetPC = (\<lambda>p r. r), advancePC = (\<lambda>p i. p + 4)\<rparr>"

definition demo_call :: StaticInst where
  "demo_call = \<lparr>isCall = True, isReturn = False, isDirectCtrl = True, isUncondCtrl = True\<rparr>"

definition demo_return :: StaticInst where
  "demo_return = \<lparr>isCall = False, isReturn = True, isDirectCtrl = False, isUncondCtrl = True\<rparr>"

definition demo_entry :: "nat BTBEntry" where
  "demo_entry = \<lparr>e_tag = 0, e_target = 0, e_tid = None, e_valid = False\<rparr>"

definition demo_counter :: SatCounter where
  "demo_counter = \<lparr>initialVal = 0, maxVal = 3, counter = 0\<rparr>"

definition corrected_demo :: "(nat, unit, LocalBP, StaticInst) BPredUnit" where
  "corrected_demo = \<lparr>u_dir = \<lparr>l_size = 8, l_ctrBits = 2, l_sets = 4, l_ctrs = replicate 4 demo_counter, l_indexMask = 3, l_shift = 0\<rparr>,
     predHist = [[]],
     u_BTB = \<lparr>btb_vec = replicate 4 demo_entry, btb_numEntries = 4, btb_idxMask = 3, btb_tagBits = 16, btb_tagMask = 0xFFFF,
       btb_instShiftAmt = 2, btb_tagShiftAmt = 4, btb_log2NumThreads = 0\<rparr>,
     u_RAS = [\<lparr>addrStack = [10, 20, 30, 40], ras_numEntries = 4, usedEntries = 3, tos = 2\<rparr>], iPred = None, u_stats = no_stats\<rparr>"

lemma not_isl: "\<not> isl x \<Longrightarrow> \<exists>y. x = Inr y"
  by (cases x) auto

lemma demo_unit:
  assumes "ok (d :: 's)" "threads d = 1"
  shows "\<exists>u :: (nat, 'h, 's, StaticInst) BPredUnit. new_BPredUnit demo_isa 1 4 16 2 4 None d = Inr u \<and> unit_ok ok threads 1 u \<and>
    predHist u = [[]] \<and> iPred u = None \<and> ras_numEntries (u_RAS u ! 0) = 4"
proof -
  have "\<not> isl (new_DefaultBTB demo_isa 4 16 2 1)" by code_simp
  then obtain b where "new_DefaultBTB demo_isa 4 16 2 1 = Inr b" using not_isl by blast
  then obtain u :: "(nat, 'h, 's, StaticInst) BPredUnit" where u: "new_BPredUnit demo_isa 1 4 16 2 4 None d = Inr u"
    by (simp add: new_BPredUnit_def)
  have "unit_ok ok threads 1 u" by (rule new_unit_ok [OF u]) (use assms in simp_all)
  moreover have "predHist u = [[]]" "iPred u = None" "ras_numEntries (u_RAS u ! 0) = 4"
    using u by (auto simp: new_BPredUnit_def ras_init_def ras_reset_def)
  ultimately show ?thesis using u by blast
qed

lemma demo_tour: "\<exists>d. new_TournamentBP 1 2 2 2 2 2 2 2 0 = Inr d \<and> tour_ok d \<and> tour_threads d = 1"
proof -
  have "\<not> isl (new_TournamentBP 1 2 2 2 2 2 2 2 0)" by code_simp
  then show ?thesis using not_isl new_TournamentBP_ok by blast
qed

lemma demo_bimode: "\<exists>d. new_BiModeBP 1 2 2 2 2 0 = Inr d \<and> bimode_ok d \<and> bimode_threads d = 1"
proof -
  have "\<not> isl (new_BiModeBP 1 2 2 2 2 0)" by code_simp
  then show ?thesis using not_isl new_BiModeBP_ok by blast
qed

text \<open>C21: The unit with the tournament predictor never fails: from every good state, for every instruction and
  thread, a prediction is made (no assertion of the predictor, the target buffer or the indirect predictor
  fails, and no table is indexed out of range) and leaves the unit in a good state.\<close>

theorem predict_never_fails:
  fixes I :: "('pc, 'x StaticInst_scheme) isa"
  assumes "unit_ok tour_ok tour_threads n u" "tid < n"
  shows "\<exists>taken target u1. predict tournament_ops I inst sn pc tid u = Inr (taken, target, u1) \<and>
    unit_ok tour_ok tour_threads n u1"
  using tour_bp.predict_step [OF assms] by blast

theorem predict_never_fails_witness:
  "\<exists>d u taken target u1. new_TournamentBP 1 2 2 2 2 2 2 2 0 = Inr d \<and> new_BPredUnit demo_isa 1 4 16 2 4 None d = Inr u \<and>
    predict tournament_ops demo_isa demo_call 5 64 0 u = Inr (taken, target, u1)"
proof -
  obtain d where d: "new_TournamentBP 1 2 2 2 2 2 2 2 0 = Inr d" "tour_ok d" "tour_threads d = 1" using demo_tour by blast
  obtain u :: "(nat, TournamentHistory, TournamentBP, StaticInst) BPredUnit"
    where u: "new_BPredUnit demo_isa 1 4 16 2 4 None d = Inr u" "unit_ok tour_ok tour_threads 1 u"
    using demo_unit [of tour_ok d tour_threads] d by blast
  from predict_never_fails [OF u(2), of 0 demo_isa demo_call 5 64] d(1) u(1) show ?thesis by auto
qed



text \<open>C20: With the tournament predictor the same holds, up to bits of the local histories that are never read, for
  sequences without unconditional jumps that are neither calls nor returns.\<close>

theorem squash_undoes_tournament:
  fixes I :: "('pc, 'x StaticInst_scheme) isa"
  assumes "unit_ok tour_ok tour_threads n u" "tid < n" "\<forall>(inst, sn1, pc) \<in> set xs. sn < sn1" "\<forall>(inst, sn1, pc) \<in> set xs. \<not> plain_jump inst"
    and "m + calls xs \<le> unat (ras_numEntries (u_RAS u ! tid))" "\<forall>h \<in> set (predHist u ! tid). ph_seqNum h \<le> sn"
    and "\<And>p. iPred u = Some p \<Longrightarrow> \<forall>e \<in> set (pathHist (threadInfo p ! tid)). h_seqNum e \<le> sn"
  shows "\<exists>u1 u2 R. predicts tournament_ops I tid xs u = Inr u1 \<and> unit_squash tournament_ops sn tid u1 = Inr u2 \<and>
    predHist u2 = predHist u \<and> u_BTB u2 = u_BTB u \<and> iPred u2 = iPred u \<and> tour_sim (u_dir u2) (u_dir u) \<and>
    u_RAS u2 = (u_RAS u)[tid := R] \<and> ras_agree m R (u_RAS u ! tid)"
  using tour_bp.squash_undoes [OF assms(1-3) _ assms(5-7), of I] assms(4) by blast

theorem squash_undoes_tournament_witness:
  "\<exists>d u u1 u2. new_TournamentBP 1 2 2 2 2 2 2 2 0 = Inr d \<and> new_BPredUnit demo_isa 1 4 16 2 4 None d = Inr u \<and>
    predicts tournament_ops demo_isa 0 [(demo_call, 5, 64), (demo_return, 6, 128)] u = Inr u1 \<and> unit_squash tournament_ops 4 0 u1 = Inr u2 \<and>
    tour_sim (u_dir u2) (u_dir u)"
proof -
  obtain d where d: "new_TournamentBP 1 2 2 2 2 2 2 2 0 = Inr d" "tour_ok d" "tour_threads d = 1" using demo_tour by blast
  obtain u :: "(nat, TournamentHistory, TournamentBP, StaticInst) BPredUnit"
    where u: "new_BPredUnit demo_isa 1 4 16 2 4 None d = Inr u" "unit_ok tour_ok tour_threads 1 u" "predHist u = [[]]" "iPred u = None"
      "ras_numEntries (u_RAS u ! 0) = 4"
    using demo_unit [of tour_ok d tour_threads] d by blast
  from squash_undoes_tournament [OF u(2), of 0 "[(demo_call, 5, 64), (demo_return, 6, 128)]" 4 0 demo_isa] d(1) u
  show ?thesis by (auto simp: calls_def demo_call_def demo_return_def plain_jump_def)
qed

text \<open>Committing removes exactly the outstanding predictions, oldest first, up to the first that is younger than the
  committed sequence number, and keeps the target buffer and the return address stacks; it never fails.\<close>

theorem commit_removes_oldest:
  assumes "unit_ok bimode_ok bimode_threads n u" "tid < n"
  shows "\<exists>u1. unit_update bimode_ops sn tid u = Inr u1 \<and> unit_ok bimode_ok bimode_threads n u1 \<and>
    predHist u1 = (predHist u)[tid := rev (dropWhile (\<lambda>h. ph_seqNum h \<le> sn) (rev (predHist u ! tid)))] \<and>
    u_BTB u1 = u_BTB u \<and> u_RAS u1 = u_RAS u"
  by (rule bimode_bp.update_commits [OF assms])



end
