(* ===== verification/Replacement.thy ===== *)
theory Replacement
  imports Sat_Counter Branch_Pred
begin

text \<open>
  The cache replacement policies of \<^verbatim>\<open>gem5/src/mem/cache/replacement_policies\<close>: LRU, BIP, MRU, FIFO, second chance, LFU,
  weighted LRU, random, BRRIP and tree-PLRU.  A policy is a record of its virtual functions over its
  replacement data; \<^verbatim>\<open>getVictim\<close> returns the position of the victim among the candidates and the data
  of all candidates, which some policies change while they search.  The current tick and the number a
  random draw yields are arguments.  The locale \<open>replacement_policy\<close> states what the cache relies on; it
  is interpreted on the policies that keep it.
\<close>

subsection \<open>The interface\<close>

record 'd repl_ops =
  r_invalidate :: "'d \<Rightarrow> 'd"
  r_touch :: "Tick \<Rightarrow> 'd \<Rightarrow> 'd"
  r_reset :: "Tick \<Rightarrow> nat \<Rightarrow> 'd \<Rightarrow> 'd"
  r_getVictim :: "Tick \<Rightarrow> nat \<Rightarrow> 'd list \<Rightarrow> (nat \<times> 'd list) res"
  r_instantiateEntry :: "'d res"

text \<open>The search loop most policies share: a candidate that is better than the victim so far replaces it.\<close>

fun best :: "('d \<Rightarrow> 'd \<Rightarrow> bool) \<Rightarrow> 'd list \<Rightarrow> nat \<Rightarrow> 'd \<Rightarrow> nat \<Rightarrow> nat" where
  "best better [] i vd v = v"
| "best better (c # cs) i vd v = (if better c vd then best better cs (i + 1) c i else best better cs (i + 1) vd v)"

definition search :: "('d \<Rightarrow> 'd \<Rightarrow> bool) \<Rightarrow> 'd list \<Rightarrow> nat res" where
  "search better ds = require (length ds > 0) (AssertFail ''candidates.size() > 0'') (Inr (best better ds 0 (hd ds) 0))"

subsection \<open>LRU and BIP\<close>

record LRUReplData =
  lastTouchTick :: Tick

definition lru_invalidate :: "LRUReplData \<Rightarrow> LRUReplData" where
  "lru_invalidate d = d\<lparr>lastTouchTick := 0\<rparr>"

definition lru_touch :: "Tick \<Rightarrow> LRUReplData \<Rightarrow> LRUReplData" where
  "lru_touch now d = d\<lparr>lastTouchTick := now\<rparr>"

definition lru_reset :: "Tick \<Rightarrow> LRUReplData \<Rightarrow> LRUReplData" where
  "lru_reset now d = d\<lparr>lastTouchTick := now\<rparr>"

definition lru_getVictim :: "LRUReplData list \<Rightarrow> nat res" where
  "lru_getVictim ds = search (\<lambda>c v. lastTouchTick c < lastTouchTick v) ds"

definition lru_ops :: "LRUReplData repl_ops" where
  "lru_ops = \<lparr>r_invalidate = lru_invalidate, r_touch = lru_touch, r_reset = (\<lambda>now k. lru_reset now),
     r_getVictim = (\<lambda>now k ds. rbind (lru_getVictim ds) (\<lambda>v. Inr (v, ds))), r_instantiateEntry = Inr \<lparr>lastTouchTick = 0\<rparr>\<rparr>"

definition bip_reset :: "nat \<Rightarrow> Tick \<Rightarrow> nat \<Rightarrow> LRUReplData \<Rightarrow> LRUReplData" where
  "bip_reset btp now k d = (if k \<le> btp then d\<lparr>lastTouchTick := now\<rparr> else d\<lparr>lastTouchTick := 1\<rparr>)"

definition bip_ops :: "nat \<Rightarrow> LRUReplData repl_ops" where
  "bip_ops btp = lru_ops\<lparr>r_reset := bip_reset btp\<rparr>"

subsection \<open>MRU\<close>

record MRUReplData =
  m_lastTouchTick :: Tick

fun mru_search :: "MRUReplData list \<Rightarrow> nat \<Rightarrow> MRUReplData \<Rightarrow> nat \<Rightarrow> nat" where
  "mru_search [] i vd v = v"
| "mru_search (c # cs) i vd v =
     (if m_lastTouchTick c = 0 then i
      else if m_lastTouchTick c > m_lastTouchTick vd then mru_search cs (i + 1) c i
      else mru_search cs (i + 1) vd v)"

definition mru_getVictim :: "MRUReplData list \<Rightarrow> nat res" where
  "mru_getVictim ds = require (length ds > 0) (AssertFail ''candidates.size() > 0'') (Inr (mru_search ds 0 (hd ds) 0))"

definition mru_ops :: "MRUReplData repl_ops" where
  "mru_ops = \<lparr>r_invalidate = (\<lambda>d. d\<lparr>m_lastTouchTick := 0\<rparr>), r_touch = (\<lambda>now d. d\<lparr>m_lastTouchTick := now\<rparr>),
     r_reset = (\<lambda>now k d. d\<lparr>m_lastTouchTick := now\<rparr>),
     r_getVictim = (\<lambda>now k ds. rbind (mru_getVictim ds) (\<lambda>v. Inr (v, ds))), r_instantiateEntry = Inr \<lparr>m_lastTouchTick = 0\<rparr>\<rparr>"

subsection \<open>FIFO and second chance\<close>

record FIFOReplData =
  tickInserted :: Tick

record SecondChanceReplData = FIFOReplData +
  hasSecondChance :: bool

definition fifo_invalidate :: "'x FIFOReplData_scheme \<Rightarrow> 'x FIFOReplData_scheme" where
  "fifo_invalidate d = d\<lparr>tickInserted := 0\<rparr>"

definition fifo_touch :: "'x FIFOReplData_scheme \<Rightarrow> 'x FIFOReplData_scheme" where
  "fifo_touch d = d"

definition fifo_reset :: "Tick \<Rightarrow> 'x FIFOReplData_scheme \<Rightarrow> 'x FIFOReplData_scheme" where
  "fifo_reset now d = d\<lparr>tickInserted := now\<rparr>"

definition fifo_getVictim :: "'x FIFOReplData_scheme list \<Rightarrow> nat res" where
  "fifo_getVictim ds = search (\<lambda>c v. tickInserted c < tickInserted v) ds"

definition fifo_ops :: "FIFOReplData repl_ops" where
  "fifo_ops = \<lparr>r_invalidate = fifo_invalidate, r_touch = (\<lambda>now. fifo_touch), r_reset = (\<lambda>now k. fifo_reset now),
     r_getVictim = (\<lambda>now k ds. rbind (fifo_getVictim ds) (\<lambda>v. Inr (v, ds))), r_instantiateEntry = Inr \<lparr>tickInserted = 0\<rparr>\<rparr>"

definition useSecondChance :: "Tick \<Rightarrow> SecondChanceReplData \<Rightarrow> SecondChanceReplData" where
  "useSecondChance now d = (fifo_reset now d)\<lparr>hasSecondChance := False\<rparr>"

definition sc_invalidate :: "SecondChanceReplData \<Rightarrow> SecondChanceReplData" where
  "sc_invalidate d = (fifo_invalidate d)\<lparr>hasSecondChance := False\<rparr>"

definition sc_touch :: "SecondChanceReplData \<Rightarrow> SecondChanceReplData" where
  "sc_touch d = (fifo_touch d)\<lparr>hasSecondChance := True\<rparr>"

definition sc_insert :: "Tick \<Rightarrow> SecondChanceReplData \<Rightarrow> SecondChanceReplData" where
  "sc_insert now d = (fifo_reset now d)\<lparr>hasSecondChance := False\<rparr>"

text \<open>The position of the first candidate with a property.\<close>

fun first_pos :: "('d \<Rightarrow> bool) \<Rightarrow> 'd list \<Rightarrow> nat \<Rightarrow> nat option" where
  "first_pos p [] i = None"
| "first_pos p (c # cs) i = (if p c then Some i else first_pos p cs (i + 1))"

partial_function (option) sc_search :: "Tick \<Rightarrow> SecondChanceReplData list \<Rightarrow> (nat \<times> SecondChanceReplData list) res option" where
  "sc_search now ds =
     (case fifo_getVictim ds of
        Inl e \<Rightarrow> Some (Inl e)
      | Inr v \<Rightarrow> if hasSecondChance (ds ! v) then sc_search now (ds[v := useSecondChance now (ds ! v)]) else Some (Inr (v, ds)))"

declare sc_search.simps [code]

definition sc_getVictim :: "Tick \<Rightarrow> SecondChanceReplData list \<Rightarrow> (nat \<times> SecondChanceReplData list) res" where
  "sc_getVictim now ds =
     require (length ds > 0) (AssertFail ''candidates.size() > 0'')
     (case first_pos (\<lambda>c. tickInserted c = 0 \<and> \<not> hasSecondChance c) ds 0 of
        Some v \<Rightarrow> Inr (v, ds)
      | None \<Rightarrow> rbind (of_loop (sc_search now ds)) (\<lambda>r. r))"

definition sc_ops :: "SecondChanceReplData repl_ops" where
  "sc_ops = \<lparr>r_invalidate = sc_invalidate, r_touch = (\<lambda>now. sc_touch), r_reset = (\<lambda>now k. sc_insert now),
     r_getVictim = (\<lambda>now k ds. sc_getVictim now ds), r_instantiateEntry = Inr \<lparr>tickInserted = 0, hasSecondChance = False\<rparr>\<rparr>"

subsection \<open>LFU, weighted LRU and random\<close>

record LFUReplData =
  refCount :: u32

definition lfu_getVictim :: "LFUReplData list \<Rightarrow> nat res" where
  "lfu_getVictim ds = search (\<lambda>c v. refCount c < refCount v) ds"

definition lfu_ops :: "LFUReplData repl_ops" where
  "lfu_ops = \<lparr>r_invalidate = (\<lambda>d. d\<lparr>refCount := 0\<rparr>), r_touch = (\<lambda>now d. d\<lparr>refCount := refCount d + 1\<rparr>),
     r_reset = (\<lambda>now k d. d\<lparr>refCount := 1\<rparr>),
     r_getVictim = (\<lambda>now k ds. rbind (lfu_getVictim ds) (\<lambda>v. Inr (v, ds))), r_instantiateEntry = Inr \<lparr>refCount = 0\<rparr>\<rparr>"

record WeightedLRUReplData =
  last_occ_ptr :: int
  last_touch_tick :: Tick

definition wlru_touch_occupancy :: "Tick \<Rightarrow> int \<Rightarrow> WeightedLRUReplData \<Rightarrow> WeightedLRUReplData" where
  "wlru_touch_occupancy now occupancy d = d\<lparr>last_touch_tick := now, last_occ_ptr := occupancy\<rparr>"

definition wlru_better :: "WeightedLRUReplData \<Rightarrow> WeightedLRUReplData \<Rightarrow> bool" where
  "wlru_better c v \<longleftrightarrow>
     (if last_occ_ptr c < last_occ_ptr v then True
      else if last_occ_ptr c = last_occ_ptr v then last_touch_tick c < last_touch_tick v else False)"

definition wlru_getVictim :: "WeightedLRUReplData list \<Rightarrow> nat res" where
  "wlru_getVictim ds = search wlru_better ds"

definition wlru_ops :: "WeightedLRUReplData repl_ops" where
  "wlru_ops = \<lparr>r_invalidate = (\<lambda>d. d\<lparr>last_touch_tick := 0\<rparr>), r_touch = (\<lambda>now d. d\<lparr>last_touch_tick := now\<rparr>),
     r_reset = (\<lambda>now k d. d\<lparr>last_touch_tick := now\<rparr>),
     r_getVictim = (\<lambda>now k ds. rbind (wlru_getVictim ds) (\<lambda>v. Inr (v, ds))),
     r_instantiateEntry = Inr \<lparr>last_occ_ptr = 0, last_touch_tick = 0\<rparr>\<rparr>"

record RandomReplData =
  rnd_valid :: bool

definition random_getVictim :: "nat \<Rightarrow> RandomReplData list \<Rightarrow> nat res" where
  "random_getVictim k ds =
     require (length ds > 0) (AssertFail ''candidates.size() > 0'')
     (Inr (case first_pos (\<lambda>c. \<not> rnd_valid c) ds 0 of Some v \<Rightarrow> v | None \<Rightarrow> k))"

definition random_ops :: "RandomReplData repl_ops" where
  "random_ops = \<lparr>r_invalidate = (\<lambda>d. d\<lparr>rnd_valid := False\<rparr>), r_touch = (\<lambda>now d. d), r_reset = (\<lambda>now k d. d\<lparr>rnd_valid := True\<rparr>),
     r_getVictim = (\<lambda>now k ds. rbind (random_getVictim k ds) (\<lambda>v. Inr (v, ds))), r_instantiateEntry = Inr \<lparr>rnd_valid = False\<rparr>\<rparr>"

subsection \<open>BRRIP\<close>

record BRRIPReplData =
  rrpv :: SatCounter
  br_valid :: bool

record BRRIPRP =
  numRRPVBits :: nat
  hitPriority :: bool
  btp :: nat

definition new_BRRIPRP :: "nat \<Rightarrow> bool \<Rightarrow> nat \<Rightarrow> BRRIPRP res" where
  "new_BRRIPRP n hp b = require (\<not> n \<le> 0) (Fatal ''There should be at least one bit per RRPV.'')
     (Inr \<lparr>numRRPVBits = n, hitPriority = hp, btp = b\<rparr>)"

definition brrip_invalidate :: "BRRIPReplData \<Rightarrow> BRRIPReplData" where
  "brrip_invalidate d = d\<lparr>br_valid := False\<rparr>"

definition brrip_touch :: "BRRIPRP \<Rightarrow> BRRIPReplData \<Rightarrow> BRRIPReplData" where
  "brrip_touch p d = (if hitPriority p then d\<lparr>rrpv := sc_reset (rrpv d)\<rparr> else d\<lparr>rrpv := decr (rrpv d)\<rparr>)"

definition brrip_reset :: "BRRIPRP \<Rightarrow> nat \<Rightarrow> BRRIPReplData \<Rightarrow> BRRIPReplData" where
  "brrip_reset p k d =
     (let r = snd (saturate (rrpv d)) in d\<lparr>rrpv := (if k \<le> btp p then decr r else r), br_valid := True\<rparr>)"

text \<open>The search returns at an invalid candidate; otherwise the values of all candidates are raised by the distance of
  the victim's from the maximum.\<close>

fun brrip_search :: "BRRIPReplData list \<Rightarrow> nat \<Rightarrow> u8 \<Rightarrow> nat \<Rightarrow> nat + nat" where
  "brrip_search [] i vr v = Inr v"
| "brrip_search (c # cs) i vr v =
     (if \<not> br_valid c then Inl i
      else if counter (rrpv c) > vr then brrip_search cs (i + 1) (counter (rrpv c)) i
      else brrip_search cs (i + 1) vr v)"

definition brrip_age :: "nat \<Rightarrow> BRRIPReplData list \<Rightarrow> BRRIPReplData list" where
  "brrip_age v ds =
     (let sat = saturate (rrpv (ds ! v)); diff = uint (fst sat); ds1 = ds[v := (ds ! v)\<lparr>rrpv := snd sat\<rparr>] in
      if diff > 0 then map (\<lambda>c. c\<lparr>rrpv := add_assign diff (rrpv c)\<rparr>) ds1 else ds1)"

definition brrip_getVictim :: "BRRIPReplData list \<Rightarrow> (nat \<times> BRRIPReplData list) res" where
  "brrip_getVictim ds =
     require (length ds > 0) (AssertFail ''candidates.size() > 0'')
     (case brrip_search ds 0 (counter (rrpv (hd ds))) 0 of
        Inl v \<Rightarrow> Inr (v, ds)
      | Inr v \<Rightarrow> Inr (v, brrip_age v ds))"

definition brrip_ops :: "BRRIPRP \<Rightarrow> BRRIPReplData repl_ops" where
  "brrip_ops p = \<lparr>r_invalidate = brrip_invalidate, r_touch = (\<lambda>now. brrip_touch p), r_reset = (\<lambda>now. brrip_reset p),
     r_getVictim = (\<lambda>now k. brrip_getVictim),
     r_instantiateEntry = rbind (new_SatCounter (numRRPVBits p) 0) (\<lambda>c. Inr \<lparr>rrpv = c, br_valid = False\<rparr>)\<rparr>"

subsection \<open>Tree-PLRU\<close>

text \<open>Nodes and leaves are numbered breadth first.  The index of the parent of the root wraps around; it is larger than
  any tree.\<close>

definition parentIndex :: "nat \<Rightarrow> nat" where
  "parentIndex i = (if i = 0 then 2 ^ 63 - 1 else (i - 1) div 2)"

definition leftSubtreeIndex :: "nat \<Rightarrow> nat" where
  "leftSubtreeIndex i = 2 * i + 1"

definition rightSubtreeIndex :: "nat \<Rightarrow> nat" where
  "rightSubtreeIndex i = 2 * i + 2"

definition isRightSubtree :: "nat \<Rightarrow> bool" where
  "isRightSubtree i \<longleftrightarrow> i mod 2 = 0"

text \<open>The trees are shared by the entries of a set: the policy keeps them, and an entry has the number of its tree.\<close>

record TreePLRUReplData =
  pl_index :: nat
  pl_tree :: nat

record TreePLRURP =
  numLeaves :: nat
  plru_count :: nat
  trees :: "bool list list"

definition new_TreePLRURP :: "nat \<Rightarrow> TreePLRURP res" where
  "new_TreePLRURP n = require (isPowerOf2 (of_nat n)) (Fatal ''Number of leaves must be non-zero and a power of 2'')
     (Inr \<lparr>numLeaves = n, plru_count = 0, trees = []\<rparr>)"

text \<open>The loop of \<^verbatim>\<open>invalidate\<close> and \<^verbatim>\<open>touch\<close>: every node on the way to the root is pointed towards the leaf or away
  from it.\<close>

function plru_mark :: "bool \<Rightarrow> bool list \<Rightarrow> nat \<Rightarrow> bool list res" where
  "plru_mark away tree i =
     (let right = isRightSubtree i; p = parentIndex i in
      if p < length tree
      then let tree1 = tree[p := (if away then \<not> right else right)] in
           if p \<noteq> 0 then plru_mark away tree1 p else Inr tree1
      else Inl (Thrown ''out_of_range''))"
  by pat_completeness auto

termination
proof (relation "measure (\<lambda>(away, tree, i). if i = 0 then 2 ^ 63 else i)")
  fix away :: bool and tree :: "bool list" and i :: nat and right p tree1
  assume "p = parentIndex i" "p \<noteq> 0"
  moreover have "(i - 1) div 2 < i" if "i \<noteq> 0" using that by linarith
  ultimately show "((away, tree1, p), away, tree, i) \<in> measure (\<lambda>(away, tree, i). if i = 0 then 2 ^ 63 else i)"
    by (cases "i = 0") (auto simp: parentIndex_def)
qed simp

definition on_tree :: "(bool list \<Rightarrow> bool list res) \<Rightarrow> nat \<Rightarrow> TreePLRURP \<Rightarrow> TreePLRURP res" where
  "on_tree f t p = rbind (vec_at (trees p) t) (\<lambda>tree. rbind (f tree) (\<lambda>tree1. Inr (p\<lparr>trees := (trees p)[t := tree1]\<rparr>)))"

definition plru_invalidate :: "TreePLRUReplData \<Rightarrow> TreePLRURP \<Rightarrow> TreePLRURP res" where
  "plru_invalidate d p = on_tree (\<lambda>tree. plru_mark False tree (pl_index d)) (pl_tree d) p"

definition plru_touch :: "TreePLRUReplData \<Rightarrow> TreePLRURP \<Rightarrow> TreePLRURP res" where
  "plru_touch d p = on_tree (\<lambda>tree. plru_mark True tree (pl_index d)) (pl_tree d) p"

definition plru_reset :: "TreePLRUReplData \<Rightarrow> TreePLRURP \<Rightarrow> TreePLRURP res" where
  "plru_reset d p = plru_touch d p"

function plru_descend :: "bool list \<Rightarrow> nat \<Rightarrow> nat" where
  "plru_descend tree i =
     (if i < length tree then plru_descend tree (if tree ! i then rightSubtreeIndex i else leftSubtreeIndex i) else i)"
  by pat_completeness auto

termination
  by (relation "measure (\<lambda>(tree, i). length tree - i)") (auto simp: rightSubtreeIndex_def leftSubtreeIndex_def)

definition plru_getVictim :: "TreePLRUReplData list \<Rightarrow> TreePLRURP \<Rightarrow> nat res" where
  "plru_getVictim cs p =
     require (length cs > 0) (AssertFail ''candidates.size() > 0'')
     (rbind (vec_at (trees p) (pl_tree (hd cs))) (\<lambda>tree.
      let v = plru_descend tree 0 - (numLeaves p - 1) in
      require (v < length cs) (Undefined ''vector index'') (Inr v)))"

definition plru_instantiateEntry :: "TreePLRURP \<Rightarrow> TreePLRUReplData \<times> TreePLRURP" where
  "plru_instantiateEntry p =
     (let p1 = (if plru_count p mod numLeaves p = 0 then p\<lparr>trees := trees p @ [replicate (numLeaves p - 1) False]\<rparr> else p) in
      (\<lparr>pl_index = plru_count p1 mod numLeaves p1 + numLeaves p1 - 1, pl_tree = length (trees p1) - 1\<rparr>,
       p1\<lparr>plru_count := plru_count p1 + 1\<rparr>))"

declare plru_mark.simps [simp del] plru_descend.simps [simp del]

subsection \<open>What the cache relies on\<close>

text \<open>\<open>ok\<close> is the invariant of replacement data and \<open>inv\<close> holds of data that is not in use.  Invalid data is
  the first to go.\<close>

locale replacement_policy =
  fixes P :: "'d repl_ops"
    and ok :: "'d \<Rightarrow> bool"
    and inv :: "'d \<Rightarrow> bool"
  assumes entry_inv: "r_instantiateEntry P = Inr d \<Longrightarrow> ok d \<and> inv d"
    and invalidate_inv: "ok d \<Longrightarrow> ok (r_invalidate P d) \<and> inv (r_invalidate P d)"
    and touch_ok: "ok d \<Longrightarrow> ok (r_touch P now d)"
    and reset_ok: "ok d \<Longrightarrow> ok (r_reset P now k d)"
    and victim: "ds \<noteq> [] \<Longrightarrow> \<forall>d \<in> set ds. ok d \<Longrightarrow> k < length ds \<Longrightarrow>
      \<exists>v ds1. r_getVictim P now k ds = Inr (v, ds1) \<and> v < length ds \<and> length ds1 = length ds \<and> (\<forall>d \<in> set ds1. ok d) \<and>
        ((\<exists>d \<in> set ds. inv d) \<longrightarrow> inv (ds ! v))"
begin

lemma invalidated_goes_first:
  assumes "\<forall>d \<in> set ds. ok d" "i < length ds" "k < length ds"
  shows "\<exists>v ds1. r_getVictim P now k (ds[i := r_invalidate P (ds ! i)]) = Inr (v, ds1) \<and> v < length ds \<and>
    inv (ds[i := r_invalidate P (ds ! i)] ! v)"
proof -
  let ?ds = "ds[i := r_invalidate P (ds ! i)]"
  have "ok (ds ! i)" using assms by simp
  then have i: "ok (r_invalidate P (ds ! i))" "inv (r_invalidate P (ds ! i))" using invalidate_inv by blast+
  have "\<forall>d \<in> set ?ds. ok d" using assms(1) i(1) by (auto dest!: set_update_subset_insert [THEN subsetD])
  moreover have "r_invalidate P (ds ! i) \<in> set ?ds" using assms(2) by (rule set_update_memI)
  moreover have "?ds \<noteq> []" using assms(2) by auto
  ultimately show ?thesis using victim [of ?ds k now] i(2) assms(3) by auto
qed

end

subsection \<open>The shared search\<close>

lemma best_spec:
  fixes key :: "'d \<Rightarrow> 'k::linorder"
  assumes better: "\<And>c v. better c v \<longleftrightarrow> key c < key v"
  shows "v < i \<Longrightarrow> i \<le> length ds \<Longrightarrow> \<forall>j<i. key (ds ! v) \<le> key (ds ! j) \<Longrightarrow> \<forall>j<v. key (ds ! v) < key (ds ! j) \<Longrightarrow>
    let r = best better (drop i ds) i (ds ! v) v in
    r < length ds \<and> (\<forall>j<length ds. key (ds ! r) \<le> key (ds ! j)) \<and> (\<forall>j<r. key (ds ! r) < key (ds ! j))"
proof (induction "length ds - i" arbitrary: i v)
  case 0
  then show ?case by (simp add: Let_def)
next
  case (Suc n)
  then have i: "i < length ds" by simp
  then have d: "drop i ds = ds ! i # drop (i + 1) ds" by (simp add: Cons_nth_drop_Suc)
  show ?case
  proof (cases "key (ds ! i) < key (ds ! v)")
    case True
    then have "\<forall>j<i + 1. key (ds ! i) \<le> key (ds ! j)" "\<forall>j<i. key (ds ! i) < key (ds ! j)"
      using Suc.prems(3) by (auto simp: less_Suc_eq intro: less_le_trans dual_order.strict_implies_order)
    then show ?thesis using Suc.hyps(1) [of "i + 1" i] Suc.hyps(2) i True by (simp add: d better)
  next
    case False
    then have "\<forall>j<i + 1. key (ds ! v) \<le> key (ds ! j)" using Suc.prems(3) by (auto simp: less_Suc_eq)
    then show ?thesis using Suc.hyps(1) [of "i + 1" v] Suc.hyps(2) Suc.prems(1,4) i False by (simp add: d better)
  qed
qed

lemma search_least:
  fixes key :: "'d \<Rightarrow> 'k::linorder"
  assumes "\<And>c v. better c v \<longleftrightarrow> key c < key v" "ds \<noteq> []"
  shows "\<exists>r. search better ds = Inr r \<and> r < length ds \<and> (\<forall>j<length ds. key (ds ! r) \<le> key (ds ! j)) \<and> (\<forall>j<r. key (ds ! r) < key (ds ! j))"
proof -
  have ds: "ds = ds ! 0 # drop 1 ds" "hd ds = ds ! 0" "0 < length ds" using assms(2) by (cases ds; simp)+
  have s: "best better ds 0 (hd ds) 0 = best better (drop 1 ds) 1 (ds ! 0) 0"
    by (subst ds(1), subst ds(2)) (simp add: assms(1))
  have "1 \<le> length ds" using ds(3) by linarith
  from best_spec [OF assms(1), of 0 1 ds] this have "let r = best better (drop 1 ds) 1 (ds ! 0) 0 in
    r < length ds \<and> (\<forall>j<length ds. key (ds ! r) \<le> key (ds ! j)) \<and> (\<forall>j<r. key (ds ! r) < key (ds ! j))" by simp
  then show ?thesis using s ds(3) by (simp add: search_def Let_def)
qed

text \<open>A policy that evicts the least by a stamp, with the least possible stamp for invalid data, keeps the contract.\<close>

lemma least_victim:
  fixes key :: "'d \<Rightarrow> 'a::len word"
  assumes "\<And>c v. better c v \<longleftrightarrow> key c < key v" "ds \<noteq> []"
  shows "\<exists>v ds1. rbind (search better ds) (\<lambda>v. Inr (v, ds)) = Inr (v, ds1) \<and> v < length ds \<and> length ds1 = length ds \<and>
    ((\<exists>d \<in> set ds. key d = 0) \<longrightarrow> key (ds ! v) = 0)"
proof -
  obtain r where "search better ds = Inr r" "r < length ds" "\<forall>j<length ds. key (ds ! r) \<le> key (ds ! j)"
    using search_least [of better key ds] assms by blast
  then show ?thesis by (auto simp: in_set_conv_nth) (metis word_le_0_iff)
qed

lemma first_pos_spec:
  "case first_pos p ds i of None \<Rightarrow> \<forall>d \<in> set ds. \<not> p d | Some v \<Rightarrow> i \<le> v \<and> v < i + length ds \<and> p (ds ! (v - i))"
proof (induction ds arbitrary: i)
  case (Cons c cs)
  show ?case using Cons.IH [of "i + 1"] by (auto split: option.splits simp: nth_Cons')
qed simp

lemma mru_search_spec:
  "v < i \<Longrightarrow> i \<le> length ds \<Longrightarrow> \<forall>j<i. m_lastTouchTick (ds ! j) \<noteq> 0 \<Longrightarrow>
    mru_search (drop i ds) i (ds ! v) v < length ds \<and>
    ((\<exists>d \<in> set ds. m_lastTouchTick d = 0) \<longrightarrow> m_lastTouchTick (ds ! mru_search (drop i ds) i (ds ! v) v) = 0)"
proof (induction "length ds - i" arbitrary: i v)
  case 0
  then show ?case by (auto simp: in_set_conv_nth)
next
  case (Suc n)
  then have i: "i < length ds" by simp
  then have d: "drop i ds = ds ! i # drop (i + 1) ds" by (simp add: Cons_nth_drop_Suc)
  show ?case
  proof (cases "m_lastTouchTick (ds ! i) = 0")
    case True
    then show ?thesis using i by (simp add: d)
  next
    case False
    then have "\<forall>j<i + 1. m_lastTouchTick (ds ! j) \<noteq> 0" using Suc.prems(3) by (auto simp: less_Suc_eq)
    then show ?thesis using Suc.hyps(1) [of "i + 1" i] Suc.hyps(1) [of "i + 1" v] Suc.hyps(2) Suc.prems(1) i False by (simp add: d)
  qed
qed

lemma mru_victim:
  assumes "ds \<noteq> []"
  shows "\<exists>v. mru_getVictim ds = Inr v \<and> v < length ds \<and> ((\<exists>d \<in> set ds. m_lastTouchTick d = 0) \<longrightarrow> m_lastTouchTick (ds ! v) = 0)"
proof (cases ds)
  case (Cons c cs)
  show ?thesis
  proof (cases "m_lastTouchTick c = 0")
    case True
    then show ?thesis by (simp add: Cons mru_getVictim_def)
  next
    case False
    then show ?thesis using mru_search_spec [of 0 1 ds] by (simp add: Cons mru_getVictim_def)
  qed
qed (use assms in simp)

subsection \<open>Second chance\<close>

lemma fifo_least:
  assumes "ds \<noteq> []"
  obtains v where "fifo_getVictim ds = Inr v" "v < length ds" "\<forall>j<length ds. tickInserted (ds ! v) \<le> tickInserted (ds ! j)"
  using search_least [of "\<lambda>c v. tickInserted c < tickInserted v" tickInserted ds] assms by (auto simp: fifo_getVictim_def)

lemma use_chance [simp]:
  "hasSecondChance (useSecondChance now d) = False" "tickInserted (useSecondChance now d) = now"
  by (simp_all add: useSecondChance_def fifo_reset_def)

lemma chance_used:
  assumes "v < length ds" "hasSecondChance (ds ! v)"
  shows "length (filter hasSecondChance (ds[v := useSecondChance now (ds ! v)])) < length (filter hasSecondChance ds)"
proof -
  have "filter hasSecondChance ds = filter hasSecondChance (take v ds) @ ds ! v # filter hasSecondChance (drop (Suc v) ds)"
    using assms by (subst id_take_nth_drop [OF assms(1)]) simp
  moreover have "filter hasSecondChance (ds[v := useSecondChance now (ds ! v)]) =
      filter hasSecondChance (take v ds) @ filter hasSecondChance (drop (Suc v) ds)"
    using assms by (subst upd_conv_take_nth_drop [OF assms(1)]) simp
  ultimately show ?thesis by simp
qed

text \<open>The positions \<open>U\<close> had no second chance to begin with; the others without one have just used it.\<close>

lemma sc_search_spec:
  assumes "ds \<noteq> []" "\<forall>j<length ds. \<not> hasSecondChance (ds ! j) \<longrightarrow> j \<in> U \<or> now \<le> tickInserted (ds ! j)"
    and "\<forall>j\<in>U. j < length ds \<and> \<not> hasSecondChance (ds ! j) \<and> tickInserted (ds ! j) < now"
  shows "\<exists>v ds1. sc_search now ds = Some (Inr (v, ds1)) \<and> v < length ds \<and> length ds1 = length ds \<and> \<not> hasSecondChance (ds1 ! v) \<and>
    (U \<noteq> {} \<longrightarrow> v \<in> U \<and> (\<forall>j\<in>U. tickInserted (ds ! v) \<le> tickInserted (ds ! j)))"
  using assms
proof (induction "length (filter hasSecondChance ds)" arbitrary: ds rule: less_induct)
  case less
  obtain v where v: "fifo_getVictim ds = Inr v" "v < length ds" "\<forall>j<length ds. tickInserted (ds ! v) \<le> tickInserted (ds ! j)"
    by (rule fifo_least [OF less.prems(1)])
  show ?case
  proof (cases "hasSecondChance (ds ! v)")
    case False
    have "v \<in> U" if "u \<in> U" for u
    proof (rule ccontr)
      assume "v \<notin> U"
      then have "now \<le> tickInserted (ds ! v)" using less.prems(2) v(2) False by blast
      with v(3) less.prems(3) that show False by (meson leD order_trans)
    qed
    moreover have "sc_search now ds = Some (Inr (v, ds))" using v(1) False by (subst sc_search.simps) simp
    ultimately show ?thesis using v False less.prems(3) by auto
  next
    case True
    let ?ds = "ds[v := useSecondChance now (ds ! v)]"
    have step: "sc_search now ds = sc_search now ?ds" using v(1) True by (subst sc_search.simps) simp
    have "length (filter hasSecondChance ?ds) < length (filter hasSecondChance ds)" by (rule chance_used [OF v(2) True])
    moreover have same: "\<forall>j\<in>U. ?ds ! j = ds ! j" using True less.prems(3) by (metis nth_list_update_neq)
    have "?ds \<noteq> []" using less.prems(1) by simp
    moreover have "\<forall>j<length ?ds. \<not> hasSecondChance (?ds ! j) \<longrightarrow> j \<in> U \<or> now \<le> tickInserted (?ds ! j)"
    proof (intro allI impI)
      fix j
      assume "j < length ?ds" "\<not> hasSecondChance (?ds ! j)"
      then show "j \<in> U \<or> now \<le> tickInserted (?ds ! j)" using less.prems(2) v(2) by (cases "j = v") auto
    qed
    moreover have "\<forall>j\<in>U. j < length ?ds \<and> \<not> hasSecondChance (?ds ! j) \<and> tickInserted (?ds ! j) < now"
      using less.prems(3) same by simp
    ultimately obtain w ds1 where w: "sc_search now ?ds = Some (Inr (w, ds1))" "w < length ?ds" "length ds1 = length ?ds" "\<not> hasSecondChance (ds1 ! w)"
      "U \<noteq> {} \<longrightarrow> w \<in> U \<and> (\<forall>j\<in>U. tickInserted (?ds ! w) \<le> tickInserted (?ds ! j))"
      using less.hyps by blast
    show ?thesis using w step same by auto
  qed
qed

text \<open>Without assumptions on the ticks the loop still ends: every round that goes on takes a second chance away.\<close>

lemma sc_search_total:
  "ds \<noteq> [] \<Longrightarrow> \<exists>v ds1. sc_search now ds = Some (Inr (v, ds1)) \<and> v < length ds \<and> length ds1 = length ds \<and> \<not> hasSecondChance (ds1 ! v)"
proof (induction "length (filter hasSecondChance ds)" arbitrary: ds rule: less_induct)
  case less
  obtain v where v: "fifo_getVictim ds = Inr v" "v < length ds" by (rule fifo_least [OF less.prems])
  show ?case
  proof (cases "hasSecondChance (ds ! v)")
    case False
    then show ?thesis using v by (subst sc_search.simps) simp
  next
    case True
    have "sc_search now ds = sc_search now (ds[v := useSecondChance now (ds ! v)])" using v(1) True by (subst sc_search.simps) simp
    moreover have "ds[v := useSecondChance now (ds ! v)] \<noteq> []" using less.prems by simp
    ultimately show ?thesis using less.hyps [OF chance_used [OF v(2) True]] by simp
  qed
qed

subsection \<open>BRRIP\<close>

lemma brrip_search_spec:
  assumes "v < i" "i \<le> length ds" "\<forall>j<i. br_valid (ds ! j) \<and> counter (rrpv (ds ! j)) \<le> counter (rrpv (ds ! v))"
  shows "case brrip_search (drop i ds) i (counter (rrpv (ds ! v))) v of
      Inl w \<Rightarrow> w < length ds \<and> \<not> br_valid (ds ! w)
    | Inr w \<Rightarrow> w < length ds \<and> (\<forall>j<length ds. br_valid (ds ! j) \<and> counter (rrpv (ds ! j)) \<le> counter (rrpv (ds ! w)))"
  using assms
proof (induction "length ds - i" arbitrary: i v)
  case (Suc n)
  then have i: "i < length ds" by simp
  then have d: "drop i ds = ds ! i # drop (i + 1) ds" by (simp add: Cons_nth_drop_Suc)
  show ?case
  proof (cases "br_valid (ds ! i)")
    case False
    then show ?thesis using i by (simp add: d)
  next
    case True
    show ?thesis
    proof (cases "counter (rrpv (ds ! i)) > counter (rrpv (ds ! v))")
      case gt: True
      then have "\<forall>j<i + 1. br_valid (ds ! j) \<and> counter (rrpv (ds ! j)) \<le> counter (rrpv (ds ! i))"
        using True Suc.prems(3) by (auto simp: less_Suc_eq intro: order_trans less_imp_le)
      then show ?thesis using Suc.hyps(1) [of "i + 1" i] Suc.hyps(2) i gt True by (simp add: d)
    next
      case False
      then have "\<forall>j<i + 1. br_valid (ds ! j) \<and> counter (rrpv (ds ! j)) \<le> counter (rrpv (ds ! v))"
        using True Suc.prems(3) by (auto simp: less_Suc_eq)
      then show ?thesis using Suc.hyps(1) [of "i + 1" v] Suc.hyps(2) Suc.prems(1) i True False by (simp add: d)
    qed
  qed
qed simp

lemma brrip_search_start:
  assumes "ds \<noteq> []"
  shows "case brrip_search ds 0 (counter (rrpv (hd ds))) 0 of
      Inl w \<Rightarrow> w < length ds \<and> \<not> br_valid (ds ! w)
    | Inr w \<Rightarrow> w < length ds \<and> (\<forall>j<length ds. br_valid (ds ! j) \<and> counter (rrpv (ds ! j)) \<le> counter (rrpv (ds ! w)))"
proof (cases ds)
  case (Cons c cs)
  show ?thesis
  proof (cases "br_valid c")
    case True
    then show ?thesis using brrip_search_spec [of 0 1 ds] by (simp add: Cons)
  qed (simp add: Cons)
qed (use assms in simp)

lemma uint_add_assign:
  assumes "sat_ok c" "0 \<le> v"
  shows "uint (counter (add_assign v c)) = min (uint (maxVal c)) (uint (counter c) + v)" "sat_ok (add_assign v c)"
proof -
  show u: "uint (counter (add_assign v c)) = min (uint (maxVal c)) (uint (counter c) + v)"
    using add_pos_value [OF assms] assms(2) by (simp add: add_assign_def)
  then have "uint (counter (add_assign v c)) \<le> uint (maxVal c)" by simp
  then show "sat_ok (add_assign v c)" using assms(1) by (simp add: sat_ok_def word_le_def)
qed

lemma saturate_ok: "sat_ok c \<Longrightarrow> sat_ok (snd (saturate c))"
  by (simp add: saturate_def sat_ok_def)

lemma brrip_age_ok:
  assumes "\<forall>d \<in> set ds. sat_ok (rrpv d)" "v < length ds"
  shows "\<forall>d \<in> set (brrip_age v ds). sat_ok (rrpv d)" "length (brrip_age v ds) = length ds"
proof -
  have "\<forall>d \<in> set (ds[v := (ds ! v)\<lparr>rrpv := snd (saturate (rrpv (ds ! v)))\<rparr>]). sat_ok (rrpv d)"
    using assms saturate_ok by (auto dest!: set_update_subset_insert [THEN subsetD])
  then show "\<forall>d \<in> set (brrip_age v ds). sat_ok (rrpv d)"
    using uint_add_assign(2) by (auto simp: brrip_age_def Let_def)
qed (simp add: brrip_age_def Let_def)

lemma brrip_victim:
  assumes "ds \<noteq> []" "\<forall>d \<in> set ds. sat_ok (rrpv d)"
  shows "\<exists>v ds1. brrip_getVictim ds = Inr (v, ds1) \<and> v < length ds \<and> length ds1 = length ds \<and> (\<forall>d \<in> set ds1. sat_ok (rrpv d)) \<and>
    ((\<exists>d \<in> set ds. \<not> br_valid d) \<longrightarrow> \<not> br_valid (ds ! v))"
proof (cases "brrip_search ds 0 (counter (rrpv (hd ds))) 0")
  case (Inl v)
  then show ?thesis using brrip_search_start [OF assms(1)] assms by (simp add: brrip_getVictim_def)
next
  case (Inr v)
  then have v: "v < length ds" "\<forall>j<length ds. br_valid (ds ! j)" using brrip_search_start [OF assms(1)] by auto
  then show ?thesis using Inr brrip_age_ok [OF assms(2) v(1)] assms(1) by (auto simp: brrip_getVictim_def in_set_conv_nth)
qed

subsection \<open>The policies keep the contract\<close>

interpretation lru_rp: replacement_policy lru_ops "\<lambda>_. True" "\<lambda>d. lastTouchTick d = 0"
proof unfold_locales
  fix ds :: "LRUReplData list" and k now
  assume "ds \<noteq> []"
  then show "\<exists>v ds1. r_getVictim lru_ops now k ds = Inr (v, ds1) \<and> v < length ds \<and> length ds1 = length ds \<and> (\<forall>d\<in>set ds1. True) \<and>
      ((\<exists>d\<in>set ds. lastTouchTick d = 0) \<longrightarrow> lastTouchTick (ds ! v) = 0)"
    using least_victim [of "\<lambda>c v. lastTouchTick c < lastTouchTick v" lastTouchTick ds] by (simp add: lru_ops_def lru_getVictim_def)
qed (auto simp: lru_ops_def lru_invalidate_def)

interpretation bip_rp: replacement_policy "bip_ops b" "\<lambda>_. True" "\<lambda>d. lastTouchTick d = 0" for b
proof unfold_locales
  fix ds :: "LRUReplData list" and k now
  assume "ds \<noteq> []" "k < length ds"
  then show "\<exists>v ds1. r_getVictim (bip_ops b) now k ds = Inr (v, ds1) \<and> v < length ds \<and> length ds1 = length ds \<and> (\<forall>d\<in>set ds1. True) \<and>
      ((\<exists>d\<in>set ds. lastTouchTick d = 0) \<longrightarrow> lastTouchTick (ds ! v) = 0)"
    using lru_rp.victim [of ds k now] by (simp add: bip_ops_def)
qed (auto simp: bip_ops_def lru_ops_def lru_invalidate_def)

interpretation mru_rp: replacement_policy mru_ops "\<lambda>_. True" "\<lambda>d. m_lastTouchTick d = 0"
proof unfold_locales
  fix ds :: "MRUReplData list" and k now
  assume "ds \<noteq> []"
  then show "\<exists>v ds1. r_getVictim mru_ops now k ds = Inr (v, ds1) \<and> v < length ds \<and> length ds1 = length ds \<and> (\<forall>d\<in>set ds1. True) \<and>
      ((\<exists>d\<in>set ds. m_lastTouchTick d = 0) \<longrightarrow> m_lastTouchTick (ds ! v) = 0)"
    using mru_victim [of ds] by (auto simp: mru_ops_def)
qed (auto simp: mru_ops_def)

interpretation fifo_rp: replacement_policy fifo_ops "\<lambda>_. True" "\<lambda>d. tickInserted d = 0"
proof unfold_locales
  fix ds :: "FIFOReplData list" and k now
  assume "ds \<noteq> []"
  then show "\<exists>v ds1. r_getVictim fifo_ops now k ds = Inr (v, ds1) \<and> v < length ds \<and> length ds1 = length ds \<and> (\<forall>d\<in>set ds1. True) \<and>
      ((\<exists>d\<in>set ds. tickInserted d = 0) \<longrightarrow> tickInserted (ds ! v) = 0)"
    using least_victim [of "\<lambda>c v. tickInserted c < tickInserted v" tickInserted ds] by (simp add: fifo_ops_def fifo_getVictim_def)
qed (auto simp: fifo_ops_def fifo_invalidate_def)

interpretation lfu_rp: replacement_policy lfu_ops "\<lambda>_. True" "\<lambda>d. refCount d = 0"
proof unfold_locales
  fix ds :: "LFUReplData list" and k now
  assume "ds \<noteq> []"
  then show "\<exists>v ds1. r_getVictim lfu_ops now k ds = Inr (v, ds1) \<and> v < length ds \<and> length ds1 = length ds \<and> (\<forall>d\<in>set ds1. True) \<and>
      ((\<exists>d\<in>set ds. refCount d = 0) \<longrightarrow> refCount (ds ! v) = 0)"
    using least_victim [of "\<lambda>c v. refCount c < refCount v" refCount ds] by (simp add: lfu_ops_def lfu_getVictim_def)
qed (auto simp: lfu_ops_def)

interpretation random_rp: replacement_policy random_ops "\<lambda>_. True" "\<lambda>d. \<not> rnd_valid d"
proof unfold_locales
  fix ds :: "RandomReplData list" and k now
  assume "ds \<noteq> []" "k < length ds"
  then show "\<exists>v ds1. r_getVictim random_ops now k ds = Inr (v, ds1) \<and> v < length ds \<and> length ds1 = length ds \<and> (\<forall>d\<in>set ds1. True) \<and>
      ((\<exists>d\<in>set ds. \<not> rnd_valid d) \<longrightarrow> \<not> rnd_valid (ds ! v))"
    using first_pos_spec [where p = "\<lambda>c. \<not> rnd_valid c" and ds = ds and i = 0] by (auto simp: random_ops_def random_getVictim_def split: option.splits)
qed (auto simp: random_ops_def)

interpretation brrip_rp: replacement_policy "brrip_ops p" "\<lambda>d. sat_ok (rrpv d)" "\<lambda>d. \<not> br_valid d" for p
proof unfold_locales
  fix ds :: "BRRIPReplData list" and k now
  assume "ds \<noteq> []" "\<forall>d\<in>set ds. sat_ok (rrpv d)"
  then show "\<exists>v ds1. r_getVictim (brrip_ops p) now k ds = Inr (v, ds1) \<and> v < length ds \<and> length ds1 = length ds \<and> (\<forall>d\<in>set ds1. sat_ok (rrpv d)) \<and>
      ((\<exists>d\<in>set ds. \<not> br_valid d) \<longrightarrow> \<not> br_valid (ds ! v))"
    using brrip_victim by (simp add: brrip_ops_def)
next
  fix d :: BRRIPReplData and now k
  assume d: "sat_ok (rrpv d)"
  show "sat_ok (rrpv (r_touch (brrip_ops p) now d))" using d decr_ok by (auto simp: brrip_ops_def brrip_touch_def sc_reset_def sat_ok_def)
  show "sat_ok (rrpv (r_reset (brrip_ops p) now k d))"
    using saturate_ok [OF d] by (auto simp: brrip_ops_def brrip_reset_def Let_def)
qed (auto simp: brrip_ops_def brrip_invalidate_def intro: new_SatCounter_ok)

interpretation sc_rp: replacement_policy sc_ops "\<lambda>_. True" "\<lambda>d. tickInserted d = 0 \<and> \<not> hasSecondChance d"
proof unfold_locales
  fix ds :: "SecondChanceReplData list" and k now
  assume ds: "ds \<noteq> []"
  let ?p = "\<lambda>c :: SecondChanceReplData. tickInserted c = 0 \<and> \<not> hasSecondChance c"
  have e: "r_getVictim sc_ops now k ds = sc_getVictim now ds" by (simp add: sc_ops_def)
  show "\<exists>v ds1. r_getVictim sc_ops now k ds = Inr (v, ds1) \<and> v < length ds \<and> length ds1 = length ds \<and> (\<forall>d\<in>set ds1. True) \<and>
      ((\<exists>d\<in>set ds. ?p d) \<longrightarrow> ?p (ds ! v))"
  proof (cases "first_pos ?p ds 0")
    case None
    then have no: "\<forall>d\<in>set ds. \<not> ?p d" using first_pos_spec [where p = ?p and ds = ds and i = 0] by simp
    obtain v ds1 where "sc_search now ds = Some (Inr (v, ds1))" "v < length ds" "length ds1 = length ds"
      using sc_search_total [OF ds] by blast
    then show ?thesis using None ds no by (auto simp: e sc_getVictim_def)
  next
    case (Some v)
    then show ?thesis using first_pos_spec [where p = ?p and ds = ds and i = 0] ds by (auto simp: e sc_getVictim_def)
  qed
qed (auto simp: sc_ops_def sc_invalidate_def fifo_invalidate_def)

subsection \<open>Tree-PLRU\<close>

text \<open>Every node on the way from the root to \<open>i\<close> points to it.\<close>

function points_to :: "bool list \<Rightarrow> nat \<Rightarrow> bool" where
  "points_to tree i = (if i = 0 then True else tree ! ((i - 1) div 2) = even i \<and> points_to tree ((i - 1) div 2))"
  by pat_completeness auto

termination
  by (relation "measure snd") simp_all

declare points_to.simps [simp del]

lemma parent_less: "i \<noteq> 0 \<Longrightarrow> parentIndex i < i"
  by (simp add: parentIndex_def)

text \<open>The walk to the root changes only nodes above the leaf.\<close>

lemma plru_mark_total:
  assumes "i \<noteq> 0" "parentIndex i < length tree"
  shows "\<exists>tree1. plru_mark away tree i = Inr tree1 \<and> length tree1 = length tree \<and> (\<forall>q\<ge>i. tree1 ! q = tree ! q)"
  using assms
proof (induction i arbitrary: tree rule: less_induct)
  case (less i)
  let ?p = "parentIndex i"
  let ?t = "tree[?p := (if away then \<not> isRightSubtree i else isRightSubtree i)]"
  have p: "?p < i" by (rule parent_less [OF less.prems(1)])
  show ?case
  proof (cases "?p = 0")
    case True
    then show ?thesis using less.prems by (subst plru_mark.simps) (simp add: Let_def)
  next
    case False
    then have "parentIndex ?p < length ?t" using parent_less [OF False] less.prems(2) by simp
    from less.IH [OF p False this] obtain tree1 where t: "plru_mark away ?t ?p = Inr tree1" "length tree1 = length ?t" "\<forall>q\<ge>?p. tree1 ! q = ?t ! q"
      by blast
    have "plru_mark away tree i = Inr tree1" using False less.prems(2) t(1) by (subst plru_mark.simps) (simp add: Let_def)
    moreover have "\<forall>q\<ge>i. tree1 ! q = tree ! q" using t(3) p by simp
    ultimately show ?thesis using t(2) by simp
  qed
qed

lemma plru_mark_points:
  assumes "i \<noteq> 0" "parentIndex i < length tree" "plru_mark away tree i = Inr tree1"
  shows "points_to tree1 i \<longleftrightarrow> \<not> away"
  using assms
proof (induction i arbitrary: tree rule: less_induct)
  case (less i)
  let ?p = "parentIndex i"
  let ?t = "tree[?p := (if away then \<not> isRightSubtree i else isRightSubtree i)]"
  have p: "?p < i" "?p = (i - 1) div 2" using parent_less [OF less.prems(1)] less.prems(1) by (simp_all add: parentIndex_def)
  have e: "isRightSubtree i = even i" by (simp add: isRightSubtree_def even_iff_mod_2_eq_zero)
  show ?case
  proof (cases "?p = 0")
    case True
    then have "tree1 = ?t" using less.prems(2,3) by (subst (asm) plru_mark.simps) (simp add: Let_def)
    then show ?thesis using True less.prems(1,2) p(2) by (subst points_to.simps) (auto simp: e points_to.simps [of _ 0])
  next
    case False
    then have m: "plru_mark away ?t ?p = Inr tree1" using less.prems(2,3) by (subst (asm) plru_mark.simps) (simp add: Let_def)
    have lt: "parentIndex ?p < length ?t" using parent_less [OF False] less.prems(2) by simp
    from plru_mark_total [OF False lt, of away] m have "tree1 ! ?p = ?t ! ?p" by simp
    moreover have "points_to tree1 ?p \<longleftrightarrow> \<not> away" by (rule less.IH [OF p(1) False lt m])
    ultimately show ?thesis using less.prems(1,2) p(2) by (subst points_to.simps) (auto simp: e)
  qed
qed

text \<open>The descent follows the nodes.\<close>

lemma descend_reaches: "points_to tree i \<Longrightarrow> i \<le> 2 * length tree \<Longrightarrow> plru_descend tree 0 = plru_descend tree i"
proof (induction i rule: less_induct)
  case (less i)
  show ?case
  proof (cases "i = 0")
    case False
    let ?p = "(i - 1) div 2"
    have p: "?p < i" "?p < length tree" using False less.prems(2) by linarith+
    have t: "tree ! ?p = even i" "points_to tree ?p" using less.prems(1) False by (subst (asm) points_to.simps; simp)+
    have "plru_descend tree 0 = plru_descend tree ?p" using less.IH [OF p(1) t(2)] p(2) by simp
    also have "\<dots> = plru_descend tree i"
    proof (cases "even i")
      case True
      then have "rightSubtreeIndex ?p = i" using False by (auto simp: rightSubtreeIndex_def elim!: evenE)
      then show ?thesis using p(2) t(1) True by (subst plru_descend.simps) simp
    next
      case odd: False
      then have "leftSubtreeIndex ?p = i" by (auto simp: leftSubtreeIndex_def elim!: oddE)
      then show ?thesis using p(2) t(1) odd by (subst plru_descend.simps) simp
    qed
    finally show ?thesis .
  qed simp
qed

lemma descend_points:
  "points_to tree i \<Longrightarrow> i \<le> 2 * length tree \<Longrightarrow>
    points_to tree (plru_descend tree i) \<and> length tree \<le> plru_descend tree i \<and> plru_descend tree i \<le> 2 * length tree"
proof (induction tree i rule: plru_descend.induct)
  case (1 tree i)
  show ?case
  proof (cases "i < length tree")
    case True
    let ?c = "if tree ! i then rightSubtreeIndex i else leftSubtreeIndex i"
    have c: "?c \<noteq> 0" "(?c - 1) div 2 = i" "even ?c = tree ! i" by (auto simp: rightSubtreeIndex_def leftSubtreeIndex_def)
    have "points_to tree ?c" using 1(2) c by (subst points_to.simps) auto
    moreover have "?c \<le> 2 * length tree" using True by (auto simp: rightSubtreeIndex_def leftSubtreeIndex_def)
    ultimately show ?thesis using 1(1) [OF True] True by (subst (1 2 3) plru_descend.simps) simp
  next
    case False
    then show ?thesis using 1 by (subst (1 2 3) plru_descend.simps) simp
  qed
qed

subsection \<open>Properties\<close>





text \<open>BRRIP evicts a candidate of the largest re-reference value and ages the others by the same amount: when all
  candidates are valid and have counters of the same width, each value grows by the distance of the
  victim's from the maximum, so their order is kept and the victim's value is the maximum.\<close>

theorem brrip_evicts_largest:
  assumes "ds \<noteq> []" "\<forall>d \<in> set ds. sat_ok (rrpv d) \<and> maxVal (rrpv d) = m \<and> br_valid d"
  shows "\<exists>v ds1. brrip_getVictim ds = Inr (v, ds1) \<and> v < length ds \<and> length ds1 = length ds \<and>
    (\<forall>j<length ds. uint (counter (rrpv (ds ! j))) \<le> uint (counter (rrpv (ds ! v))) \<and>
       uint (counter (rrpv (ds1 ! j))) = uint (counter (rrpv (ds ! j))) + (uint m - uint (counter (rrpv (ds ! v)))))"
proof -
  have nth: "sat_ok (rrpv (ds ! j))" "maxVal (rrpv (ds ! j)) = m" "br_valid (ds ! j)" if "j < length ds" for j using assms(2) that by auto
  obtain v where s: "brrip_search ds 0 (counter (rrpv (hd ds))) 0 = Inr v" and v: "v < length ds"
    and le: "\<forall>j<length ds. counter (rrpv (ds ! j)) \<le> counter (rrpv (ds ! v))"
    using brrip_search_start [OF assms(1)] nth(3) by (cases "brrip_search ds 0 (counter (rrpv (hd ds))) 0") auto
  have cm: "uint (counter (rrpv (ds ! v))) \<le> uint m" using nth [OF v] by (simp add: sat_ok_def word_le_def)
  then have d: "uint (fst (saturate (rrpv (ds ! v)))) = uint m - uint (counter (rrpv (ds ! v)))"
    using nth(2) [OF v] by (simp add: saturate_def uint_sub_if')
  have "uint (counter (rrpv (brrip_age v ds ! j))) = uint (counter (rrpv (ds ! j))) + (uint m - uint (counter (rrpv (ds ! v))))"
    if j: "j < length ds" for j
  proof -
    have lej: "uint (counter (rrpv (ds ! j))) \<le> uint (counter (rrpv (ds ! v)))" using le j by (simp add: word_le_def)
    let ?diff = "uint (fst (saturate (rrpv (ds ! v))))"
    let ?c = "rrpv (ds[v := (ds ! v)\<lparr>rrpv := snd (saturate (rrpv (ds ! v)))\<rparr>] ! j)"
    have c: "sat_ok ?c" "maxVal ?c = m" "uint (counter ?c) = (if j = v then uint m else uint (counter (rrpv (ds ! j))))"
      using nth [OF j] nth [OF v] v saturate_ok [of "rrpv (ds ! v)"] by (auto simp: nth_list_update saturate_def)
    show ?thesis
    proof (cases "?diff > 0")
      case True
      then have "counter (rrpv (brrip_age v ds ! j)) = counter (add_assign ?diff ?c)"
        using j by (simp add: brrip_age_def Let_def)
      then show ?thesis using uint_add_assign(1) [OF c(1), of ?diff] c d cm lej True by (auto split: if_splits)
    next
      case False
      then show ?thesis using c(3) d cm j by (auto simp: brrip_age_def Let_def)
    qed
  qed
  then show ?thesis using s v le brrip_age_ok(2) [of ds v] assms
    by (intro exI [of _ v] exI [of _ "brrip_age v ds"]) (auto simp: brrip_getVictim_def word_le_def)
qed



text \<open>C33: Invalidated data goes first: after an entry has been invalidated, LRU, MRU, second chance, random and BRRIP
  all choose an invalid entry.\<close>

theorem invalid_entries_go_first:
  "(i < length ds \<longrightarrow> k < length ds \<longrightarrow> (\<exists>v ds1. r_getVictim lru_ops now k (ds[i := r_invalidate lru_ops (ds ! i)]) = Inr (v, ds1) \<and>
      v < length ds \<and> lastTouchTick (ds[i := r_invalidate lru_ops (ds ! i)] ! v) = 0)) \<and>
   (i < length ms \<longrightarrow> k < length ms \<longrightarrow> (\<exists>v ds1. r_getVictim mru_ops now k (ms[i := r_invalidate mru_ops (ms ! i)]) = Inr (v, ds1) \<and>
      v < length ms \<and> m_lastTouchTick (ms[i := r_invalidate mru_ops (ms ! i)] ! v) = 0)) \<and>
   (i < length ss \<longrightarrow> k < length ss \<longrightarrow> (\<exists>v ds1. r_getVictim sc_ops now k (ss[i := r_invalidate sc_ops (ss ! i)]) = Inr (v, ds1) \<and>
      v < length ss \<and> tickInserted (ss[i := r_invalidate sc_ops (ss ! i)] ! v) = 0 \<and> \<not> hasSecondChance (ss[i := r_invalidate sc_ops (ss ! i)] ! v))) \<and>
   (i < length rs \<longrightarrow> k < length rs \<longrightarrow> (\<exists>v ds1. r_getVictim random_ops now k (rs[i := r_invalidate random_ops (rs ! i)]) = Inr (v, ds1) \<and>
      v < length rs \<and> \<not> rnd_valid (rs[i := r_invalidate random_ops (rs ! i)] ! v))) \<and>
   (i < length bs \<longrightarrow> k < length bs \<longrightarrow> (\<forall>d \<in> set bs. sat_ok (rrpv d)) \<longrightarrow>
      (\<exists>v ds1. r_getVictim (brrip_ops p) now k (bs[i := r_invalidate (brrip_ops p) (bs ! i)]) = Inr (v, ds1) \<and>
      v < length bs \<and> \<not> br_valid (bs[i := r_invalidate (brrip_ops p) (bs ! i)] ! v)))"
  using lru_rp.invalidated_goes_first [of ds i k now] mru_rp.invalidated_goes_first [of ms i k now]
    sc_rp.invalidated_goes_first [of ss i k now] random_rp.invalidated_goes_first [of rs i k now]
    brrip_rp.invalidated_goes_first [of bs i k p now]
  by blast

theorem invalid_entries_go_first_witness:
  "\<exists>v ds1. r_getVictim lru_ops 50 0 [\<lparr>lastTouchTick = 9\<rparr>, \<lparr>lastTouchTick = 0\<rparr>] = Inr (v, ds1) \<and> v < 2"
  using invalid_entries_go_first [of 1 "[\<lparr>lastTouchTick = 9\<rparr>, \<lparr>lastTouchTick = 12\<rparr>]" 0 50 "[]" "[]" "[]" "[]"]
  by (auto simp: lru_ops_def lru_invalidate_def numeral_2_eq_2)

end
