(* ===== verification/Indexing.thy ===== *)
theory Indexing
  imports Branch_Pred "HOL-Library.Signed_Division"
begin

text \<open>
  The cache indexing policies of \<^verbatim>\<open>gem5/src/mem/cache/tags/indexing_policies\<close>: the table of entries of
  \<^verbatim>\<open>BaseIndexingPolicy\<close>, \<^verbatim>\<open>SetAssociative\<close> and \<^verbatim>\<open>SkewedAssociative\<close>.  Entries are numbered, and a pointer to
  an entry is its number.  The locale \<open>indexing_policy\<close> states what a tag store relies on: the entries an address may
  be in, and that its block address is regenerated from its tag and the place of any of them.  For the skewed
  policy this rests on its hash being a step of a linear feedback shift register.
\<close>

unbundle bit_operations_syntax

subsection \<open>The base policy\<close>

record BaseIndexingPolicy =
  ip_assoc :: u32
  ip_numSets :: u32
  ip_setShift :: nat
  ip_setMask :: u32
  ip_sets :: "nat option list list"
  ip_tagShift :: nat

definition new_BaseIndexingPolicy :: "u64 \<Rightarrow> u32 \<Rightarrow> u32 \<Rightarrow> BaseIndexingPolicy res" where
  "new_BaseIndexingPolicy sz entry_size assoc =
     require (entry_size * assoc \<noteq> 0) (Undefined ''division by zero'')
     (require (0 < sint entry_size) (AssertFail ''x > 0'')
     (let numSets = ucast (sz div ucast (entry_size * assoc)) :: u32 in
      rbind (floorLog2 (ucast entry_size)) (\<lambda>shift.
      rbind (floorLog2 (ucast numSets)) (\<lambda>bits.
      require (isPowerOf2 (ucast numSets)) (Fatal ''# of sets must be non-zero and a power of 2'')
      (require (\<not> assoc \<le> 0) (Fatal ''associativity must be greater than zero'')
       (Inr \<lparr>ip_assoc = assoc, ip_numSets = numSets, ip_setShift = shift, ip_setMask = numSets - 1,
             ip_sets = replicate (unat numSets) (replicate (unat assoc) None), ip_tagShift = shift + bits\<rparr>))))))"

definition getEntry :: "u32 \<Rightarrow> u32 \<Rightarrow> 'x BaseIndexingPolicy_scheme \<Rightarrow> nat option res" where
  "getEntry s w p = rbind (vec_at (ip_sets p) (unat s)) (\<lambda>row. vec_at row (unat w))"

text \<open>Returns the position the entry is told.\<close>

definition setEntry :: "nat \<Rightarrow> u64 \<Rightarrow> 'x BaseIndexingPolicy_scheme \<Rightarrow> (u32 \<times> u32 \<times> 'x BaseIndexingPolicy_scheme) res" where
  "setEntry e index p =
     require (ip_assoc p \<noteq> 0) (Undefined ''division by zero'')
     (let s = word_of_int (sint index sdiv uint (ip_assoc p)) :: u32; w = word_of_int (sint index smod uint (ip_assoc p)) :: u32 in
      require (s < ip_numSets p) (AssertFail ''set < numSets'')
      (rbind (vec_at (ip_sets p) (unat s)) (\<lambda>row.
       rbind (vec_upd (unat w) (\<lambda>_. Some e) row) (\<lambda>row1.
       Inr (s, w, p\<lparr>ip_sets := (ip_sets p)[unat s := row1]\<rparr>)))))"

definition extractTag :: "Addr \<Rightarrow> 'x BaseIndexingPolicy_scheme \<Rightarrow> Addr" where
  "extractTag a p = drop_bit (ip_tagShift p) a"

subsection \<open>Set associative\<close>

definition sa_extractSet :: "Addr \<Rightarrow> 'x BaseIndexingPolicy_scheme \<Rightarrow> u32" where
  "sa_extractSet a p = ucast (drop_bit (ip_setShift p) a AND ucast (ip_setMask p))"

definition sa_regenerateAddr :: "Addr \<Rightarrow> u32 \<Rightarrow> u32 \<Rightarrow> BaseIndexingPolicy \<Rightarrow> Addr" where
  "sa_regenerateAddr tag s w p = push_bit (ip_tagShift p) tag OR ucast (push_bit (ip_setShift p) s)"

definition sa_getPossibleEntries :: "Addr \<Rightarrow> BaseIndexingPolicy \<Rightarrow> nat option list res" where
  "sa_getPossibleEntries a p = vec_at (ip_sets p) (unat (sa_extractSet a p))"

subsection \<open>Skewed associative\<close>

record SkewedAssociative = BaseIndexingPolicy +
  msbShift :: nat

definition NUM_SKEWING_FUNCTIONS :: nat where
  "NUM_SKEWING_FUNCTIONS = 8"

definition new_SkewedAssociative :: "u64 \<Rightarrow> u32 \<Rightarrow> u32 \<Rightarrow> SkewedAssociative res" where
  "new_SkewedAssociative sz entry_size assoc =
     rbind (new_BaseIndexingPolicy sz entry_size assoc) (\<lambda>b.
     rbind (floorLog2 (ucast (ip_numSets b))) (\<lambda>l.
     require (\<not> ip_setShift b + 2 * l > 64) (Panic ''Unsuported number of bits for the skewing functions.'')
     (require (\<not> ip_numSets b \<le> 2) (Fatal ''The number of sets must be greater than 2'')
      (Inr (BaseIndexingPolicy.extend b \<lparr>msbShift = l - 1\<rparr>)))))"

definition hash :: "nat \<Rightarrow> Addr \<Rightarrow> Addr" where
  "hash m a = (let lsb = bits a 0 0; msb = bits a m m; xor_bit = msb XOR lsb in insertBits (drop_bit 1 a) m m xor_bit)"

definition dehash :: "nat \<Rightarrow> Addr \<Rightarrow> Addr" where
  "dehash m a =
     (let msb = bits a (m - 1) (m - 1); xor_bit = bits a m m; lsb = msb XOR xor_bit; addr_no_msb = mbits a (m - 1) 0 in
      insertBits (push_bit 1 addr_no_msb) 0 0 lsb)"

definition skew :: "nat \<Rightarrow> Addr \<Rightarrow> nat \<Rightarrow> Addr res" where
  "skew m a way =
     (let a1 = bits a m 0; a2 = bits a (2 * (m + 1) - 1) (m + 1); k = way mod NUM_SKEWING_FUNCTIONS in
      rbind (if k = 0 then Inr (hash m a1 XOR hash m a2 XOR a2)
             else if k = 1 then Inr (hash m a1 XOR hash m a2 XOR a1)
             else if k = 2 then Inr (hash m a1 XOR dehash m a2 XOR a2)
             else if k = 3 then Inr (hash m a1 XOR dehash m a2 XOR a1)
             else if k = 4 then Inr (dehash m a1 XOR hash m a2 XOR a2)
             else if k = 5 then Inr (dehash m a1 XOR hash m a2 XOR a1)
             else if k = 6 then Inr (dehash m a1 XOR dehash m a2 XOR a2)
             else if k = 7 then Inr (dehash m a1 XOR dehash m a2 XOR a1)
             else Inl (Panic ''A skewing function has not been implemented for this way.''))
        (\<lambda>x. Inr ((hash m ^^ (way div NUM_SKEWING_FUNCTIONS)) x)))"

definition deskew :: "nat \<Rightarrow> Addr \<Rightarrow> nat \<Rightarrow> Addr res" where
  "deskew m a way =
     (let b = bits a m 0; a2 = bits a (2 * (m + 1) - 1) (m + 1);
          a1 = (if way \<ge> NUM_SKEWING_FUNCTIONS then (dehash m ^^ (way div NUM_SKEWING_FUNCTIONS)) b else b); k = way mod 8 in
      if k = 0 then Inr (dehash m (a1 XOR hash m a2 XOR a2))
      else if k = 1 then Inr ((hash m ^^ m) (a1 XOR hash m a2))
      else if k = 2 then Inr (dehash m (a1 XOR dehash m a2 XOR a2))
      else if k = 3 then Inr ((hash m ^^ m) (a1 XOR dehash m a2))
      else if k = 4 then Inr (hash m (a1 XOR hash m a2 XOR a2))
      else if k = 5 then Inr ((hash m ^^ (m + 1)) (a1 XOR hash m a2))
      else if k = 6 then Inr (hash m (a1 XOR dehash m a2 XOR a2))
      else if k = 7 then Inr ((hash m ^^ (m + 1)) (a1 XOR dehash m a2))
      else Inl (Panic ''A skewing function has not been implemented for this way.''))"

definition sk_extractSet :: "Addr \<Rightarrow> nat \<Rightarrow> SkewedAssociative \<Rightarrow> u32 res" where
  "sk_extractSet a way p =
     rbind (skew (msbShift p) (drop_bit (ip_setShift p) a) way) (\<lambda>x. Inr (ucast (x AND ucast (ip_setMask p))))"

definition sk_regenerateAddr :: "Addr \<Rightarrow> u32 \<Rightarrow> u32 \<Rightarrow> SkewedAssociative \<Rightarrow> Addr res" where
  "sk_regenerateAddr tag s w p =
     (let addr_set = push_bit (msbShift p + 1) tag OR ucast s in
      rbind (deskew (msbShift p) addr_set (unat w)) (\<lambda>x.
      Inr (push_bit (ip_tagShift p) tag OR push_bit (ip_setShift p) (x AND ucast (ip_setMask p)))))"

fun sk_entries :: "Addr \<Rightarrow> SkewedAssociative \<Rightarrow> nat list \<Rightarrow> nat option list res" where
  "sk_entries a p [] = Inr []"
| "sk_entries a p (w # ws) =
     rbind (sk_extractSet a w p) (\<lambda>s. rbind (getEntry s (of_nat w) p) (\<lambda>e. rbind (sk_entries a p ws) (\<lambda>es. Inr (e # es))))"

definition sk_getPossibleEntries :: "Addr \<Rightarrow> SkewedAssociative \<Rightarrow> nat option list res" where
  "sk_getPossibleEntries a p = sk_entries a p [0..<unat (ip_assoc p)]"


subsection \<open>The hash is an invertible linear step of a shift register\<close>

definition fits :: "nat \<Rightarrow> Addr \<Rightarrow> bool" where
  "fits m x \<longleftrightarrow> (\<forall>i. bit x i \<longrightarrow> i \<le> m)"

lemma fits_bits [simp]: "lo \<le> hi \<Longrightarrow> hi \<le> m + lo \<Longrightarrow> fits m (bits a hi lo)"
  by (auto simp: fits_def bit_bits)

lemma fits_xor [simp]: "fits m x \<Longrightarrow> fits m y \<Longrightarrow> fits m (x XOR y)"
  by (auto simp: fits_def bit_xor_iff)

lemma fits_eqI: "fits m x \<Longrightarrow> fits m y \<Longrightarrow> (\<And>i. i \<le> m \<Longrightarrow> bit x i = bit y i) \<Longrightarrow> x = y"
  by (rule bit_eqI) (auto simp: fits_def)

lemma bit_hash:
  assumes "fits m x" "m < 64"
  shows "bit (hash m x) i \<longleftrightarrow> (if i = m then bit x m \<noteq> bit x 0 else i < m \<and> bit x (Suc i))"
proof (cases "i < 64")
  case True
  then show ?thesis
    using assms by (auto simp: hash_def Let_def bit_insertBits bit_xor_iff bit_bits bit_drop_bit_eq fits_def)
next
  case False
  then show ?thesis using assms by (auto dest: bit_imp_le_length)
qed

lemma bit_dehash:
  assumes "fits m x" "m < 64" "0 < m"
  shows "bit (dehash m x) i \<longleftrightarrow> (if i = 0 then bit x (m - 1) \<noteq> bit x m else i \<le> m \<and> bit x (i - 1))"
proof (cases "i < 64")
  case True
  define y where "y = push_bit 1 (mbits x (m - 1) 0)"
  have y: "bit y i \<longleftrightarrow> 1 \<le> i \<and> i - 1 \<le> m - 1 \<and> bit x (i - 1)"
    unfolding y_def bit_push_bit_iff using True by (auto simp: bit_mbits)
  show ?thesis
    using assms True y unfolding dehash_def Let_def y_def [symmetric]
    by (auto simp: bit_insertBits bit_xor_iff bit_bits fits_def)
next
  case False
  then show ?thesis using assms by (auto dest: bit_imp_le_length)
qed

lemma fits_hash [simp]: "fits m x \<Longrightarrow> m < 64 \<Longrightarrow> fits m (hash m x)"
  unfolding fits_def [of m "hash m x"] by (simp add: bit_hash)

lemma fits_dehash [simp]: "fits m x \<Longrightarrow> m < 64 \<Longrightarrow> 0 < m \<Longrightarrow> fits m (dehash m x)"
  unfolding fits_def [of m "dehash m x"] by (simp add: bit_dehash)

lemma fits_hash_pow [simp]: "fits m x \<Longrightarrow> m < 64 \<Longrightarrow> fits m ((hash m ^^ k) x)"
  by (induction k) simp_all

lemma dehash_hash: "fits m x \<Longrightarrow> m < 64 \<Longrightarrow> 0 < m \<Longrightarrow> dehash m (hash m x) = x"
  by (rule fits_eqI [of m]) (auto simp: bit_hash bit_dehash)

lemma hash_dehash: "fits m x \<Longrightarrow> m < 64 \<Longrightarrow> 0 < m \<Longrightarrow> hash m (dehash m x) = x"
  by (rule fits_eqI [of m]) (auto simp: bit_hash bit_dehash)

lemma hash_xor: "fits m x \<Longrightarrow> fits m y \<Longrightarrow> m < 64 \<Longrightarrow> hash m (x XOR y) = hash m x XOR hash m y"
  by (rule fits_eqI [of m]) (auto simp: bit_hash bit_xor_iff)

lemma dehash_xor: "fits m x \<Longrightarrow> fits m y \<Longrightarrow> m < 64 \<Longrightarrow> 0 < m \<Longrightarrow> dehash m (x XOR y) = dehash m x XOR dehash m y"
  by (rule fits_eqI [of m]) (auto simp: bit_dehash bit_xor_iff)

lemma hash_pow_xor: "fits m x \<Longrightarrow> fits m y \<Longrightarrow> m < 64 \<Longrightarrow> (hash m ^^ k) (x XOR y) = (hash m ^^ k) x XOR (hash m ^^ k) y"
  by (induction k) (simp_all add: hash_xor)

lemma dehash_hash_pow: "fits m x \<Longrightarrow> m < 64 \<Longrightarrow> 0 < m \<Longrightarrow> (dehash m ^^ k) ((hash m ^^ k) x) = x"
proof (induction k)
  case (Suc k)
  have "(dehash m ^^ Suc k) ((hash m ^^ Suc k) x) = (dehash m ^^ k) (dehash m (hash m ((hash m ^^ k) x)))"
    by (simp add: funpow_swap1)
  then show ?case using Suc by (simp add: dehash_hash)
qed simp

text \<open>Bit \<open>i\<close> of the register is the lowest bit \<open>i\<close> steps later.\<close>

lemma bit_hash_pow:
  assumes "fits m x" "m < 64" "i \<le> m"
  shows "bit ((hash m ^^ k) x) i = bit ((hash m ^^ (k + i)) x) 0"
  using assms(3)
proof (induction i arbitrary: k)
  case (Suc i)
  then have "bit ((hash m ^^ k) x) (Suc i) = bit (hash m ((hash m ^^ k) x)) i"
    using assms by (simp add: bit_hash)
  then show ?case using Suc.IH [of "Suc k"] Suc.prems by simp
qed simp

lemma hash_cycle:
  assumes "fits m x" "m < 64"
  shows "(hash m ^^ m) (hash m x XOR x) = x"
proof -
  have "bit ((hash m ^^ Suc m) x) i = (bit ((hash m ^^ m) x) i \<noteq> bit x i)" if "i \<le> m" for i
  proof -
    have "bit ((hash m ^^ Suc m) x) i = bit ((hash m ^^ (Suc i + m)) x) 0"
      using bit_hash_pow [OF assms that, of "Suc m"] by (simp add: add.commute)
    also have "\<dots> = bit ((hash m ^^ Suc i) x) m"
      using bit_hash_pow [OF assms, of m "Suc i"] by simp
    also have "\<dots> = (bit ((hash m ^^ i) x) m \<noteq> bit ((hash m ^^ i) x) 0)"
      using assms by (simp add: bit_hash)
    finally show ?thesis
      using bit_hash_pow [OF assms, of m i] bit_hash_pow [OF assms that, of m] bit_hash_pow [OF assms that, of 0]
      by (simp add: add.commute)
  qed
  then show ?thesis
    using assms by (intro fits_eqI [of m]) (auto simp: hash_pow_xor bit_xor_iff funpow_swap1)
qed

lemma hash_cycle_dehash:
  assumes "fits m x" "m < 64" "0 < m"
  shows "(hash m ^^ (m + 1)) (dehash m x XOR x) = x"
proof -
  have "(hash m ^^ (m + 1)) (dehash m x XOR x) = (hash m ^^ m) (hash m (dehash m x XOR x))"
    by (simp add: funpow_swap1)
  also have "hash m (dehash m x XOR x) = hash m x XOR x"
    using assms by (simp add: hash_xor hash_dehash xor.commute)
  finally show ?thesis using hash_cycle assms by simp
qed

subsection \<open>Skewing can be undone\<close>

lemma xor_cancel: "(p XOR q XOR r) XOR q XOR r = p" "(p XOR q XOR r) XOR q = p XOR r" "(p XOR r) XOR r = p" for p q r :: Addr
  by (simp_all add: ac_simps bit.xor_left_self)

lemma bit_join: "(\<And>i. bit x i \<Longrightarrow> i < n) \<Longrightarrow> bit (push_bit n (drop_bit n a) OR x) i = (if i < n then bit x i else bit a i)"
  for a x :: Addr
  by (auto simp: bit_or_iff bit_push_bit_iff bit_drop_bit_eq dest: bit_imp_le_length)

lemma reassemble:
  assumes "fits m x"
  shows "bits (push_bit (m + 1) (drop_bit (m + 1) a) OR x) m 0 = x"
    and "bits (push_bit (m + 1) (drop_bit (m + 1) a) OR x) (2 * (m + 1) - 1) (m + 1) = bits a (2 * (m + 1) - 1) (m + 1)"
proof -
  have "bit (push_bit (m + 1) (drop_bit (m + 1) a) OR x) i = (if i < m + 1 then bit x i else bit a i)" for i
    by (rule bit_join) (use assms in \<open>auto simp: fits_def\<close>)
  then show "bits (push_bit (m + 1) (drop_bit (m + 1) a) OR x) m 0 = x"
    "bits (push_bit (m + 1) (drop_bit (m + 1) a) OR x) (2 * (m + 1) - 1) (m + 1) = bits a (2 * (m + 1) - 1) (m + 1)"
    using assms by (auto intro!: bit_eqI simp: bit_bits fits_def dest: bit_imp_le_length simp del: push_bit_Suc)
qed

definition skew_base :: "nat \<Rightarrow> Addr \<Rightarrow> Addr \<Rightarrow> nat \<Rightarrow> Addr" where
  "skew_base m a1 a2 k =
     (if k < 4 then hash m a1 else dehash m a1) XOR (if k mod 4 < 2 then hash m a2 else dehash m a2) XOR (if even k then a2 else a1)"

definition deskew_base :: "nat \<Rightarrow> Addr \<Rightarrow> Addr \<Rightarrow> nat \<Rightarrow> Addr" where
  "deskew_base m z a2 k =
     (let y = z XOR (if k mod 4 < 2 then hash m a2 else dehash m a2) in
      if even k then (if k < 4 then dehash m (y XOR a2) else hash m (y XOR a2)) else (hash m ^^ (if k < 4 then m else m + 1)) y)"

lemma below_8: "k < 8 \<Longrightarrow> k = 0 \<or> k = 1 \<or> k = 2 \<or> k = 3 \<or> k = 4 \<or> k = 5 \<or> k = 6 \<or> k = 7" for k :: nat
  by linarith

lemma skew_eq:
  "skew m a way = Inr ((hash m ^^ (way div 8)) (skew_base m (bits a m 0) (bits a (2 * (m + 1) - 1) (m + 1)) (way mod 8)))"
proof -
  have "way mod 8 < 8" by simp
  from below_8 [OF this] show ?thesis
    by (elim disjE) (simp_all add: skew_def skew_base_def NUM_SKEWING_FUNCTIONS_def Let_def)
qed

lemma deskew_eq:
  "deskew m a way = Inr (deskew_base m ((dehash m ^^ (way div 8)) (bits a m 0)) (bits a (2 * (m + 1) - 1) (m + 1)) (way mod 8))"
proof -
  have unpile: "(if way \<ge> 8 then (dehash m ^^ (way div 8)) z else z) = (dehash m ^^ (way div 8)) z" for z by simp
  have "way mod 8 < 8" by simp
  from below_8 [OF this] show ?thesis
    unfolding deskew_def NUM_SKEWING_FUNCTIONS_def Let_def unpile
    by (elim disjE) (simp_all add: deskew_base_def Let_def xor.assoc)
qed

lemma fits_skew_base [simp]: "fits m x \<Longrightarrow> fits m y \<Longrightarrow> m < 64 \<Longrightarrow> 0 < m \<Longrightarrow> fits m (skew_base m x y k)"
  by (simp add: skew_base_def)

lemma deskew_skew_base:
  assumes "fits m x" "fits m y" "m < 64" "0 < m"
  shows "deskew_base m (skew_base m x y k) y k = x"
  using assms hash_cycle [of m x] hash_cycle_dehash [of m x]
  by (cases "even k"; cases "k < 4") (simp_all add: deskew_base_def skew_base_def Let_def xor_cancel dehash_hash hash_dehash)

lemma skew_roundtrip:
  assumes "0 < m" "m < 64"
  shows "\<exists>x. skew m a way = Inr x \<and> fits m x \<and>
    deskew m (push_bit (m + 1) (drop_bit (m + 1) a) OR x) way = Inr (bits a m 0)"
proof -
  let ?a2 = "bits a (2 * (m + 1) - 1) (m + 1)"
  let ?b = "skew_base m (bits a m 0) ?a2 (way mod 8)"
  let ?x = "(hash m ^^ (way div 8)) ?b"
  have f: "fits m (bits a m 0)" "fits m ?a2" by simp_all
  then have b: "fits m ?b" using assms by (intro fits_skew_base)
  then have h: "fits m ?x" using assms by (intro fits_hash_pow)
  have "deskew m (push_bit (m + 1) (drop_bit (m + 1) a) OR ?x) way = Inr (bits a m 0)"
    unfolding deskew_eq reassemble [OF h] dehash_hash_pow [OF b assms(2,1)] deskew_skew_base [OF f assms(2,1)] ..
  then show ?thesis using h unfolding skew_eq by blast
qed

subsection \<open>The contract of an indexing policy\<close>

definition ip_ok :: "nat \<Rightarrow> 'x BaseIndexingPolicy_scheme \<Rightarrow> bool" where
  "ip_ok l p \<longleftrightarrow> l < 32 \<and> ip_numSets p = 2 ^ l \<and> ip_setMask p = mask l \<and> ip_tagShift p = ip_setShift p + l \<and>
     0 < ip_assoc p \<and> ip_tagShift p \<le> 64 \<and> length (ip_sets p) = 2 ^ l \<and>
     (\<forall>s < 2 ^ l. ip_sets p ! s = map Some [s * unat (ip_assoc p)..<Suc s * unat (ip_assoc p)])"

definition numEntries :: "'x BaseIndexingPolicy_scheme \<Rightarrow> nat" where
  "numEntries p = unat (ip_numSets p) * unat (ip_assoc p)"

definition block_of :: "'x BaseIndexingPolicy_scheme \<Rightarrow> Addr \<Rightarrow> Addr" where
  "block_of p a = push_bit (ip_setShift p) (drop_bit (ip_setShift p) a)"

definition sa_ok :: "BaseIndexingPolicy \<Rightarrow> bool" where
  "sa_ok p \<longleftrightarrow> (\<exists>l. ip_ok l p \<and> ip_tagShift p \<le> 32)"

definition sk_ok :: "SkewedAssociative \<Rightarrow> bool" where
  "sk_ok p \<longleftrightarrow> (\<exists>l. ip_ok l p \<and> 2 \<le> l \<and> msbShift p = l - 1)"

locale indexing_policy =
  fixes possible :: "Addr \<Rightarrow> 'x BaseIndexingPolicy_scheme \<Rightarrow> nat option list res"
    and regen :: "Addr \<Rightarrow> u32 \<Rightarrow> u32 \<Rightarrow> 'x BaseIndexingPolicy_scheme \<Rightarrow> Addr res"
    and ok :: "'x BaseIndexingPolicy_scheme \<Rightarrow> bool"
  assumes entries: "ok p \<Longrightarrow> \<exists>es. possible a p = Inr (map Some es) \<and> es \<noteq> [] \<and> distinct es \<and> (\<forall>e\<in>set es. e < numEntries p)"
    and regenerated: "ok p \<Longrightarrow> possible a p = Inr es \<Longrightarrow> Some e \<in> set es \<Longrightarrow>
      regen (extractTag a p) (of_nat (e div unat (ip_assoc p))) (of_nat (e mod unat (ip_assoc p))) p = Inr (block_of p a)"
    and same_block: "ok p \<Longrightarrow> block_of p a = block_of p b \<Longrightarrow> possible a p = possible b p \<and> extractTag a p = extractTag b p"
begin

lemma same_place:
  assumes "ok p" "possible a p = Inr xs" "possible b p = Inr ys" "Some e \<in> set xs" "Some e \<in> set ys"
    "extractTag a p = extractTag b p"
  shows "block_of p a = block_of p b"
  using regenerated [OF assms(1,2,4)] regenerated [OF assms(1,3,5)] assms(6) by simp

end

lemma block_of_drop: "block_of p a = block_of p b \<Longrightarrow> drop_bit (ip_setShift p) a = drop_bit (ip_setShift p) b"
proof (rule bit_eqI)
  fix n
  assume eq: "block_of p a = block_of p b" and n: "possible_bit TYPE(64 word) n"
  have "bit (block_of p a) (ip_setShift p + n) = bit (block_of p b) (ip_setShift p + n)" using eq by simp
  then show "bit (drop_bit (ip_setShift p) a) n = bit (drop_bit (ip_setShift p) b) n"
    by (auto simp: block_of_def bit_push_bit_iff bit_drop_bit_eq dest: bit_imp_le_length)
qed

lemma extractTag_drop: "ip_ok l p \<Longrightarrow> extractTag a p = drop_bit l (drop_bit (ip_setShift p) a)"
  by (simp add: ip_ok_def extractTag_def add.commute)

lemma unat_exp: "k < LENGTH('a) \<Longrightarrow> unat (2 ^ k :: 'a::len word) = 2 ^ k"
  by transfer (simp add: take_bit_eq_mod nat_power_eq)

lemma row_entry:
  assumes "ip_ok l p" "s < 2 ^ l" "w < unat (ip_assoc p)"
  shows "ip_sets p ! s ! w = Some (s * unat (ip_assoc p) + w)" "length (ip_sets p ! s) = unat (ip_assoc p)"
  using assms by (simp_all add: ip_ok_def)

lemma entry_bound:
  assumes "ip_ok l p" "s < 2 ^ l" "w < unat (ip_assoc p)"
  shows "s * unat (ip_assoc p) + w < numEntries p"
proof -
  have "unat (ip_numSets p) = 2 ^ l" using assms(1) by (simp add: ip_ok_def unat_exp)
  moreover have "s * unat (ip_assoc p) + w < Suc s * unat (ip_assoc p)" using assms(3) by simp
  moreover have "Suc s * unat (ip_assoc p) \<le> 2 ^ l * unat (ip_assoc p)" using assms(2) by (intro mult_le_mono1) simp
  ultimately show ?thesis by (simp add: numEntries_def)
qed

lemma glue:
  fixes a x :: Addr
  assumes "\<And>i. bit x i \<longleftrightarrow> i < l \<and> bit a (i + s)" "s + l \<le> 64"
  shows "push_bit (s + l) (drop_bit (s + l) a) OR push_bit s x = push_bit s (drop_bit s a)"
proof (rule bit_eqI)
  fix n
  assume "possible_bit TYPE(64 word) n"
  then have n: "n < 64" by simp
  show "bit (push_bit (s + l) (drop_bit (s + l) a) OR push_bit s x) n = bit (push_bit s (drop_bit s a)) n"
  proof (cases "s + l \<le> n")
    case True
    then show ?thesis using n assms(1) [of "n - s"] by (simp add: bit_or_iff bit_push_bit_iff bit_drop_bit_eq) auto
  next
    case False
    then show ?thesis using n assms(1) [of "n - s"] by (auto simp: bit_or_iff bit_push_bit_iff bit_drop_bit_eq)
  qed
qed

subsection \<open>The set associative policy satisfies the contract\<close>

lemma bit_sa_extractSet:
  assumes "ip_ok l p"
  shows "bit (sa_extractSet a p) i \<longleftrightarrow> i < l \<and> bit a (i + ip_setShift p)"
  using assms by (auto simp: sa_extractSet_def ip_ok_def bit_ucast_iff bit_and_iff bit_drop_bit_eq bit_mask_iff add.commute)

lemma sa_extractSet_less: "ip_ok l p \<Longrightarrow> unat (sa_extractSet a p) < 2 ^ l"
proof -
  assume ok: "ip_ok l p"
  then have "take_bit l (sa_extractSet a p) = sa_extractSet a p"
    by (intro bit_eqI) (auto simp: bit_take_bit_iff bit_sa_extractSet)
  then have "unat (sa_extractSet a p) = take_bit l (unat (sa_extractSet a p))"
    by (metis unsigned_take_bit_eq)
  then show ?thesis by (metis take_bit_nat_less_exp)
qed

lemma sa_possible:
  "ip_ok l p \<Longrightarrow> sa_getPossibleEntries a p =
     Inr (map Some [unat (sa_extractSet a p) * unat (ip_assoc p)..<Suc (unat (sa_extractSet a p)) * unat (ip_assoc p)])"
  using sa_extractSet_less [of l p a] by (simp add: sa_getPossibleEntries_def ip_ok_def vec_at_def)

lemma sa_regenerate:
  assumes "ip_ok l p" "ip_tagShift p \<le> 32"
  shows "sa_regenerateAddr (extractTag a p) (sa_extractSet a p) w p = block_of p a"
proof -
  have s: "ip_setShift p + l \<le> 32" "ip_tagShift p = ip_setShift p + l" using assms by (auto simp: ip_ok_def)
  have "ucast (push_bit (ip_setShift p) (sa_extractSet a p)) = push_bit (ip_setShift p) (ucast (sa_extractSet a p) :: Addr)"
    using s by (intro bit_eqI) (auto simp: bit_ucast_iff bit_push_bit_iff bit_sa_extractSet [OF assms(1)])
  moreover have "bit (ucast (sa_extractSet a p) :: Addr) i \<longleftrightarrow> i < l \<and> bit a (i + ip_setShift p)" for i
    using assms(1) by (auto simp: bit_ucast_iff bit_sa_extractSet ip_ok_def dest: bit_imp_le_length)
  ultimately show ?thesis
    using glue [of "ucast (sa_extractSet a p)" l a "ip_setShift p"] s
    by (simp add: sa_regenerateAddr_def extractTag_def block_of_def)
qed

lemma upt_div: "e \<in> set [s * k..<Suc s * k] \<Longrightarrow> e div k = s" for k :: nat
  by (auto simp: div_nat_eqI mult.commute)

interpretation sa_ip: indexing_policy sa_getPossibleEntries "\<lambda>t s w p. Inr (sa_regenerateAddr t s w p)" sa_ok
proof
  fix p :: BaseIndexingPolicy and a b :: Addr and es e
  assume ok: "sa_ok p"
  then obtain l where l: "ip_ok l p" "ip_tagShift p \<le> 32" by (auto simp: sa_ok_def)
  let ?s = "unat (sa_extractSet a p)" and ?A = "unat (ip_assoc p)"
  have A: "0 < ?A" using l(1) by (simp add: ip_ok_def unat_gt_0 word_gt_0)
  have "e < numEntries p" if "e \<in> set [?s * ?A..<Suc ?s * ?A]" for e
    using entry_bound [OF l(1) sa_extractSet_less [OF l(1)], of "e - ?s * ?A" a] that by auto
  then show "\<exists>es. sa_getPossibleEntries a p = Inr (map Some es) \<and> es \<noteq> [] \<and> distinct es \<and> (\<forall>e\<in>set es. e < numEntries p)"
    using A unfolding sa_possible [OF l(1)] by (intro exI [of _ "[?s * ?A..<Suc ?s * ?A]"]) simp
  assume "sa_getPossibleEntries a p = Inr es" "Some e \<in> set es"
  then have "e div ?A = ?s" using upt_div [of e ?s ?A] unfolding sa_possible [OF l(1)] by auto
  then show "Inr (sa_regenerateAddr (extractTag a p) (of_nat (e div ?A)) (of_nat (e mod ?A)) p) = Inr (block_of p a)"
    using sa_regenerate [OF l] by simp
next
  fix p :: BaseIndexingPolicy and a b :: Addr
  assume "sa_ok p" and eq: "block_of p a = block_of p b"
  then obtain l where l: "ip_ok l p" by (auto simp: sa_ok_def)
  show "sa_getPossibleEntries a p = sa_getPossibleEntries b p \<and> extractTag a p = extractTag b p"
    using block_of_drop [OF eq] l by (simp add: sa_getPossibleEntries_def sa_extractSet_def extractTag_drop)
qed

subsection \<open>The skewed associative policy satisfies the contract\<close>

lemma fits_less: "fits m x \<Longrightarrow> unat x < 2 ^ Suc m"
proof -
  assume "fits m x"
  then have "take_bit (Suc m) x = x" by (intro bit_eqI) (auto simp: bit_take_bit_iff fits_def)
  then have "unat x = take_bit (Suc m) (unat x)" by (metis unsigned_take_bit_eq)
  then show ?thesis by (metis take_bit_nat_less_exp)
qed

lemma sk_set:
  assumes "ip_ok l p" "2 \<le> l" "msbShift p = l - 1"
  obtains x where "sk_extractSet a w p = Inr (ucast x)" "fits (l - 1) x" "unat (ucast x :: u32) < 2 ^ l" "ucast (ucast x :: u32) = x"
    "deskew (l - 1) (push_bit l (drop_bit l (drop_bit (ip_setShift p) a)) OR x) w = Inr (bits (drop_bit (ip_setShift p) a) (l - 1) 0)"
proof -
  have l: "0 < l - 1" "l - 1 < 64" "l - 1 + 1 = l" "l < 32" "ip_setMask p = mask l" using assms by (auto simp: ip_ok_def)
  obtain x where x: "skew (l - 1) (drop_bit (ip_setShift p) a) w = Inr x" "fits (l - 1) x"
    "deskew (l - 1) (push_bit l (drop_bit l (drop_bit (ip_setShift p) a)) OR x) w = Inr (bits (drop_bit (ip_setShift p) a) (l - 1) 0)"
    using skew_roundtrip [OF l(1,2), of "drop_bit (ip_setShift p) a" w] unfolding l(3) by blast
  have below: "bit x i \<Longrightarrow> i < l" for i using x(2) l(1) by (fastforce simp: fits_def)
  have m: "x AND ucast (mask l :: u32) = x"
    using l(4) by (intro bit_eqI) (auto simp: bit_and_iff bit_ucast_iff bit_mask_iff dest: below)
  have c: "ucast (ucast x :: u32) = x"
    using l(4) by (intro bit_eqI) (auto simp: bit_ucast_iff dest: below)
  have less: "unat x < 2 ^ l" using fits_less [OF x(2)] l(1) by simp
  also have "(2 :: nat) ^ l \<le> 2 ^ 32" using l(4) by (intro power_increasing) simp_all
  finally have "unat (ucast x :: u32) = unat x" by (simp add: unsigned_ucast_eq take_bit_nat_eq_self)
  then show ?thesis
    using that [of x] x c m l less by (simp add: sk_extractSet_def assms(3))
qed

definition sk_place :: "Addr \<Rightarrow> SkewedAssociative \<Rightarrow> nat \<Rightarrow> nat" where
  "sk_place a p w = unat (projr (sk_extractSet a w p)) * unat (ip_assoc p) + w"

lemma unat_of_way: "w < unat (x :: u32) \<Longrightarrow> unat (of_nat w :: u32) = w"
  using unsigned_less [of x, where ?'a = nat] by (simp add: unat_of_nat)

lemma sk_entry:
  assumes "ip_ok l p" "2 \<le> l" "msbShift p = l - 1" "w < unat (ip_assoc p)"
  shows "rbind (sk_extractSet a w p) (\<lambda>s. rbind (getEntry s (of_nat w) p) f) = f (Some (sk_place a p w))"
    "sk_place a p w < numEntries p"
proof -
  obtain x :: Addr where x: "sk_extractSet a w p = Inr (ucast x)" "unat (ucast x :: u32) < 2 ^ l"
    using sk_set [OF assms(1-3), of a w] by blast
  have "unat (of_nat w :: u32) = w" by (rule unat_of_way [OF assms(4)])
  moreover have "length (ip_sets p) = 2 ^ l" using assms(1) by (simp add: ip_ok_def)
  ultimately have "getEntry (ucast x) (of_nat w) p = Inr (Some (unat (ucast x :: u32) * unat (ip_assoc p) + w))"
    using row_entry [OF assms(1) x(2) assms(4)] x(2) assms(4) unfolding getEntry_def by (simp only: vec_total rbind_simps)
  then show "rbind (sk_extractSet a w p) (\<lambda>s. rbind (getEntry s (of_nat w) p) f) = f (Some (sk_place a p w))"
    unfolding x(1) rbind_simps sk_place_def sum.sel by (simp only: rbind_simps)
  show "sk_place a p w < numEntries p"
    unfolding sk_place_def x(1) sum.sel by (rule entry_bound [OF assms(1) x(2) assms(4)])
qed

lemma sk_entries_eq:
  assumes "ip_ok l p" "2 \<le> l" "msbShift p = l - 1" "\<forall>w\<in>set ws. w < unat (ip_assoc p)"
  shows "sk_entries a p ws = Inr (map (\<lambda>w. Some (sk_place a p w)) ws)"
  using assms(4) by (induction ws) (simp_all add: sk_entry [OF assms(1-3)])

lemma sk_possible:
  assumes "ip_ok l p" "2 \<le> l" "msbShift p = l - 1"
  shows "sk_getPossibleEntries a p = Inr (map Some (map (sk_place a p) [0..<unat (ip_assoc p)]))"
  unfolding sk_getPossibleEntries_def by (subst sk_entries_eq [OF assms]) simp_all

lemma sk_regenerate:
  assumes "ip_ok l p" "2 \<le> l" "msbShift p = l - 1" "w < unat (ip_assoc p)"
  shows "sk_regenerateAddr (extractTag a p) (of_nat (sk_place a p w div unat (ip_assoc p))) (of_nat w) p = Inr (block_of p a)"
proof -
  let ?d = "drop_bit (ip_setShift p) a"
  obtain x where x: "sk_extractSet a w p = Inr (ucast x)" "ucast (ucast x :: u32) = x"
    "deskew (l - 1) (push_bit l (drop_bit l ?d) OR x) w = Inr (bits ?d (l - 1) 0)"
    using sk_set [OF assms(1-3)] by blast
  have s: "sk_place a p w div unat (ip_assoc p) = unat (ucast x :: u32)" using x(1) assms(4) by (simp add: sk_place_def)
  have w: "unat (of_nat w :: u32) = w" by (rule unat_of_way [OF assms(4)])
  have l: "l - 1 + 1 = l" "l < 32" "ip_tagShift p = ip_setShift p + l" "ip_setMask p = mask l" "ip_tagShift p \<le> 64"
    using assms(1,2) by (auto simp: ip_ok_def)
  have b: "bit (bits ?d (l - 1) 0 AND ucast (mask l :: u32)) i \<longleftrightarrow> i < l \<and> bit a (i + ip_setShift p)" for i
    using l by (auto simp: bit_and_iff bit_bits bit_ucast_iff bit_mask_iff bit_drop_bit_eq add.commute dest: bit_imp_le_length)
  have "drop_bit l ?d = drop_bit (ip_setShift p + l) a" by (simp add: add.commute)
  then show ?thesis
    using glue [OF b] l x unfolding block_of_def
    by (simp only: sk_regenerateAddr_def Let_def assms(3) extractTag_drop [OF assms(1)] s of_nat_unat ucast_id w l(1) rbind_simps)
qed

interpretation sk_ip: indexing_policy sk_getPossibleEntries sk_regenerateAddr sk_ok
proof
  fix p :: SkewedAssociative and a b :: Addr and es e
  assume ok: "sk_ok p"
  then obtain l where l: "ip_ok l p" "2 \<le> l" "msbShift p = l - 1" by (auto simp: sk_ok_def)
  let ?A = "unat (ip_assoc p)"
  have A: "0 < ?A" using l(1) by (simp add: ip_ok_def unat_gt_0 word_gt_0)
  have way: "sk_place a p w mod ?A = w" if "w < ?A" for w using that by (simp add: sk_place_def)
  then have "inj_on (sk_place a p) {0..<?A}" by (intro inj_onI) (metis atLeastLessThan_iff)
  then show "\<exists>es. sk_getPossibleEntries a p = Inr (map Some es) \<and> es \<noteq> [] \<and> distinct es \<and> (\<forall>e\<in>set es. e < numEntries p)"
    using A sk_entry(2) [OF l] unfolding sk_possible [OF l]
    by (intro exI [of _ "map (sk_place a p) [0..<?A]"]) (simp add: distinct_map)
  assume "sk_getPossibleEntries a p = Inr es" "Some e \<in> set es"
  then obtain w where w: "w < ?A" "e = sk_place a p w" unfolding sk_possible [OF l] by auto
  then show "sk_regenerateAddr (extractTag a p) (of_nat (e div ?A)) (of_nat (e mod ?A)) p = Inr (block_of p a)"
    using sk_regenerate [OF l w(1)] way by simp
next
  fix p :: SkewedAssociative and a b :: Addr
  assume "sk_ok p" and eq: "block_of p a = block_of p b"
  then obtain l where l: "ip_ok l p" "2 \<le> l" "msbShift p = l - 1" by (auto simp: sk_ok_def)
  have "sk_place a p w = sk_place b p w" for w
    using block_of_drop [OF eq] by (simp add: sk_place_def sk_extractSet_def)
  then show "sk_getPossibleEntries a p = sk_getPossibleEntries b p \<and> extractTag a p = extractTag b p"
    using block_of_drop [OF eq] unfolding sk_possible [OF l] by (simp add: extractTag_drop [OF l(1)])
qed

text \<open>C34: A block address survives the skewing hash: for every address, way and well-formed skewed cache, each of the \<open>assoc\<close>
  candidate entries exists, they are pairwise distinct, and the address regenerated from the tag and the place of any of
  them is the address of the block.\<close>

theorem skewed_address_roundtrip:
  assumes "sk_ok p"
  shows "\<exists>es. sk_getPossibleEntries a p = Inr (map Some es) \<and> length es = unat (ip_assoc p) \<and> distinct es \<and>
    (\<forall>e\<in>set es. sk_regenerateAddr (extractTag a p) (of_nat (e div unat (ip_assoc p))) (of_nat (e mod unat (ip_assoc p))) p
       = Inr (push_bit (ip_setShift p) (drop_bit (ip_setShift p) a)))"
proof -
  obtain l where l: "ip_ok l p" "2 \<le> l" "msbShift p = l - 1" using assms by (auto simp: sk_ok_def)
  obtain es where es: "sk_getPossibleEntries a p = Inr (map Some es)" "distinct es" using sk_ip.entries [OF assms, of a] by blast
  have "map Some es = map Some (map (sk_place a p) [0..<unat (ip_assoc p)])" using es(1) sk_possible [OF l, of a] by simp
  from arg_cong [OF this, of length] have "length es = unat (ip_assoc p)" by simp
  then show ?thesis
    using es sk_ip.regenerated [OF assms es(1)] unfolding block_of_def [symmetric] by (intro exI [of _ es]) auto
qed

definition demo_skewed :: SkewedAssociative where
  "demo_skewed = \<lparr>ip_assoc = 2, ip_numSets = 4, ip_setShift = 6, ip_setMask = 3,
     ip_sets = [[Some 0, Some 1], [Some 2, Some 3], [Some 4, Some 5], [Some 6, Some 7]], ip_tagShift = 8, msbShift = 1\<rparr>"

lemma demo_skewed_ok: "sk_ok demo_skewed"
proof -
  have rows: "ip_sets demo_skewed ! s = map Some [s * 2..<Suc s * 2]" if "s < 4" for s
  proof -
    have "s = 0 \<or> s = 1 \<or> s = 2 \<or> s = 3" using that by linarith
    then show ?thesis by (elim disjE) (simp_all add: demo_skewed_def upt_rec)
  qed
  have "ip_ok 2 demo_skewed"
    unfolding ip_ok_def using rows by (simp add: demo_skewed_def mask_eq_exp_minus_1)
  then show ?thesis unfolding sk_ok_def by (intro exI [of _ 2]) (simp add: demo_skewed_def)
qed

theorem skewed_address_roundtrip_witness:
  "\<exists>es. sk_getPossibleEntries 0x12345 demo_skewed = Inr (map Some es) \<and> length es = 2"
  using skewed_address_roundtrip [OF demo_skewed_ok, of "0x12345"] by (auto simp: demo_skewed_def)

subsection \<open>Filling the table\<close>

text \<open>A policy whose table holds the entries below \<open>n\<close>.\<close>

definition ip_filled :: "nat \<Rightarrow> nat \<Rightarrow> 'x BaseIndexingPolicy_scheme \<Rightarrow> bool" where
  "ip_filled l n p \<longleftrightarrow> l < 32 \<and> ip_numSets p = 2 ^ l \<and> ip_setMask p = mask l \<and> ip_tagShift p = ip_setShift p + l \<and>
     0 < ip_assoc p \<and> ip_tagShift p \<le> 64 \<and> length (ip_sets p) = 2 ^ l \<and>
     (\<forall>s < 2 ^ l. length (ip_sets p ! s) = unat (ip_assoc p) \<and>
        (\<forall>w < unat (ip_assoc p). s * unat (ip_assoc p) + w < n \<longrightarrow> ip_sets p ! s ! w = Some (s * unat (ip_assoc p) + w)))"

lemma sdiv_nat: "int i sdiv int k = int (i div k)" "int i smod int k = int (i mod k)"
  by (cases "k = 0"; cases "i = 0"; simp add: signed_divide_int_def signed_modulo_int_def zdiv_int zmod_int)+

lemma setEntry_filled:
  assumes "ip_filled l n p" "n < numEntries p" "n < 2 ^ 63"
  shows "\<exists>sets. setEntry n (of_nat n) p = Inr (of_nat (n div unat (ip_assoc p)), of_nat (n mod unat (ip_assoc p)), p\<lparr>ip_sets := sets\<rparr>) \<and>
    ip_filled l (Suc n) (p\<lparr>ip_sets := sets\<rparr>)"
proof -
  let ?A = "unat (ip_assoc p)"
  let ?s = "n div ?A" and ?w = "n mod ?A"
  have f: "l < 32" "ip_numSets p = 2 ^ l" "length (ip_sets p) = 2 ^ l" "0 < ip_assoc p"
    "\<And>s. s < 2 ^ l \<Longrightarrow> length (ip_sets p ! s) = ?A" using assms(1) by (simp_all add: ip_filled_def)
  have A: "0 < ?A" using f(4) by (simp add: unat_gt_0 word_gt_0)
  have N: "unat (ip_numSets p) = 2 ^ l" using f by (simp add: unat_exp)
  then have s: "?s < 2 ^ l" using assms(2) by (simp add: numEntries_def less_mult_imp_div_less)
  have w: "?w < ?A" using A by simp
  have "(2 :: nat) ^ l \<le> 2 ^ 31" using f(1) by (intro power_increasing) simp_all
  then have us: "unat (of_nat ?s :: u32) = ?s" using s by (simp add: unat_of_nat)
  have uw: "unat (of_nat ?w :: u32) = ?w" by (rule unat_of_way [OF w])
  have si: "sint (of_nat n :: u64) = int n"
    using assms(3) by (simp add: signed_of_nat signed_take_bit_int_eq_self)
  have u: "uint (ip_assoc p) = int ?A" by simp
  have q: "word_of_int (sint (of_nat n :: u64) sdiv uint (ip_assoc p)) = (of_nat ?s :: u32)"
    "word_of_int (sint (of_nat n :: u64) smod uint (ip_assoc p)) = (of_nat ?w :: u32)"
    unfolding si u sdiv_nat by simp_all
  define sets where "sets = (ip_sets p)[?s := (ip_sets p ! ?s)[?w := Some n]]"
  have "setEntry n (of_nat n) p = Inr (of_nat ?s, of_nat ?w, p\<lparr>ip_sets := sets\<rparr>)"
  proof -
    have "of_nat ?s < ip_numSets p" unfolding word_less_nat_alt us N by (rule s)
    moreover have "?s < length (ip_sets p)" "?w < length (ip_sets p ! ?s)" using s w f(3) f(5) [OF s] by simp_all
    moreover have "ip_assoc p \<noteq> 0" using f(4) by auto
    ultimately show ?thesis
      unfolding setEntry_def Let_def q us uw sets_def by (simp only: require_simps vec_total rbind_simps not_False_eq_True)
  qed
  moreover have "ip_filled l (Suc n) (p\<lparr>ip_sets := sets\<rparr>)"
  proof -
    have row: "length (sets ! s') = ?A \<and> (\<forall>w' < ?A. s' * ?A + w' < Suc n \<longrightarrow> sets ! s' ! w' = Some (s' * ?A + w'))" if s': "s' < 2 ^ l" for s'
    proof (intro conjI allI impI)
      show "length (sets ! s') = ?A" using f s s' by (cases "s' = ?s") (simp_all add: sets_def)
      fix w'
      assume w': "w' < ?A" "s' * ?A + w' < Suc n"
      show "sets ! s' ! w' = Some (s' * ?A + w')"
      proof (cases "s' * ?A + w' = n")
        case True
        then have "?s = s'" "?w = w'" using w'(1) by (auto simp: div_nat_eqI)
        then show ?thesis using f s' w' True by (simp add: sets_def)
      next
        case False
        then have "s' = ?s \<longrightarrow> w' \<noteq> ?w" by (metis div_mult_mod_eq)
        then have "sets ! s' ! w' = ip_sets p ! s' ! w'" using f s' s by (cases "s' = ?s") (simp_all add: sets_def)
        then show ?thesis using assms(1) s' w' False by (simp add: ip_filled_def)
      qed
    qed
    then show ?thesis using assms(1) by (simp add: ip_filled_def sets_def)
  qed
  ultimately show ?thesis by blast
qed

lemma ip_filled_full:
  assumes "ip_filled l (numEntries p) p"
  shows "ip_ok l p"
proof -
  let ?A = "unat (ip_assoc p)"
  have f: "l < 32" "ip_numSets p = 2 ^ l" "\<And>s. s < 2 ^ l \<Longrightarrow> length (ip_sets p ! s) = ?A"
    using assms by (simp_all add: ip_filled_def)
  have N: "numEntries p = 2 ^ l * ?A" using f by (simp add: numEntries_def unat_exp)
  have "ip_sets p ! s = map Some [s * ?A..<Suc s * ?A]" if s: "s < 2 ^ l" for s
  proof (rule nth_equalityI)
    show "length (ip_sets p ! s) = length (map Some [s * ?A..<Suc s * ?A])" using f(3) [OF s] by simp
    fix w
    assume "w < length (ip_sets p ! s)"
    then have w: "w < ?A" using f(3) [OF s] by simp
    have "s * ?A + w < Suc s * ?A" using w by simp
    also have "\<dots> \<le> 2 ^ l * ?A" using s by (intro mult_le_mono1) simp
    finally show "ip_sets p ! s ! w = map Some [s * ?A..<Suc s * ?A] ! w"
      using assms s w unfolding ip_filled_def N by simp
  qed
  then show ?thesis using assms unfolding ip_filled_def ip_ok_def by blast
qed

lemma unat_widen: "unat (ucast (x :: u32) :: u64) = unat x"
  using unsigned_less [of x, where ?'a = nat] by (simp add: unsigned_ucast_eq take_bit_nat_eq_self)

lemma new_policy:
  assumes "new_BaseIndexingPolicy sz bs assoc = Inr p"
  obtains l where "ip_filled l 0 p" "ip_assoc p = assoc" "floorLog2 (ucast bs) = Inr (ip_setShift p)" "ip_setShift p < 32"
    "ip_numSets p = ucast (sz div ucast (bs * assoc))" "bs * assoc \<noteq> 0"
proof -
  define n where "n = (ucast (sz div ucast (bs * assoc)) :: u32)"
  obtain sh bits where p: "bs * assoc \<noteq> 0" "floorLog2 (ucast bs) = Inr sh" "floorLog2 (ucast n) = Inr bits" "isPowerOf2 (ucast n)" "\<not> assoc \<le> 0"
    "p = \<lparr>ip_assoc = assoc, ip_numSets = n, ip_setShift = sh, ip_setMask = n - 1,
      ip_sets = replicate (unat n) (replicate (unat assoc) None), ip_tagShift = sh + bits\<rparr>"
    using assms by (auto simp: new_BaseIndexingPolicy_def Let_def n_def)
  obtain l where l: "l < 64" "(ucast n :: u64) = 2 ^ l" using p(4) by (auto simp: isPowerOf2_iff)
  have un: "unat n = 2 ^ l" using arg_cong [OF l(2), of unat] l(1) by (simp add: unat_exp unat_widen)
  have less32: "k < 32" if "2 ^ k \<le> unat x" for k and x :: u32
  proof -
    have "(2 :: nat) ^ k < 2 ^ 32" using that unsigned_less [of x, where ?'a = nat] by simp
    then show ?thesis by (rule power_less_imp_less_exp [rotated]) simp
  qed
  have l32: "l < 32" using less32 [of l n] un by simp
  have n: "n = 2 ^ l" using un l32 by (simp add: word_unat_eq_iff unat_exp)
  have bits: "bits = l" using floorLog2_unique [of l "ucast n"] l p(3) by (simp add: unat_exp)
  have "2 ^ sh \<le> unat (ucast bs :: u64)" using floorLog2_bounds [OF p(2)] by simp
  then have sh: "sh < 32" using less32 [of sh bs] by (simp add: unat_widen)
  have "ip_filled l 0 p" using p(5) l32 sh un by (simp add: ip_filled_def p(6) bits n mask_eq_exp_minus_1 word_gt_0)
  then show ?thesis using that [of l] p sh by (simp add: n_def)
qed

lemma new_skewed_policy:
  assumes "new_SkewedAssociative sz bs assoc = Inr p"
  obtains l where "ip_filled l 0 p" "2 \<le> l" "msbShift p = l - 1" "ip_assoc p = assoc" "floorLog2 (ucast bs) = Inr (ip_setShift p)"
    "ip_numSets p = ucast (sz div ucast (bs * assoc))" "bs * assoc \<noteq> 0"
proof -
  obtain b k where b: "new_BaseIndexingPolicy sz bs assoc = Inr b" "floorLog2 (ucast (ip_numSets b)) = Inr k" "\<not> ip_numSets b \<le> 2"
    "p = BaseIndexingPolicy.extend b \<lparr>msbShift = k - 1\<rparr>"
    using assms by (auto simp: new_SkewedAssociative_def)
  obtain l where l: "ip_filled l 0 b" "ip_assoc b = assoc" "floorLog2 (ucast bs) = Inr (ip_setShift b)"
    "ip_numSets b = ucast (sz div ucast (bs * assoc))" "bs * assoc \<noteq> 0" using new_policy [OF b(1)] by metis
  have n: "ip_numSets b = 2 ^ l" "l < 32" using l(1) by (simp_all add: ip_filled_def)
  have "unat (ucast (2 ^ l :: u32) :: u64) = 2 ^ l" using n(2) by (simp add: unat_widen unat_exp)
  then have "k = l" using floorLog2_unique [of l "ucast (2 ^ l :: u32)"] b(2) unfolding n(1) by simp
  moreover have "2 \<le> l"
  proof (rule ccontr)
    assume "\<not> 2 \<le> l"
    then have "l = 0 \<or> l = 1" by linarith
    then show False using b(3) n(1) by auto
  qed
  moreover have "ip_filled l 0 p" using l(1) by (simp add: b(4) ip_filled_def BaseIndexingPolicy.defs)
  ultimately show ?thesis using that [of l] l b(4) by (simp add: BaseIndexingPolicy.defs)
qed

end
