(* ===== verification/Cache_Blk.thy ===== *)
theory Cache_Blk
  imports HetSim_Prelude
begin

text \<open>
  The cache block of \<^verbatim>\<open>gem5/src/mem/cache/cache_blk.hh\<close>: its status bits, insertion and invalidation, and the list of
  load-locked reservations that decides whether a store conditional succeeds.  The theory shows that the outcome of a
  store conditional is what the reservation protocol promises, whatever the other contexts do in between.  The
  replacement data of a block is a parameter of its type; a null pointer and an uninitialised field are \<open>None\<close>.
\<close>

unbundle bit_operations_syntax

subsection \<open>Requests and packets, as far as a block reads them\<close>

record MemRequest =
  rq_paddr :: Addr
  rq_size :: u32
  rq_contextId :: "int option"
  rq_masterId :: u16
  rq_taskId :: u32

record CachePacket =
  pk_req :: MemRequest
  pk_addr :: Addr
  pk_isSecure :: bool
  pk_isWrite :: bool
  pk_isLLSC :: bool

definition contextId :: "MemRequest \<Rightarrow> int res" where
  "contextId r = (case rq_contextId r of None \<Rightarrow> Inl (AssertFail ''privateFlags.isSet(VALID_CONTEXT_ID)'') | Some c \<Rightarrow> Inr c)"

definition req_high :: "MemRequest \<Rightarrow> Addr" where
  "req_high r = rq_paddr r + ucast (rq_size r) - 1"

subsection \<open>Locks\<close>

record Lock =
  lk_contextId :: int
  lowAddr :: Addr
  highAddr :: Addr

definition new_Lock :: "MemRequest \<Rightarrow> Lock res" where
  "new_Lock r = rbind (contextId r) (\<lambda>c. Inr \<lparr>lk_contextId = c, lowAddr = rq_paddr r, highAddr = req_high r\<rparr>)"

definition lock_matches :: "Lock \<Rightarrow> MemRequest \<Rightarrow> bool res" where
  "lock_matches l r =
     (let req_low = rq_paddr r; high = req_high r in
      rbind (contextId r) (\<lambda>c. Inr (lk_contextId l = c \<and> req_low \<ge> lowAddr l \<and> high \<le> highAddr l)))"

definition intersects :: "Lock \<Rightarrow> MemRequest \<Rightarrow> bool" where
  "intersects l r \<longleftrightarrow> (let req_low = rq_paddr r; high = req_high r in req_low \<le> highAddr l \<and> high \<ge> lowAddr l)"

subsection \<open>The block\<close>

definition BlkValid :: u32 where "BlkValid = 0x01"

definition BlkWritable :: u32 where "BlkWritable = 0x02"

definition BlkReadable :: u32 where "BlkReadable = 0x04"

definition BlkDirty :: u32 where "BlkDirty = 0x08"

definition BlkHWPrefetched :: u32 where "BlkHWPrefetched = 0x20"

definition BlkSecure :: u32 where "BlkSecure = 0x40"

definition MaxAddr :: Addr where "MaxAddr = - 1"

definition MaxTick :: Tick where "MaxTick = 0xffffffffffffffff"

definition UnknownTaskId :: u32 where "UnknownTaskId = 1024"

definition NumTaskId :: u32 where "NumTaskId = 1025"

definition invldMasterId :: int where "invldMasterId = 65535"

record 'd CacheBlk =
  blk_pos :: "(u32 \<times> u32) option"
  replacementData :: "'d option"
  task_id :: u32
  blk_tag :: Addr
  blk_data :: "nat option"
  blk_status :: u32
  whenReady :: Tick
  blk_refCount :: u32
  srcMasterId :: int
  blk_tickInserted :: Tick
  lockList :: "Lock list"

definition isWritable :: "('d, 'x) CacheBlk_scheme \<Rightarrow> bool" where
  "isWritable b \<longleftrightarrow> (let needed_bits = BlkWritable OR BlkValid in blk_status b AND needed_bits = needed_bits)"

definition isReadable :: "('d, 'x) CacheBlk_scheme \<Rightarrow> bool" where
  "isReadable b \<longleftrightarrow> (let needed_bits = BlkReadable OR BlkValid in blk_status b AND needed_bits = needed_bits)"

definition isValid :: "('d, 'x) CacheBlk_scheme \<Rightarrow> bool" where
  "isValid b \<longleftrightarrow> blk_status b AND BlkValid \<noteq> 0"

definition blk_invalidate :: "('d, 'x) CacheBlk_scheme \<Rightarrow> ('d, 'x) CacheBlk_scheme" where
  "blk_invalidate b = b\<lparr>blk_tag := MaxAddr, task_id := UnknownTaskId, blk_status := 0, whenReady := MaxTick,
     blk_refCount := 0, srcMasterId := invldMasterId, lockList := []\<rparr>"

definition new_CacheBlk :: "'d CacheBlk" where
  "new_CacheBlk = blk_invalidate \<lparr>blk_pos = None, replacementData = None, task_id = 0, blk_tag = 0, blk_data = None,
     blk_status = 0, whenReady = 0, blk_refCount = 0, srcMasterId = 0, blk_tickInserted = 0, lockList = []\<rparr>"

definition isDirty :: "('d, 'x) CacheBlk_scheme \<Rightarrow> bool" where
  "isDirty b \<longleftrightarrow> blk_status b AND BlkDirty \<noteq> 0"

definition wasPrefetched :: "('d, 'x) CacheBlk_scheme \<Rightarrow> bool" where
  "wasPrefetched b \<longleftrightarrow> blk_status b AND BlkHWPrefetched \<noteq> 0"

definition isSecure :: "('d, 'x) CacheBlk_scheme \<Rightarrow> bool" where
  "isSecure b \<longleftrightarrow> blk_status b AND BlkSecure \<noteq> 0"

definition setValid :: "('d, 'x) CacheBlk_scheme \<Rightarrow> ('d, 'x) CacheBlk_scheme res" where
  "setValid b = require (\<not> isValid b) (AssertFail ''!isValid()'') (Inr (b\<lparr>blk_status := blk_status b OR BlkValid\<rparr>))"

definition setSecure :: "('d, 'x) CacheBlk_scheme \<Rightarrow> ('d, 'x) CacheBlk_scheme" where
  "setSecure b = b\<lparr>blk_status := blk_status b OR BlkSecure\<rparr>"

definition getWhenReady :: "('d, 'x) CacheBlk_scheme \<Rightarrow> Tick res" where
  "getWhenReady b = require (whenReady b \<noteq> MaxTick) (AssertFail ''whenReady != MaxTick'') (Inr (whenReady b))"

definition setWhenReady :: "Tick \<Rightarrow> ('d, 'x) CacheBlk_scheme \<Rightarrow> ('d, 'x) CacheBlk_scheme res" where
  "setWhenReady t b = require (t \<ge> blk_tickInserted b) (AssertFail ''tick >= tickInserted'') (Inr (b\<lparr>whenReady := t\<rparr>))"

definition blk_insert :: "Tick \<Rightarrow> Addr \<Rightarrow> bool \<Rightarrow> int \<Rightarrow> u32 \<Rightarrow> ('d, 'x) CacheBlk_scheme \<Rightarrow> ('d, 'x) CacheBlk_scheme res" where
  "blk_insert now tg is_secure src_master_ID task_ID b =
     require (blk_status b = 0) (AssertFail ''status == 0'')
     (let b1 = b\<lparr>blk_tag := tg, srcMasterId := src_master_ID, task_id := task_ID, blk_tickInserted := now, blk_refCount := 1\<rparr> in
      setValid (if is_secure then setSecure b1 else b1))"

text \<open>The letter \<^verbatim>\<open>print\<close> gives a block.\<close>

definition state_letter :: "('d, 'x) CacheBlk_scheme \<Rightarrow> char" where
  "state_letter b =
     (let state = push_bit 2 (of_bool (isWritable b)) OR push_bit 1 (of_bool (isDirty b)) OR of_bool (isValid b) :: u32 in
      if state = 7 then CHR ''M'' else if state = 3 then CHR ''O'' else if state = 5 then CHR ''E''
      else if state = 1 then CHR ''S'' else if state = 0 then CHR ''I'' else CHR ''T'')"

subsection \<open>Load locked and store conditional\<close>

definition trackLoadLocked :: "CachePacket \<Rightarrow> ('d, 'x) CacheBlk_scheme \<Rightarrow> ('d, 'x) CacheBlk_scheme res" where
  "trackLoadLocked pkt b =
     require (pk_isLLSC pkt) (AssertFail ''pkt->isLLSC()'')
     (rbind (new_Lock (pk_req pkt)) (\<lambda>l.
      Inr (b\<lparr>lockList := l # filter (\<lambda>k. \<not> intersects k (pk_req pkt)) (lockList b)\<rparr>)))"

fun clear_locks :: "MemRequest \<Rightarrow> Lock list \<Rightarrow> Lock list res" where
  "clear_locks r [] = Inr []"
| "clear_locks r (l # ls) =
     rbind (if intersects l r then rbind (contextId r) (\<lambda>c. Inr (lk_contextId l \<noteq> c)) else Inr False) (\<lambda>erase.
     rbind (clear_locks r ls) (\<lambda>rs. Inr (if erase then rs else l # rs)))"

definition clearLoadLocks :: "MemRequest \<Rightarrow> ('d, 'x) CacheBlk_scheme \<Rightarrow> ('d, 'x) CacheBlk_scheme res" where
  "clearLoadLocks r b = rbind (clear_locks r (lockList b)) (\<lambda>ls. Inr (b\<lparr>lockList := ls\<rparr>))"

text \<open>The search of a store conditional: whether a lock matched, and the list without it.\<close>

fun take_lock :: "MemRequest \<Rightarrow> Lock list \<Rightarrow> (bool \<times> Lock list) res" where
  "take_lock r [] = Inr (False, [])"
| "take_lock r (l # ls) =
     rbind (lock_matches l r) (\<lambda>m. if m then Inr (True, ls) else rbind (take_lock r ls) (\<lambda>(s, rs). Inr (s, l # rs)))"

text \<open>Returns whether the write may proceed, and the extra data set in the request.\<close>

definition checkWrite ::
  "CachePacket \<Rightarrow> ('d, 'x) CacheBlk_scheme \<Rightarrow> (bool \<times> u64 option \<times> ('d, 'x) CacheBlk_scheme) res" where
  "checkWrite pkt b =
     require (pk_isWrite pkt) (AssertFail ''pkt->isWrite()'')
     (if \<not> pk_isLLSC pkt \<and> lockList b = [] then Inr (True, None, b)
      else if pk_isLLSC pkt
        then rbind (take_lock (pk_req pkt) (lockList b)) (\<lambda>(success, ls).
             rbind (clearLoadLocks (pk_req pkt) (b\<lparr>lockList := ls\<rparr>)) (\<lambda>b1.
             Inr (success, Some (if success then 1 else 0), b1)))
      else rbind (clearLoadLocks (pk_req pkt) b) (\<lambda>b1. Inr (True, None, b1)))"

subsection \<open>The temporary block\<close>

record 'd TempCacheBlk = "'d CacheBlk" +
  temp_addr :: "Addr option"

definition new_TempCacheBlk :: "'d TempCacheBlk" where
  "new_TempCacheBlk = CacheBlk.extend (new_CacheBlk\<lparr>blk_data := Some 0\<rparr>) \<lparr>temp_addr = None\<rparr>"

definition temp_invalidate :: "'d TempCacheBlk \<Rightarrow> 'd TempCacheBlk" where
  "temp_invalidate b = (blk_invalidate b)\<lparr>temp_addr := Some MaxAddr\<rparr>"

definition temp_insert :: "Addr \<Rightarrow> bool \<Rightarrow> 'd TempCacheBlk \<Rightarrow> 'd TempCacheBlk res" where
  "temp_insert addr is_secure b =
     require (blk_status b = 0) (AssertFail ''status == 0'')
     (let b1 = b\<lparr>temp_addr := Some addr\<rparr> in setValid (if is_secure then setSecure b1 else b1))"

subsection \<open>Status bits\<close>

lemmas status_defs = BlkValid_def BlkWritable_def BlkReadable_def BlkDirty_def BlkHWPrefetched_def BlkSecure_def

lemma blk_insert_ok:
  assumes "blk_status b = 0"
  shows "\<exists>b1. blk_insert now tg sec m t b = Inr b1 \<and> isValid b1 \<and> isSecure b1 = sec \<and> blk_tag b1 = tg \<and> srcMasterId b1 = m \<and>
    blk_pos b1 = blk_pos b \<and> replacementData b1 = replacementData b \<and> blk_refCount b1 = 1 \<and> task_id b1 = t \<and>
    blk_tickInserted b1 = now \<and> lockList b1 = lockList b \<and> blk_data b1 = blk_data b"
  using assms
  by (simp add: blk_insert_def setValid_def setSecure_def isValid_def isSecure_def status_defs Let_def bit.conj_disj_distrib2)

lemma blk_invalidate_simps [simp]:
  "blk_status (blk_invalidate b) = 0" "\<not> isValid (blk_invalidate b)" "blk_pos (blk_invalidate b) = blk_pos b"
  "replacementData (blk_invalidate b) = replacementData b" "lockList (blk_invalidate b) = []"
  by (simp_all add: blk_invalidate_def isValid_def)

lemma state_letter_table:
  "state_letter b =
     (if isValid b then (if isDirty b then (if isWritable b then CHR ''M'' else CHR ''O'')
                         else (if isWritable b then CHR ''E'' else CHR ''S''))
      else if isDirty b then CHR ''T'' else CHR ''I'')"
proof -
  have "isWritable b \<longrightarrow> isValid b"
  proof
    assume w: "isWritable b"
    have "bit (blk_status b AND 3) 0" using w by (simp add: isWritable_def status_defs)
    then have "bit (blk_status b AND 1) 0" by (simp add: bit_and_iff)
    then show "isValid b" by (auto simp: isValid_def status_defs)
  qed
  then show ?thesis by (auto simp: state_letter_def Let_def)
qed

subsection \<open>Reservations\<close>

definition of_ctx :: "int \<Rightarrow> Lock list \<Rightarrow> Lock list" where
  "of_ctx c ls = filter (\<lambda>l. lk_contextId l = c) ls"

lemma of_ctx_filter: "of_ctx c (l # filter Q ls) = (if lk_contextId l = c then [l] else []) @ filter Q (of_ctx c ls)"
  by (auto simp: of_ctx_def intro: filter_cong)

lemma clear_locks_eq:
  "contextId r = Inr d \<Longrightarrow> clear_locks r ls = Inr (filter (\<lambda>l. \<not> (intersects l r \<and> lk_contextId l \<noteq> d)) ls)"
  by (induction ls) auto

lemma take_lock_spec:
  assumes "contextId r = Inr d"
  shows "\<exists>s rs. take_lock r ls = Inr (s, rs) \<and>
    (s \<longleftrightarrow> (\<exists>l\<in>set ls. lk_contextId l = d \<and> lowAddr l \<le> rq_paddr r \<and> req_high r \<le> highAddr l)) \<and>
    (\<forall>c. c \<noteq> d \<longrightarrow> of_ctx c rs = of_ctx c ls)"
  using assms by (induction ls) (auto simp: lock_matches_def of_ctx_def)

lemma clearLoadLocks_eq:
  "contextId r = Inr d \<Longrightarrow> clearLoadLocks r b = Inr (b\<lparr>lockList := filter (\<lambda>l. \<not> (intersects l r \<and> lk_contextId l \<noteq> d)) (lockList b)\<rparr>)"
  by (simp add: clearLoadLocks_def clear_locks_eq)

lemma checkWrite_conditional:
  assumes "pk_isWrite q" "pk_isLLSC q" "contextId (pk_req q) = Inr d" "take_lock (pk_req q) (lockList b) = Inr (s, rs)"
  shows "checkWrite q b = Inr (s, Some (if s then 1 else 0),
    b\<lparr>lockList := filter (\<lambda>l. \<not> (intersects l (pk_req q) \<and> lk_contextId l \<noteq> d)) rs\<rparr>)"
  using assms by (simp add: checkWrite_def clearLoadLocks_eq)

lemma checkWrite_plain:
  assumes "pk_isWrite q" "\<not> pk_isLLSC q" "contextId (pk_req q) = Inr d"
  shows "checkWrite q b = Inr (True, None, b\<lparr>lockList := filter (\<lambda>l. \<not> (intersects l (pk_req q) \<and> lk_contextId l \<noteq> d)) (lockList b)\<rparr>)"
  using assms by (cases "lockList b") (simp_all add: checkWrite_def clearLoadLocks_eq)

datatype lock_op = LoadLocked CachePacket | StoreOp CachePacket

primrec op_req :: "lock_op \<Rightarrow> MemRequest" where
  "op_req (LoadLocked p) = pk_req p"
| "op_req (StoreOp p) = pk_req p"

primrec lock_step :: "lock_op \<Rightarrow> 'd CacheBlk \<Rightarrow> 'd CacheBlk res" where
  "lock_step (LoadLocked p) b = trackLoadLocked p b"
| "lock_step (StoreOp p) b = rbind (checkWrite p b) (\<lambda>(s, x, b1). Inr b1)"

primrec lock_steps :: "lock_op list \<Rightarrow> 'd CacheBlk \<Rightarrow> 'd CacheBlk res" where
  "lock_steps [] b = Inr b"
| "lock_steps (p # ps) b = rbind (lock_step p b) (lock_steps ps)"

definition op_ok :: "int \<Rightarrow> lock_op \<Rightarrow> bool" where
  "op_ok c p \<longleftrightarrow> (\<exists>d. d \<noteq> c \<and> rq_contextId (op_req p) = Some d) \<and>
     (case p of LoadLocked q \<Rightarrow> pk_isLLSC q | StoreOp q \<Rightarrow> pk_isWrite q)"

text \<open>What another context does to the reservations of a context is to remove the ones it intersects.\<close>

lemma lock_step_other:
  assumes "op_ok c p"
  shows "\<exists>b1. lock_step p b = Inr b1 \<and>
    of_ctx c (lockList b1) = filter (\<lambda>l. \<not> intersects l (op_req p)) (of_ctx c (lockList b))"
proof -
  obtain d where d: "d \<noteq> c" "contextId (op_req p) = Inr d" using assms by (auto simp: op_ok_def contextId_def)
  have clear: "of_ctx c (filter (\<lambda>l. \<not> (intersects l r \<and> lk_contextId l \<noteq> d)) ls) = filter (\<lambda>l. \<not> intersects l r) (of_ctx c ls)"
    for r ls using d(1) by (induction ls) (auto simp: of_ctx_def)
  show ?thesis
  proof (cases p)
    case (LoadLocked q)
    then show ?thesis
      using assms d by (simp add: op_ok_def trackLoadLocked_def new_Lock_def of_ctx_filter)
  next
    case (StoreOp q)
    then have q: "pk_isWrite q" "contextId (pk_req q) = Inr d" using assms d by (auto simp: op_ok_def)
    obtain s rs where t: "take_lock (pk_req q) (lockList b) = Inr (s, rs)" "of_ctx c rs = of_ctx c (lockList b)"
      using take_lock_spec [OF q(2), of "lockList b"] d(1) [symmetric] by blast
    show ?thesis
    proof (cases "pk_isLLSC q")
      case True
      then show ?thesis using StoreOp checkWrite_conditional [OF q(1) True q(2) t(1)] t(2) clear by simp
    next
      case False
      then show ?thesis using StoreOp checkWrite_plain [OF q(1) False q(2), of b] clear by simp
    qed
  qed
qed

lemma lock_steps_other:
  assumes "\<forall>p\<in>set ps. op_ok c p"
  shows "\<exists>b1. lock_steps ps b = Inr b1 \<and>
    of_ctx c (lockList b1) = filter (\<lambda>l. \<forall>p\<in>set ps. \<not> intersects l (op_req p)) (of_ctx c (lockList b))"
  using assms
proof (induction ps arbitrary: b)
  case (Cons p ps)
  obtain b1 where b1: "lock_step p b = Inr b1"
    "of_ctx c (lockList b1) = filter (\<lambda>l. \<not> intersects l (op_req p)) (of_ctx c (lockList b))"
    using lock_step_other [of c p b] Cons.prems by auto
  obtain b2 where "lock_steps ps b1 = Inr b2"
    "of_ctx c (lockList b2) = filter (\<lambda>l. \<forall>p\<in>set ps. \<not> intersects l (op_req p)) (of_ctx c (lockList b1))"
    using Cons.IH [of b1] Cons.prems by auto
  then show ?case using b1 by (auto simp: filter_filter conj_commute)
qed (simp add: of_ctx_def)

text \<open>C40: Load locked and store conditional.  After a context has load-locked a range of a block, let other contexts
  make any sequence of load-locked accesses, stores and store conditionals on the block.  A store conditional of the
  first context to (a part of) the range then succeeds, and reports 1 in the request, exactly when none of the accesses
  in between overlapped the locked range.\<close>

theorem store_conditional_outcome:
  assumes "pk_isLLSC ll" "rq_contextId (pk_req ll) = Some c" "\<forall>p\<in>set ps. op_ok c p"
    and sc: "pk_isLLSC sc" "pk_isWrite sc" "rq_contextId (pk_req sc) = Some c"
    and range: "rq_paddr (pk_req ll) \<le> rq_paddr (pk_req sc)" "rq_paddr (pk_req sc) \<le> req_high (pk_req sc)"
      "req_high (pk_req sc) \<le> req_high (pk_req ll)"
  shows "\<exists>b1 b2 b3 success. trackLoadLocked ll b = Inr b1 \<and> lock_steps ps b1 = Inr b2 \<and>
    checkWrite sc b2 = Inr (success, Some (if success then 1 else 0), b3) \<and>
    (success \<longleftrightarrow> (\<forall>p\<in>set ps. \<not> intersects \<lparr>lk_contextId = c, lowAddr = rq_paddr (pk_req ll), highAddr = req_high (pk_req ll)\<rparr> (op_req p)))"
proof -
  let ?L = "\<lparr>lk_contextId = c, lowAddr = rq_paddr (pk_req ll), highAddr = req_high (pk_req ll)\<rparr>"
  define b1 where "b1 = b\<lparr>lockList := ?L # filter (\<lambda>k. \<not> intersects k (pk_req ll)) (lockList b)\<rparr>"
  have 1: "trackLoadLocked ll b = Inr b1" using assms(1,2) by (simp add: trackLoadLocked_def new_Lock_def contextId_def b1_def)
  obtain b2 where b2: "lock_steps ps b1 = Inr b2"
    "of_ctx c (lockList b2) = filter (\<lambda>l. \<forall>p\<in>set ps. \<not> intersects l (op_req p)) (of_ctx c (lockList b1))"
    using lock_steps_other [OF assms(3), of b1] by blast
  have c: "contextId (pk_req sc) = Inr c" using sc(3) by (simp add: contextId_def)
  obtain s rs where t: "take_lock (pk_req sc) (lockList b2) = Inr (s, rs)"
    "s \<longleftrightarrow> (\<exists>l\<in>set (lockList b2). lk_contextId l = c \<and> lowAddr l \<le> rq_paddr (pk_req sc) \<and> req_high (pk_req sc) \<le> highAddr l)"
    using take_lock_spec [OF c, of "lockList b2"] by blast
  have mem: "l \<in> set (lockList b2) \<and> lk_contextId l = c \<longleftrightarrow>
      l \<in> set (lockList b1) \<and> lk_contextId l = c \<and> (\<forall>p\<in>set ps. \<not> intersects l (op_req p))" for l
    using arg_cong [OF b2(2), of "\<lambda>ls. l \<in> set ls"] by (auto simp: of_ctx_def)
  have only: "l = ?L" if "l \<in> set (lockList b1)" "lowAddr l \<le> rq_paddr (pk_req sc)" "req_high (pk_req sc) \<le> highAddr l" for l
    using that range by (auto simp: b1_def intersects_def)
  have "s \<longleftrightarrow> (\<forall>p\<in>set ps. \<not> intersects ?L (op_req p))"
  proof
    assume s
    then obtain l where "l \<in> set (lockList b2)" "lk_contextId l = c" "lowAddr l \<le> rq_paddr (pk_req sc)"
      "req_high (pk_req sc) \<le> highAddr l" using t(2) by blast
    moreover from this have "l = ?L" using mem [of l] by (intro only) simp_all
    ultimately show "\<forall>p\<in>set ps. \<not> intersects ?L (op_req p)" using mem [of l] by simp
  next
    assume "\<forall>p\<in>set ps. \<not> intersects ?L (op_req p)"
    moreover have "?L \<in> set (lockList b1)" by (simp add: b1_def)
    ultimately have "?L \<in> set (lockList b2)" using mem [of ?L] by simp
    then show s using t(2) range by (intro iffD2 [OF t(2)] bexI [of _ ?L]) simp_all
  qed
  then show ?thesis
    using 1 b2(1) checkWrite_conditional [OF sc(2,1) c t(1)] by blast
qed

definition demo_access :: "Addr \<Rightarrow> int \<Rightarrow> bool \<Rightarrow> bool \<Rightarrow> CachePacket" where
  "demo_access a c w llsc = \<lparr>pk_req = \<lparr>rq_paddr = a, rq_size = 4, rq_contextId = Some c, rq_masterId = 0, rq_taskId = 0\<rparr>,
     pk_addr = a, pk_isSecure = False, pk_isWrite = w, pk_isLLSC = llsc\<rparr>"

lemma demo_access_simps:
  "pk_isWrite (demo_access a c w x) = w" "pk_isLLSC (demo_access a c w x) = x"
  "rq_contextId (pk_req (demo_access a c w x)) = Some c" "rq_paddr (pk_req (demo_access a c w x)) = a"
  "req_high (pk_req (demo_access 64 c w x)) = 67"
  by (simp_all add: demo_access_def req_high_def)

theorem store_conditional_outcome_witness:
  "\<exists>b1 b2 b3 s. trackLoadLocked (demo_access 64 0 False True) (new_CacheBlk :: unit CacheBlk) = Inr b1 \<and>
     lock_steps [StoreOp (demo_access 64 1 True False)] b1 = Inr b2 \<and>
     checkWrite (demo_access 64 0 True True) b2 = Inr (s, Some (if s then 1 else 0), b3) \<and> (s \<longleftrightarrow> False)"
proof -
  have o: "(\<forall>p\<in>set [StoreOp (demo_access 64 1 True False)]. \<not> intersects
      \<lparr>lk_contextId = 0, lowAddr = rq_paddr (pk_req (demo_access 64 0 False True)),
       highAddr = req_high (pk_req (demo_access 64 0 False True))\<rparr> (op_req p)) \<longleftrightarrow> False"
    by (simp add: demo_access_simps intersects_def)
  have ops: "\<forall>p\<in>set [StoreOp (demo_access 64 1 True False)]. op_ok 0 p" by (simp add: op_ok_def demo_access_simps)
  have "rq_paddr (pk_req (demo_access 64 0 False True)) \<le> rq_paddr (pk_req (demo_access 64 0 True True))"
    "rq_paddr (pk_req (demo_access 64 0 True True)) \<le> req_high (pk_req (demo_access 64 0 True True))"
    "req_high (pk_req (demo_access 64 0 True True)) \<le> req_high (pk_req (demo_access 64 0 False True))"
    by (simp_all add: demo_access_simps)
  then show ?thesis
    using store_conditional_outcome [OF _ _ ops, of "demo_access 64 0 False True" "demo_access 64 0 True True" new_CacheBlk]
    unfolding o demo_access_simps(1-3) by blast
qed

end
