(* ===== verification/Cache_Tags.thy ===== *)
theory Cache_Tags
  imports Cache_Blk Replacement Indexing
begin

text \<open>
  The tag store of \<^verbatim>\<open>gem5/src/mem/cache/tags\<close>: \<^verbatim>\<open>BaseTags\<close> and \<^verbatim>\<open>BaseSetAssoc\<close>, over any indexing policy and any replacement
  policy that keep their data in the block.  A block is named by its position in \<^verbatim>\<open>blks\<close>.  The counters of the
  statistics package are integers, the ticks and random draws are arguments.  The locale \<open>tag_store\<close> joins the contracts
  of the two policies; its lemmas show that the store is a finite map from block addresses to blocks.
\<close>

unbundle bit_operations_syntax

record 'p idx_ops =
  ix_possible :: "Addr \<Rightarrow> 'p \<Rightarrow> nat option list res"
  ix_regen :: "Addr \<Rightarrow> u32 \<Rightarrow> u32 \<Rightarrow> 'p \<Rightarrow> Addr res"

definition sa_index :: "BaseIndexingPolicy idx_ops" where
  "sa_index = \<lparr>ix_possible = sa_getPossibleEntries, ix_regen = (\<lambda>t s w p. Inr (sa_regenerateAddr t s w p))\<rparr>"

definition sk_index :: "SkewedAssociative idx_ops" where
  "sk_index = \<lparr>ix_possible = sk_getPossibleEntries, ix_regen = sk_regenerateAddr\<rparr>"

record BaseTagStats =
  tagsInUse :: int
  totalRefs :: int
  sampledRefs :: int
  warmupCycle :: Tick
  occupancies :: "int list"
  occupanciesTaskId :: "int list"
  ageTaskId :: "int list list"
  tagAccesses :: int
  dataAccesses :: int

record ('p, 'd) BaseSetAssoc =
  ts_blkSize :: u32
  blkMask :: Addr
  lookupLatency :: u64
  maxMasters :: nat
  indexingPolicy :: 'p
  warmupBound :: u32
  warmedUp :: bool
  numBlocks :: u32
  ts_stats :: BaseTagStats
  allocAssoc :: u32
  blks :: "'d CacheBlk list"
  sequentialAccess :: bool

subsection \<open>Construction\<close>

text \<open>The warm-up bound is a product of floating-point numbers and is passed in.\<close>

definition new_BaseSetAssoc ::
  "u64 \<Rightarrow> u32 \<Rightarrow> u64 \<Rightarrow> nat \<Rightarrow> 'p \<Rightarrow> u32 \<Rightarrow> u32 \<Rightarrow> bool \<Rightarrow> ('p, 'd) BaseSetAssoc res" where
  "new_BaseSetAssoc sz block_size tag_latency masters policy warm assoc sequential =
     require (block_size \<noteq> 0) (Undefined ''division by zero'')
     (require (\<not> (block_size < 4 \<or> \<not> isPowerOf2 (ucast block_size))) (Fatal ''Block size must be at least 4 and a power of 2'')
      (Inr \<lparr>ts_blkSize = block_size, blkMask = ucast (block_size - 1), lookupLatency = tag_latency, maxMasters = masters,
            indexingPolicy = policy, warmupBound = warm, warmedUp = False,
            numBlocks = ucast (sz div word_of_int (sint block_size)),
            ts_stats = \<lparr>tagsInUse = 0, totalRefs = 0, sampledRefs = 0, warmupCycle = 0, occupancies = replicate masters 0,
              occupanciesTaskId = replicate (unat NumTaskId) 0, ageTaskId = replicate (unat NumTaskId) (replicate 5 0),
              tagAccesses = 0, dataAccesses = 0\<rparr>,
            allocAssoc = assoc, blks = replicate (unat (sz div word_of_int (sint block_size))) new_CacheBlk,
            sequentialAccess = sequential\<rparr>))"

fun init_blks :: "'d repl_ops \<Rightarrow> nat list \<Rightarrow> ('x BaseIndexingPolicy_scheme, 'd) BaseSetAssoc \<Rightarrow>
    ('x BaseIndexingPolicy_scheme, 'd) BaseSetAssoc res" where
  "init_blks P [] t = Inr t"
| "init_blks P (i # is) t =
     rbind (vec_at (blks t) i) (\<lambda>b.
     rbind (setEntry i (of_nat i) (indexingPolicy t)) (\<lambda>(s, w, p).
     rbind (r_instantiateEntry P) (\<lambda>d.
     let b1 = b\<lparr>blk_pos := Some (s, w), blk_data := Some (unat (ts_blkSize t * of_nat i)), replacementData := Some d\<rparr> in
     init_blks P is (t\<lparr>indexingPolicy := p, blks := (blks t)[i := b1]\<rparr>))))"

definition tagsInit :: "'d repl_ops \<Rightarrow> ('x BaseIndexingPolicy_scheme, 'd) BaseSetAssoc \<Rightarrow>
    ('x BaseIndexingPolicy_scheme, 'd) BaseSetAssoc res" where
  "tagsInit P t = init_blks P [0..<unat (numBlocks t)] t"

subsection \<open>Lookup\<close>

definition findBlockBySetAndWay :: "u32 \<Rightarrow> u32 \<Rightarrow> ('x BaseIndexingPolicy_scheme, 'd) BaseSetAssoc \<Rightarrow> nat option res" where
  "findBlockBySetAndWay s w t = getEntry s w (indexingPolicy t)"

fun find_in :: "Addr \<Rightarrow> bool \<Rightarrow> 'd CacheBlk list \<Rightarrow> nat option list \<Rightarrow> nat option res" where
  "find_in tg is_secure bs [] = Inr None"
| "find_in tg is_secure bs (None # es) = Inl (Undefined ''null pointer'')"
| "find_in tg is_secure bs (Some e # es) =
     rbind (vec_at bs e) (\<lambda>b.
     if blk_tag b = tg \<and> isValid b \<and> isSecure b = is_secure then Inr (Some e) else find_in tg is_secure bs es)"

definition findBlock :: "'x BaseIndexingPolicy_scheme idx_ops \<Rightarrow> Addr \<Rightarrow> bool \<Rightarrow>
    ('x BaseIndexingPolicy_scheme, 'd) BaseSetAssoc \<Rightarrow> nat option res" where
  "findBlock I addr is_secure t =
     (let tg = extractTag addr (indexingPolicy t) in
      rbind (ix_possible I addr (indexingPolicy t)) (\<lambda>entries. find_in tg is_secure (blks t) entries))"

definition regenerateBlkAddr :: "'x BaseIndexingPolicy_scheme idx_ops \<Rightarrow> nat \<Rightarrow>
    ('x BaseIndexingPolicy_scheme, 'd) BaseSetAssoc \<Rightarrow> Addr res" where
  "regenerateBlkAddr I e t =
     rbind (vec_at (blks t) e) (\<lambda>b.
     case blk_pos b of None \<Rightarrow> Inl (Undefined ''position not set'') | Some (s, w) \<Rightarrow> ix_regen I (blk_tag b) s w (indexingPolicy t))"

definition blkAlign :: "Addr \<Rightarrow> ('p, 'd) BaseSetAssoc \<Rightarrow> Addr" where
  "blkAlign addr t = addr AND NOT (blkMask t)"

definition extractBlkOffset :: "Addr \<Rightarrow> ('p, 'd) BaseSetAssoc \<Rightarrow> int" where
  "extractBlkOffset addr t = sint (ucast (addr AND blkMask t) :: u32)"

subsection \<open>Access, insertion, invalidation and victims\<close>

definition on_data :: "('d \<Rightarrow> 'd) \<Rightarrow> 'd CacheBlk \<Rightarrow> 'd CacheBlk res" where
  "on_data f b =
     (case replacementData b of None \<Rightarrow> Inl (Undefined ''null pointer'') | Some d \<Rightarrow> Inr (b\<lparr>replacementData := Some (f d)\<rparr>))"

definition on_stats :: "(BaseTagStats \<Rightarrow> BaseTagStats) \<Rightarrow> ('p, 'd) BaseSetAssoc \<Rightarrow> ('p, 'd) BaseSetAssoc" where
  "on_stats f t = t\<lparr>ts_stats := f (ts_stats t)\<rparr>"

definition on_blk :: "nat \<Rightarrow> ('d CacheBlk \<Rightarrow> 'd CacheBlk res) \<Rightarrow> ('p, 'd) BaseSetAssoc \<Rightarrow> ('p, 'd) BaseSetAssoc res" where
  "on_blk e f t = rbind (vec_at (blks t) e) (\<lambda>b. rbind (f b) (\<lambda>b1. Inr (t\<lparr>blks := (blks t)[e := b1]\<rparr>)))"

definition accessBlock :: "'x BaseIndexingPolicy_scheme idx_ops \<Rightarrow> 'd repl_ops \<Rightarrow> Tick \<Rightarrow> Addr \<Rightarrow> bool \<Rightarrow>
    ('x BaseIndexingPolicy_scheme, 'd) BaseSetAssoc \<Rightarrow> (nat option \<times> u64 \<times> ('x BaseIndexingPolicy_scheme, 'd) BaseSetAssoc) res" where
  "accessBlock I P now addr is_secure t =
     rbind (findBlock I addr is_secure t) (\<lambda>blk.
     let t1 = on_stats (\<lambda>s. s\<lparr>tagAccesses := tagAccesses s + uint (allocAssoc t),
           dataAccesses := dataAccesses s +
             (if sequentialAccess t then (if blk \<noteq> None then 1 else 0) else uint (allocAssoc t))\<rparr>) t in
     rbind (case blk of None \<Rightarrow> Inr t1
            | Some e \<Rightarrow> on_blk e (\<lambda>b. on_data (r_touch P now) (b\<lparr>blk_refCount := blk_refCount b + 1\<rparr>)) t1)
       (\<lambda>t2. Inr (blk, lookupLatency t, t2)))"

definition base_insertBlock :: "Tick \<Rightarrow> CachePacket \<Rightarrow> nat \<Rightarrow> ('x BaseIndexingPolicy_scheme, 'd) BaseSetAssoc \<Rightarrow>
    ('x BaseIndexingPolicy_scheme, 'd) BaseSetAssoc res" where
  "base_insertBlock now pkt e t =
     rbind (vec_at (blks t) e) (\<lambda>b.
     require (\<not> isValid b) (AssertFail ''!blk->isValid()'')
     (let master_id = rq_masterId (pk_req pkt) in
      require (unat master_id < maxMasters t) (AssertFail ''master_id < system->maxMasters()'')
      (rbind (vec_upd (unat master_id) (\<lambda>n. n + 1) (occupancies (ts_stats t))) (\<lambda>occ.
       rbind (on_blk e (blk_insert now (extractTag (pk_addr pkt) (indexingPolicy t)) (pk_isSecure pkt) (uint master_id)
                (rq_taskId (pk_req pkt))) (on_stats (\<lambda>s. s\<lparr>occupancies := occ\<rparr>) t)) (\<lambda>t1.
       let warm = \<not> warmedUp t1 \<and> tagsInUse (ts_stats t1) \<ge> uint (warmupBound t1);
           t2 = (if warm then on_stats (\<lambda>s. s\<lparr>warmupCycle := now\<rparr>) (t1\<lparr>warmedUp := True\<rparr>) else t1) in
       Inr (on_stats (\<lambda>s. s\<lparr>tagAccesses := tagAccesses s + 1, dataAccesses := dataAccesses s + 1\<rparr>) t2))))))"

definition insertBlock :: "'d repl_ops \<Rightarrow> Tick \<Rightarrow> nat \<Rightarrow> CachePacket \<Rightarrow> nat \<Rightarrow> ('x BaseIndexingPolicy_scheme, 'd) BaseSetAssoc \<Rightarrow>
    ('x BaseIndexingPolicy_scheme, 'd) BaseSetAssoc res" where
  "insertBlock P now k pkt e t =
     rbind (base_insertBlock now pkt e t) (\<lambda>t1.
     on_blk e (on_data (r_reset P now k)) (on_stats (\<lambda>s. s\<lparr>tagsInUse := tagsInUse s + 1\<rparr>) t1))"

definition base_invalidate :: "nat \<Rightarrow> ('p, 'd) BaseSetAssoc \<Rightarrow> ('p, 'd) BaseSetAssoc res" where
  "base_invalidate e t =
     rbind (vec_at (blks t) e) (\<lambda>b.
     require (isValid b) (AssertFail ''blk->isValid()'')
     (require (0 \<le> srcMasterId b) (Undefined ''vector index'')
      (rbind (vec_upd (nat (srcMasterId b)) (\<lambda>n. n - 1) (occupancies (ts_stats t))) (\<lambda>occ.
       on_blk e (\<lambda>b. Inr (blk_invalidate b))
         (on_stats (\<lambda>s. s\<lparr>occupancies := occ, totalRefs := totalRefs s + uint (blk_refCount b), sampledRefs := sampledRefs s + 1\<rparr>) t)))))"

definition ts_invalidate :: "'d repl_ops \<Rightarrow> nat \<Rightarrow> ('p, 'd) BaseSetAssoc \<Rightarrow> ('p, 'd) BaseSetAssoc res" where
  "ts_invalidate P e t =
     rbind (base_invalidate e t) (\<lambda>t1.
     on_blk e (on_data (r_invalidate P)) (on_stats (\<lambda>s. s\<lparr>tagsInUse := tagsInUse s - 1\<rparr>) t1))"

text \<open>The candidates of a replacement and their data.\<close>

fun candidates :: "'d CacheBlk list \<Rightarrow> nat option list \<Rightarrow> (nat list \<times> 'd list) res" where
  "candidates bs [] = Inr ([], [])"
| "candidates bs (None # es) = Inl (Undefined ''null pointer'')"
| "candidates bs (Some e # es) =
     rbind (vec_at bs e) (\<lambda>b.
     case replacementData b of None \<Rightarrow> Inl (Undefined ''null pointer'')
     | Some d \<Rightarrow> rbind (candidates bs es) (\<lambda>(xs, ds). Inr (e # xs, d # ds)))"

fun put_data :: "nat list \<Rightarrow> 'd list \<Rightarrow> 'd CacheBlk list \<Rightarrow> 'd CacheBlk list" where
  "put_data (e # es) (d # ds) bs = put_data es ds (bs[e := (bs ! e)\<lparr>replacementData := Some d\<rparr>])"
| "put_data _ _ bs = bs"

definition findVictim :: "'x BaseIndexingPolicy_scheme idx_ops \<Rightarrow> 'd repl_ops \<Rightarrow> Tick \<Rightarrow> nat \<Rightarrow> Addr \<Rightarrow> nat list \<Rightarrow>
    ('x BaseIndexingPolicy_scheme, 'd) BaseSetAssoc \<Rightarrow> (nat \<times> nat list \<times> ('x BaseIndexingPolicy_scheme, 'd) BaseSetAssoc) res" where
  "findVictim I P now k addr evict_blks t =
     rbind (ix_possible I addr (indexingPolicy t)) (\<lambda>entries.
     rbind (candidates (blks t) entries) (\<lambda>(es, ds).
     rbind (r_getVictim P now k ds) (\<lambda>(v, ds1).
     rbind (vec_at es v) (\<lambda>victim.
     Inr (victim, evict_blks @ [victim], t\<lparr>blks := put_data es ds1 (blks t)\<rparr>)))))"

definition setWayAllocationMax :: "int \<Rightarrow> ('p, 'd) BaseSetAssoc \<Rightarrow> ('p, 'd) BaseSetAssoc res" where
  "setWayAllocationMax ways t =
     require (\<not> ways < 1) (Fatal ''Allocation limit must be greater than zero'') (Inr (t\<lparr>allocAssoc := word_of_int ways\<rparr>))"

definition getWayAllocationMax :: "('p, 'd) BaseSetAssoc \<Rightarrow> int" where
  "getWayAllocationMax t = sint (allocAssoc t)"

subsection \<open>Visitors and statistics\<close>

fun visit :: "('d CacheBlk \<Rightarrow> 's \<Rightarrow> 's res) \<Rightarrow> 'd CacheBlk list \<Rightarrow> 's \<Rightarrow> 's res" where
  "visit f [] s = Inr s"
| "visit f (b # bs) s = rbind (f b s) (visit f bs)"

definition forEachBlk :: "('d CacheBlk \<Rightarrow> BaseTagStats \<Rightarrow> BaseTagStats res) \<Rightarrow> ('p, 'd) BaseSetAssoc \<Rightarrow> ('p, 'd) BaseSetAssoc res" where
  "forEachBlk f t = rbind (visit f (blks t) (ts_stats t)) (\<lambda>s. Inr (t\<lparr>ts_stats := s\<rparr>))"

definition anyBlk :: "('d CacheBlk \<Rightarrow> bool) \<Rightarrow> ('p, 'd) BaseSetAssoc \<Rightarrow> bool" where
  "anyBlk f t = list_ex f (blks t)"

definition cleanupRefsVisitor :: "'d CacheBlk \<Rightarrow> BaseTagStats \<Rightarrow> BaseTagStats res" where
  "cleanupRefsVisitor b s =
     Inr (if isValid b then s\<lparr>totalRefs := totalRefs s + uint (blk_refCount b), sampledRefs := sampledRefs s + 1\<rparr> else s)"

definition cleanupRefs :: "('p, 'd) BaseSetAssoc \<Rightarrow> ('p, 'd) BaseSetAssoc res" where
  "cleanupRefs t = forEachBlk cleanupRefsVisitor t"

definition age_index :: "u64 \<Rightarrow> u64 \<Rightarrow> Tick \<Rightarrow> nat" where
  "age_index us ms age =
     (if age div us < 10 then 0 else if age div us < 100 then 1 else if age div ms < 1 then 2 else if age div ms < 10 then 3 else 4)"

definition computeStatsVisitor :: "u64 \<Rightarrow> u64 \<Rightarrow> Tick \<Rightarrow> 'd CacheBlk \<Rightarrow> BaseTagStats \<Rightarrow> BaseTagStats res" where
  "computeStatsVisitor us ms now b s =
     (if isValid b then
        require (task_id b < NumTaskId) (AssertFail ''blk.task_id < ContextSwitchTaskId::NumTaskId'')
        (rbind (vec_upd (unat (task_id b)) (\<lambda>n. n + 1) (occupanciesTaskId s)) (\<lambda>occ.
         require (blk_tickInserted b \<le> now) (AssertFail ''blk.tickInserted <= curTick()'')
         (let i = age_index us ms (now - blk_tickInserted b) in
          rbind (vec_at (ageTaskId s) (unat (task_id b))) (\<lambda>row.
          rbind (vec_upd i (\<lambda>n. n + 1) row) (\<lambda>row1.
          Inr (s\<lparr>occupanciesTaskId := occ, ageTaskId := (ageTaskId s)[unat (task_id b) := row1]\<rparr>))))))
      else Inr s)"

definition computeStats :: "u64 \<Rightarrow> u64 \<Rightarrow> Tick \<Rightarrow> ('p, 'd) BaseSetAssoc \<Rightarrow> ('p, 'd) BaseSetAssoc res" where
  "computeStats us ms now t =
     forEachBlk (computeStatsVisitor us ms now)
       (on_stats (\<lambda>s. s\<lparr>occupanciesTaskId := replicate (unat NumTaskId) 0, ageTaskId := replicate (unat NumTaskId) (replicate 5 0)\<rparr>) t)"

subsection \<open>The invariant\<close>

text \<open>What an entry must look like: its position, its replacement data, and, when it is valid, a tag that belongs to an
  address whose candidates include the entry.\<close>

definition blk_ok :: "'x BaseIndexingPolicy_scheme idx_ops \<Rightarrow> ('d \<Rightarrow> bool) \<Rightarrow> 'x BaseIndexingPolicy_scheme \<Rightarrow> nat \<Rightarrow> nat \<Rightarrow> 'd CacheBlk \<Rightarrow> bool" where
  "blk_ok I rok p masters e b \<longleftrightarrow>
     blk_pos b = Some (of_nat (e div unat (ip_assoc p)), of_nat (e mod unat (ip_assoc p))) \<and>
     (\<exists>d. replacementData b = Some d \<and> rok d) \<and> (\<not> isValid b \<longrightarrow> blk_status b = 0) \<and>
     (isValid b \<longrightarrow> 0 \<le> srcMasterId b \<and> srcMasterId b < int masters \<and>
        (\<exists>a es. ix_possible I a p = Inr es \<and> Some e \<in> set es \<and> blk_tag b = extractTag a p))"

definition placed :: "'x BaseIndexingPolicy_scheme idx_ops \<Rightarrow> ('d \<Rightarrow> bool) \<Rightarrow> ('x BaseIndexingPolicy_scheme, 'd) BaseSetAssoc \<Rightarrow> bool" where
  "placed I rok t \<longleftrightarrow> length (blks t) = numEntries (indexingPolicy t) \<and> length (occupancies (ts_stats t)) = maxMasters t \<and>
     (\<forall>e < length (blks t). blk_ok I rok (indexingPolicy t) (maxMasters t) e (blks t ! e))"

text \<open>Block \<open>e\<close> holds address \<open>a\<close> of the given security domain.\<close>

definition holds :: "'x BaseIndexingPolicy_scheme idx_ops \<Rightarrow> ('x BaseIndexingPolicy_scheme, 'd) BaseSetAssoc \<Rightarrow> nat \<Rightarrow> Addr \<Rightarrow> bool \<Rightarrow> bool" where
  "holds I t e a sec \<longleftrightarrow> e < length (blks t) \<and> isValid (blks t ! e) \<and> isSecure (blks t ! e) = sec \<and> regenerateBlkAddr I e t = Inr a"

definition exclusive :: "'x BaseIndexingPolicy_scheme idx_ops \<Rightarrow> ('x BaseIndexingPolicy_scheme, 'd) BaseSetAssoc \<Rightarrow> bool" where
  "exclusive I t \<longleftrightarrow> (\<forall>e f a sec. holds I t e a sec \<longrightarrow> holds I t f a sec \<longrightarrow> e = f)"

definition counted :: "('p, 'd) BaseSetAssoc \<Rightarrow> bool" where
  "counted t \<longleftrightarrow> tagsInUse (ts_stats t) = int (length (filter isValid (blks t))) \<and>
     (\<forall>m < maxMasters t. occupancies (ts_stats t) ! m = int (length (filter (\<lambda>b. isValid b \<and> srcMasterId b = int m) (blks t))))"

definition tags_ok :: "'x BaseIndexingPolicy_scheme idx_ops \<Rightarrow> ('x BaseIndexingPolicy_scheme \<Rightarrow> bool) \<Rightarrow> ('d \<Rightarrow> bool) \<Rightarrow>
    ('x BaseIndexingPolicy_scheme, 'd) BaseSetAssoc \<Rightarrow> bool" where
  "tags_ok I ipok rok t \<longleftrightarrow> ipok (indexingPolicy t) \<and> placed I rok t \<and> exclusive I t \<and> counted t"

lemma length_filter_update:
  "i < length xs \<Longrightarrow> int (length (filter Q (xs[i := x]))) = int (length (filter Q xs)) - of_bool (Q (xs ! i)) + of_bool (Q x)"
proof (induction xs arbitrary: i)
  case (Cons y ys)
  then show ?case by (cases i) auto
qed simp

text \<open>Only the position, tag, status and owner of the blocks matter to the invariant, besides the replacement data.\<close>

definition shape :: "'d CacheBlk \<Rightarrow> (u32 \<times> u32) option \<times> Addr \<times> u32 \<times> int" where
  "shape b = (blk_pos b, blk_tag b, blk_status b, srcMasterId b)"

lemma shape_same:
  "shape b = shape c \<Longrightarrow> isValid b = isValid c \<and> isSecure b = isSecure c \<and> blk_tag b = blk_tag c \<and> blk_pos b = blk_pos c \<and>
     blk_status b = blk_status c \<and> srcMasterId b = srcMasterId c"
  by (simp add: shape_def isValid_def isSecure_def)

lemma filter_shape:
  assumes "map shape bs = map shape cs" "\<And>b c. shape b = shape c \<Longrightarrow> Q b = Q c"
  shows "length (filter Q bs) = length (filter Q cs)"
  using assms(1)
proof (induction bs arbitrary: cs)
  case (Cons b bs)
  then obtain c cs' where "cs = c # cs'" "shape b = shape c" "map shape bs = map shape cs'" by (auto simp: Cons_eq_map_conv)
  then show ?case using Cons.IH [of cs'] assms(2) [of b c] by simp
qed simp

definition reshaped :: "('x BaseIndexingPolicy_scheme, 'd) BaseSetAssoc \<Rightarrow> ('x BaseIndexingPolicy_scheme, 'd) BaseSetAssoc \<Rightarrow> bool" where
  "reshaped t t1 \<longleftrightarrow> map shape (blks t1) = map shape (blks t) \<and> indexingPolicy t1 = indexingPolicy t \<and> maxMasters t1 = maxMasters t \<and>
     tagsInUse (ts_stats t1) = tagsInUse (ts_stats t) \<and> occupancies (ts_stats t1) = occupancies (ts_stats t)"

lemma reshaped_nth:
  assumes "reshaped t t1"
  shows "length (blks t1) = length (blks t)" "e < length (blks t) \<Longrightarrow> shape (blks t1 ! e) = shape (blks t ! e)"
proof -
  have m: "map shape (blks t1) = map shape (blks t)" using assms by (simp add: reshaped_def)
  then show l: "length (blks t1) = length (blks t)" by (rule map_eq_imp_length_eq)
  assume "e < length (blks t)"
  then show "shape (blks t1 ! e) = shape (blks t ! e)" using arg_cong [OF m, of "\<lambda>xs. xs ! e"] l by simp
qed

lemma reshaped_holds:
  assumes "reshaped t t1"
  shows "holds I t1 e a sec = holds I t e a sec"
proof (cases "e < length (blks t)")
  case True
  have "indexingPolicy t1 = indexingPolicy t" using assms by (simp add: reshaped_def)
  then show ?thesis
    using True reshaped_nth(1) [OF assms] shape_same [OF reshaped_nth(2) [OF assms True]]
    by (simp add: holds_def regenerateBlkAddr_def split: option.split)
next
  case False
  then show ?thesis using reshaped_nth(1) [OF assms] by (simp add: holds_def)
qed

lemma blk_ok_shape:
  assumes "shape b = shape c" "blk_ok I rok p n e c" "\<exists>d. replacementData b = Some d \<and> rok d"
  shows "blk_ok I rok p n e b"
  using assms(2,3) shape_same [OF assms(1)] by (simp add: blk_ok_def)

lemma reshaped_ok:
  assumes "tags_ok I ipok rok t" "reshaped t t1"
    and data: "\<And>e. e < length (blks t) \<Longrightarrow> \<exists>d. replacementData (blks t1 ! e) = Some d \<and> rok d"
  shows "tags_ok I ipok rok t1"
proof -
  have "exclusive I t1" using assms(1) unfolding tags_ok_def exclusive_def reshaped_holds [OF assms(2)] by blast
  moreover have "placed I rok t1"
    unfolding placed_def
  proof (intro conjI allI impI)
    show "length (blks t1) = numEntries (indexingPolicy t1)" "length (occupancies (ts_stats t1)) = maxMasters t1"
      using assms(1,2) reshaped_nth(1) [OF assms(2)] by (simp_all add: tags_ok_def placed_def reshaped_def)
    fix e
    assume "e < length (blks t1)"
    then have e: "e < length (blks t)" using reshaped_nth(1) [OF assms(2)] by simp
    then have "blk_ok I rok (indexingPolicy t) (maxMasters t) e (blks t ! e)" using assms(1) by (simp add: tags_ok_def placed_def)
    from blk_ok_shape [OF reshaped_nth(2) [OF assms(2) e] this data [OF e]]
    show "blk_ok I rok (indexingPolicy t1) (maxMasters t1) e (blks t1 ! e)" using assms(2) by (simp add: reshaped_def)
  qed
  moreover have "counted t1"
  proof -
    have m: "map shape (blks t1) = map shape (blks t)" using assms(2) by (simp add: reshaped_def)
    have "length (filter isValid (blks t1)) = length (filter isValid (blks t))"
      by (rule filter_shape [OF m]) (drule shape_same, simp)
    moreover have "length (filter (\<lambda>b. isValid b \<and> srcMasterId b = int n) (blks t1)) =
        length (filter (\<lambda>b. isValid b \<and> srcMasterId b = int n) (blks t))" for n
      by (rule filter_shape [OF m]) (drule shape_same, simp)
    ultimately show ?thesis using assms(1,2) by (simp add: tags_ok_def counted_def reshaped_def)
  qed
  ultimately show ?thesis using assms(1,2) by (simp add: tags_ok_def reshaped_def)
qed

subsection \<open>Changing one block\<close>

lemma holds_update:
  assumes "blks t1 = (blks t)[e := b]" "e < length (blks t)" "indexingPolicy t1 = indexingPolicy t"
  shows "holds I t1 f a sec \<longleftrightarrow> (if f = e
      then isValid b \<and> isSecure b = sec \<and> (\<exists>s w. blk_pos b = Some (s, w) \<and> ix_regen I (blk_tag b) s w (indexingPolicy t) = Inr a)
      else holds I t f a sec)"
  using assms by (auto simp: holds_def regenerateBlkAddr_def split: option.splits)

lemma placed_update:
  assumes "placed I rok t" "blks t1 = (blks t)[e := b]" "indexingPolicy t1 = indexingPolicy t" "maxMasters t1 = maxMasters t"
    "length (occupancies (ts_stats t1)) = maxMasters t" "blk_ok I rok (indexingPolicy t) (maxMasters t) e b"
  shows "placed I rok t1"
  unfolding placed_def
proof (intro conjI allI impI)
  fix f
  assume "f < length (blks t1)"
  then show "blk_ok I rok (indexingPolicy t1) (maxMasters t1) f (blks t1 ! f)"
    using assms by (cases "f = e") (simp_all add: placed_def)
qed (use assms in \<open>simp_all add: placed_def\<close>)

lemma counted_update:
  assumes "counted t" "blks t1 = (blks t)[e := b]" "e < length (blks t)" "maxMasters t1 = maxMasters t"
    "tagsInUse (ts_stats t1) = tagsInUse (ts_stats t) - of_bool (isValid (blks t ! e)) + of_bool (isValid b)"
    "\<And>m. m < maxMasters t \<Longrightarrow> occupancies (ts_stats t1) ! m = occupancies (ts_stats t) ! m
       - of_bool (isValid (blks t ! e) \<and> srcMasterId (blks t ! e) = int m) + of_bool (isValid b \<and> srcMasterId b = int m)"
  shows "counted t1"
  unfolding counted_def assms(2,4)
proof (intro conjI allI impI)
  show "tagsInUse (ts_stats t1) = int (length (filter isValid ((blks t)[e := b])))"
    using assms(1,5) length_filter_update [OF assms(3), of isValid b] by (simp add: counted_def)
  fix m
  assume m: "m < maxMasters t"
  show "occupancies (ts_stats t1) ! m = int (length (filter (\<lambda>b. isValid b \<and> srcMasterId b = int m) ((blks t)[e := b])))"
    unfolding length_filter_update [OF assms(3)] assms(6) [OF m] using assms(1) m by (simp add: counted_def)
qed

lemmas stage_defs = on_blk_def on_stats_def on_data_def Let_def

lemma insertBlock_eq:
  assumes "e < length (blks t)" "blk_status (blks t ! e) = 0" "unat (rq_masterId (pk_req pkt)) < maxMasters t"
    "length (occupancies (ts_stats t)) = maxMasters t" "replacementData (blks t ! e) = Some d"
  obtains b t1 where "insertBlock P now k pkt e t = Inr t1" "blks t1 = (blks t)[e := b]" "isValid b" "isSecure b = pk_isSecure pkt"
    "blk_tag b = extractTag (pk_addr pkt) (indexingPolicy t)" "srcMasterId b = uint (rq_masterId (pk_req pkt))"
    "blk_pos b = blk_pos (blks t ! e)" "replacementData b = Some (r_reset P now k d)" "indexingPolicy t1 = indexingPolicy t"
    "maxMasters t1 = maxMasters t" "tagsInUse (ts_stats t1) = tagsInUse (ts_stats t) + 1"
    "occupancies (ts_stats t1) = (occupancies (ts_stats t))[unat (rq_masterId (pk_req pkt)) :=
       occupancies (ts_stats t) ! unat (rq_masterId (pk_req pkt)) + 1]"
proof -
  obtain b1 where b1: "blk_insert now (extractTag (pk_addr pkt) (indexingPolicy t)) (pk_isSecure pkt) (uint (rq_masterId (pk_req pkt)))
      (rq_taskId (pk_req pkt)) (blks t ! e) = Inr b1" "isValid b1" "isSecure b1 = pk_isSecure pkt"
    "blk_tag b1 = extractTag (pk_addr pkt) (indexingPolicy t)" "srcMasterId b1 = uint (rq_masterId (pk_req pkt))"
    "blk_pos b1 = blk_pos (blks t ! e)" "replacementData b1 = Some d"
    using blk_insert_ok [OF assms(2)] assms(5) by metis
  have "\<not> isValid (blks t ! e)" using assms(2) by (simp add: isValid_def)
  then show ?thesis
    using that [of _ "b1\<lparr>replacementData := Some (r_reset P now k d)\<rparr>"] assms b1
    by (cases "\<not> warmedUp t \<and> uint (warmupBound t) \<le> tagsInUse (ts_stats t)")
      (simp_all add: insertBlock_def base_insertBlock_def stage_defs isValid_def isSecure_def)
qed

lemma ts_invalidate_eq:
  assumes "e < length (blks t)" "isValid (blks t ! e)" "0 \<le> srcMasterId (blks t ! e)" "nat (srcMasterId (blks t ! e)) < maxMasters t"
    "length (occupancies (ts_stats t)) = maxMasters t" "replacementData (blks t ! e) = Some d"
  obtains t1 where "ts_invalidate P e t = Inr t1"
    "blks t1 = (blks t)[e := (blk_invalidate (blks t ! e))\<lparr>replacementData := Some (r_invalidate P d)\<rparr>]" "indexingPolicy t1 = indexingPolicy t"
    "maxMasters t1 = maxMasters t" "tagsInUse (ts_stats t1) = tagsInUse (ts_stats t) - 1"
    "occupancies (ts_stats t1) = (occupancies (ts_stats t))[nat (srcMasterId (blks t ! e)) :=
       occupancies (ts_stats t) ! nat (srcMasterId (blks t ! e)) - 1]"
  using that assms by (simp add: ts_invalidate_def base_invalidate_def stage_defs)

lemma candidates_eq:
  assumes "\<forall>e\<in>set xs. e < length bs \<and> replacementData (bs ! e) \<noteq> None"
  shows "candidates bs (map Some xs) = Inr (xs, map (\<lambda>e. the (replacementData (bs ! e))) xs)"
  using assms by (induction xs) auto

lemma put_data_length [simp]: "length (put_data es ds bs) = length bs"
  by (induction es ds bs rule: put_data.induct) simp_all

lemma put_data_shape [simp]: "map shape (put_data es ds bs) = map shape bs"
proof (induction es ds bs rule: put_data.induct)
  case (1 e es d ds bs)
  have "map shape (bs[e := (bs ! e)\<lparr>replacementData := Some d\<rparr>]) = map shape bs"
    by (cases "e < length bs") (simp_all add: map_update shape_def list_update_same_conv list_update_beyond linorder_not_less)
  then show ?case using 1 by simp
qed simp_all

lemma put_data_ok:
  assumes "\<forall>e < length bs. \<exists>d. replacementData (bs ! e) = Some d \<and> rok d" "\<forall>d\<in>set ds. rok d"
  shows "\<forall>e < length bs. \<exists>d. replacementData (put_data es ds bs ! e) = Some d \<and> rok d"
  using assms
proof (induction es ds bs rule: put_data.induct)
  case (1 e es d ds bs)
  let ?bs = "bs[e := (bs ! e)\<lparr>replacementData := Some d\<rparr>]"
  have "\<forall>f < length ?bs. \<exists>d. replacementData (?bs ! f) = Some d \<and> rok d"
    using "1.prems" by (cases "e < length bs") (auto simp: nth_list_update linorder_not_less)
  then show ?case using "1.IH" "1.prems" by simp
qed simp_all

lemma find_in_eq:
  assumes "\<forall>e\<in>set xs. e < length bs"
  shows "find_in tg sec bs (map Some xs) = Inr (find (\<lambda>e. blk_tag (bs ! e) = tg \<and> isValid (bs ! e) \<and> isSecure (bs ! e) = sec) xs)"
  using assms by (induction xs) auto

subsection \<open>A tag store over the two contracts\<close>

locale tag_store = indexing_policy "ix_possible I" "ix_regen I" ipok + replacement_policy P rok inv
  for I :: "'x BaseIndexingPolicy_scheme idx_ops" and ipok and P :: "'d repl_ops" and rok and inv
begin

lemma candidates_of:
  assumes "tags_ok I ipok rok t"
  obtains xs where "ix_possible I a (indexingPolicy t) = Inr (map Some xs)" "xs \<noteq> []" "distinct xs" "\<forall>e\<in>set xs. e < length (blks t)"
  using entries [of "indexingPolicy t" a] assms by (auto simp: tags_ok_def placed_def)

lemma regenerate_placed:
  assumes "tags_ok I ipok rok t" "e < length (blks t)"
  shows "regenerateBlkAddr I e t = ix_regen I (blk_tag (blks t ! e)) (of_nat (e div unat (ip_assoc (indexingPolicy t))))
    (of_nat (e mod unat (ip_assoc (indexingPolicy t)))) (indexingPolicy t)"
proof -
  have "blk_ok I rok (indexingPolicy t) (maxMasters t) e (blks t ! e)" using assms by (simp add: tags_ok_def placed_def)
  then show ?thesis using assms(2) by (simp add: regenerateBlkAddr_def blk_ok_def)
qed

text \<open>The blocks that hold an address are the candidates with its tag.\<close>

lemma holds_candidate:
  assumes ok: "tags_ok I ipok rok t" and xs: "ix_possible I a (indexingPolicy t) = Inr (map Some xs)" "\<forall>e\<in>set xs. e < length (blks t)"
  shows "holds I t e (block_of (indexingPolicy t) a) sec \<longleftrightarrow>
    e \<in> set xs \<and> blk_tag (blks t ! e) = extractTag a (indexingPolicy t) \<and> isValid (blks t ! e) \<and> isSecure (blks t ! e) = sec"
    (is "_ = ?Q")
proof
  assume h: "holds I t e (block_of (indexingPolicy t) a) sec"
  then have e: "e < length (blks t)" "isValid (blks t ! e)" "isSecure (blks t ! e) = sec" by (simp_all add: holds_def)
  have "blk_ok I rok (indexingPolicy t) (maxMasters t) e (blks t ! e)" using ok e(1) by (simp add: tags_ok_def placed_def)
  then obtain b es where b: "ix_possible I b (indexingPolicy t) = Inr es" "Some e \<in> set es" "blk_tag (blks t ! e) = extractTag b (indexingPolicy t)"
    using e(2) by (auto simp: blk_ok_def)
  have ip: "ipok (indexingPolicy t)" using ok by (simp add: tags_ok_def)
  have "block_of (indexingPolicy t) b = block_of (indexingPolicy t) a"
    using h regenerated [OF ip b(1,2)] regenerate_placed [OF ok e(1)] b(3) by (simp add: holds_def)
  then have "ix_possible I b (indexingPolicy t) = ix_possible I a (indexingPolicy t) \<and>
      extractTag b (indexingPolicy t) = extractTag a (indexingPolicy t)" by (rule same_block [OF ip])
  then show ?Q using b xs(1) e by auto
next
  assume q: ?Q
  then have e: "e < length (blks t)" using xs(2) by blast
  have "ipok (indexingPolicy t)" using ok by (simp add: tags_ok_def)
  from regenerated [OF this xs(1), of e] show "holds I t e (block_of (indexingPolicy t) a) sec"
    using q e regenerate_placed [OF ok e] by (simp add: holds_def)
qed

lemma findBlock_exact:
  assumes ok: "tags_ok I ipok rok t"
  shows "\<exists>r. findBlock I a sec t = Inr r \<and> (\<forall>e. r = Some e \<longleftrightarrow> holds I t e (block_of (indexingPolicy t) a) sec)"
proof -
  obtain xs where xs: "ix_possible I a (indexingPolicy t) = Inr (map Some xs)" "\<forall>e\<in>set xs. e < length (blks t)"
    using candidates_of [OF ok] by metis
  let ?Q = "\<lambda>e. blk_tag (blks t ! e) = extractTag a (indexingPolicy t) \<and> isValid (blks t ! e) \<and> isSecure (blks t ! e) = sec"
  have f: "findBlock I a sec t = Inr (find ?Q xs)" using xs by (simp add: findBlock_def find_in_eq Let_def)
  have "find ?Q xs = Some e \<longleftrightarrow> holds I t e (block_of (indexingPolicy t) a) sec" for e
  proof
    assume "find ?Q xs = Some e"
    then have "e \<in> set xs \<and> ?Q e" by (auto simp: find_Some_iff)
    then show "holds I t e (block_of (indexingPolicy t) a) sec" using holds_candidate [OF ok xs] by simp
  next
    assume h: "holds I t e (block_of (indexingPolicy t) a) sec"
    then have "e \<in> set xs \<and> ?Q e" using holds_candidate [OF ok xs] by simp
    then obtain g where g: "find ?Q xs = Some g" by (cases "find ?Q xs") (auto simp: find_None_iff)
    then have "g \<in> set xs \<and> ?Q g" by (auto simp: find_Some_iff)
    then have "holds I t g (block_of (indexingPolicy t) a) sec" using holds_candidate [OF ok xs] by simp
    then have "g = e" using h ok unfolding tags_ok_def exclusive_def by blast
    then show "find ?Q xs = Some e" using g by simp
  qed
  then show ?thesis using f by blast
qed

lemma data_ok: "tags_ok I ipok rok t \<Longrightarrow> e < length (blks t) \<Longrightarrow> \<exists>d. replacementData (blks t ! e) = Some d \<and> rok d"
  by (auto simp: tags_ok_def placed_def blk_ok_def)

lemma accessBlock_ok:
  assumes ok: "tags_ok I ipok rok t"
  shows "\<exists>r t1. accessBlock I P now a sec t = Inr (r, lookupLatency t, t1) \<and> findBlock I a sec t = Inr r \<and>
    tags_ok I ipok rok t1 \<and> reshaped t t1"
proof -
  obtain r where r: "findBlock I a sec t = Inr r" "\<forall>e. r = Some e \<longleftrightarrow> holds I t e (block_of (indexingPolicy t) a) sec"
    using findBlock_exact [OF ok, of a sec] by blast
  show ?thesis
  proof (cases r)
    case None
    then obtain t1 where t1: "accessBlock I P now a sec t = Inr (r, lookupLatency t, t1)" "reshaped t t1" "blks t1 = blks t"
      using r(1) by (simp add: accessBlock_def stage_defs reshaped_def)
    then show ?thesis using r(1) reshaped_ok [OF ok t1(2)] data_ok [OF ok] by fastforce
  next
    case (Some e)
    then have e: "e < length (blks t)" using r(2) by (auto simp: holds_def)
    then obtain d where d: "replacementData (blks t ! e) = Some d" "rok d" using data_ok [OF ok] by blast
    define b where "b = (blks t ! e)\<lparr>blk_refCount := blk_refCount (blks t ! e) + 1, replacementData := Some (r_touch P now d)\<rparr>"
    obtain t1 where t1: "accessBlock I P now a sec t = Inr (r, lookupLatency t, t1)" "blks t1 = (blks t)[e := b]"
      "indexingPolicy t1 = indexingPolicy t" "maxMasters t1 = maxMasters t"
      "tagsInUse (ts_stats t1) = tagsInUse (ts_stats t)" "occupancies (ts_stats t1) = occupancies (ts_stats t)"
      using r(1) Some e d by (simp add: accessBlock_def stage_defs b_def)
    have "map shape (blks t1) = map shape (blks t)"
      using e unfolding t1(2) by (simp add: map_update b_def shape_def list_update_same_conv)
    then have re: "reshaped t t1" using t1 by (simp add: reshaped_def)
    have "\<exists>d. replacementData (blks t1 ! f) = Some d \<and> rok d" if "f < length (blks t)" for f
      using data_ok [OF ok that] e touch_ok [OF d(2)] unfolding t1(2) by (cases "f = e") (simp_all add: b_def)
    then show ?thesis using t1(1) r(1) reshaped_ok [OF ok re] re by blast
  qed
qed

end

context tag_store
begin

lemma findVictim_ok:
  assumes ok: "tags_ok I ipok rok t" and k: "\<forall>xs. ix_possible I a (indexingPolicy t) = Inr xs \<longrightarrow> k < length xs"
  shows "\<exists>e t1 xs. findVictim I P now k a evs t = Inr (e, evs @ [e], t1) \<and> ix_possible I a (indexingPolicy t) = Inr xs \<and>
    Some e \<in> set xs \<and> e < length (blks t) \<and> tags_ok I ipok rok t1 \<and> reshaped t t1"
proof -
  obtain xs where xs: "ix_possible I a (indexingPolicy t) = Inr (map Some xs)" "xs \<noteq> []" "\<forall>e\<in>set xs. e < length (blks t)"
    using candidates_of [OF ok] by metis
  define ds where "ds = map (\<lambda>e. the (replacementData (blks t ! e))) xs"
  have data: "replacementData (blks t ! e) = Some (the (replacementData (blks t ! e))) \<and> rok (the (replacementData (blks t ! e)))"
    if "e \<in> set xs" for e using data_ok [OF ok, of e] xs(3) that by auto
  have c: "candidates (blks t) (map Some xs) = Inr (xs, ds)"
    unfolding ds_def by (rule candidates_eq) (use xs(3) data in fastforce)
  have "ds \<noteq> []" "\<forall>d\<in>set ds. rok d" "k < length ds" using xs(1,2) data k by (auto simp: ds_def)
  then obtain v ds1 where v: "r_getVictim P now k ds = Inr (v, ds1)" "v < length ds" "\<forall>d\<in>set ds1. rok d"
    using victim [of ds k now] by blast
  define t1 where "t1 = t\<lparr>blks := put_data xs ds1 (blks t)\<rparr>"
  have l: "v < length xs" using v(2) by (simp add: ds_def)
  have f: "findVictim I P now k a evs t = Inr (xs ! v, evs @ [xs ! v], t1)"
    using xs(1) c v l by (simp add: findVictim_def t1_def)
  have re: "reshaped t t1" by (simp add: reshaped_def t1_def)
  have "tags_ok I ipok rok t1"
    using reshaped_ok [OF ok re] put_data_ok [of "blks t" rok ds1 xs] data_ok [OF ok] v(3) by (simp add: t1_def)
  then show ?thesis using f xs l re by (intro exI [of _ "xs ! v"] exI [of _ t1] exI [of _ "map Some xs"]) simp
qed

lemma ts_invalidate_ok:
  assumes ok: "tags_ok I ipok rok t" and e: "e < length (blks t)" "isValid (blks t ! e)"
  shows "\<exists>t1. ts_invalidate P e t = Inr t1 \<and> tags_ok I ipok rok t1 \<and> indexingPolicy t1 = indexingPolicy t \<and> maxMasters t1 = maxMasters t \<and>
    length (blks t1) = length (blks t) \<and> \<not> isValid (blks t1 ! e) \<and>
    (\<forall>f a sec. holds I t1 f a sec \<longleftrightarrow> f \<noteq> e \<and> holds I t f a sec)"
proof -
  have b: "blk_ok I rok (indexingPolicy t) (maxMasters t) e (blks t ! e)" and occ: "length (occupancies (ts_stats t)) = maxMasters t"
    using ok e(1) by (simp_all add: tags_ok_def placed_def)
  then obtain d where d: "replacementData (blks t ! e) = Some d" "rok d" and src: "0 \<le> srcMasterId (blks t ! e)" "srcMasterId (blks t ! e) < int (maxMasters t)"
    using e(2) by (auto simp: blk_ok_def)
  define b1 where "b1 = (blk_invalidate (blks t ! e))\<lparr>replacementData := Some (r_invalidate P d)\<rparr>"
  have inv1: "\<not> isValid b1" "blk_status b1 = 0" "blk_pos b1 = blk_pos (blks t ! e)" by (simp_all add: b1_def isValid_def)
  have src2: "nat (srcMasterId (blks t ! e)) < maxMasters t" using src by linarith
  obtain t1 where t1: "ts_invalidate P e t = Inr t1" "blks t1 = (blks t)[e := b1]" "indexingPolicy t1 = indexingPolicy t"
    "maxMasters t1 = maxMasters t" "tagsInUse (ts_stats t1) = tagsInUse (ts_stats t) - 1"
    "occupancies (ts_stats t1) = (occupancies (ts_stats t))[nat (srcMasterId (blks t ! e)) := occupancies (ts_stats t) ! nat (srcMasterId (blks t ! e)) - 1]"
    unfolding b1_def by (rule ts_invalidate_eq [OF e src(1) src2 occ d(1), of P])
  have h: "holds I t1 f a sec \<longleftrightarrow> f \<noteq> e \<and> holds I t f a sec" for f a sec
    using holds_update [OF t1(2) e(1) t1(3), of I f a sec] inv1(1) by simp
  have "blk_ok I rok (indexingPolicy t) (maxMasters t) e b1"
    using b inv1 invalidate_inv [OF d(2)] by (simp add: blk_ok_def b1_def)
  then have "placed I rok t1" using placed_update [of I rok t t1 e b1] ok t1 occ by (simp add: tags_ok_def)
  moreover have "counted t1"
    by (rule counted_update [of t t1 e b1])
      (use ok t1 e src occ inv1 in \<open>auto simp: tags_ok_def nth_list_update\<close>)
  moreover have "exclusive I t1" using ok unfolding tags_ok_def exclusive_def h by blast
  ultimately show ?thesis using t1 h e inv1 ok by (simp add: tags_ok_def)
qed

lemma insertBlock_ok:
  assumes ok: "tags_ok I ipok rok t" and miss: "findBlock I (pk_addr pkt) (pk_isSecure pkt) t = Inr None"
    and e: "ix_possible I (pk_addr pkt) (indexingPolicy t) = Inr xs" "Some e \<in> set xs" "\<not> isValid (blks t ! e)"
    and m: "unat (rq_masterId (pk_req pkt)) < maxMasters t"
  shows "\<exists>t1. insertBlock P now k pkt e t = Inr t1 \<and> tags_ok I ipok rok t1 \<and> indexingPolicy t1 = indexingPolicy t \<and>
    (\<forall>f a sec. holds I t1 f a sec \<longleftrightarrow>
       (if f = e then a = block_of (indexingPolicy t) (pk_addr pkt) \<and> sec = pk_isSecure pkt else holds I t f a sec))"
proof -
  obtain ys where ys: "ix_possible I (pk_addr pkt) (indexingPolicy t) = Inr (map Some ys)" "\<forall>e\<in>set ys. e < length (blks t)"
    using candidates_of [OF ok] by metis
  have le: "e < length (blks t)" using ys e(1,2) by auto
  have ip: "ipok (indexingPolicy t)" using ok by (simp add: tags_ok_def)
  have b: "blk_ok I rok (indexingPolicy t) (maxMasters t) e (blks t ! e)" and occ: "length (occupancies (ts_stats t)) = maxMasters t"
    using ok le by (simp_all add: tags_ok_def placed_def)
  then obtain d where d: "replacementData (blks t ! e) = Some d" "rok d" and st: "blk_status (blks t ! e) = 0"
    using e(3) by (auto simp: blk_ok_def)
  obtain b1 t1 where t1: "insertBlock P now k pkt e t = Inr t1" "blks t1 = (blks t)[e := b1]" "isValid b1" "isSecure b1 = pk_isSecure pkt"
    "blk_tag b1 = extractTag (pk_addr pkt) (indexingPolicy t)" "srcMasterId b1 = uint (rq_masterId (pk_req pkt))"
    "blk_pos b1 = blk_pos (blks t ! e)" "replacementData b1 = Some (r_reset P now k d)" "indexingPolicy t1 = indexingPolicy t"
    "maxMasters t1 = maxMasters t" "tagsInUse (ts_stats t1) = tagsInUse (ts_stats t) + 1"
    "occupancies (ts_stats t1) = (occupancies (ts_stats t))[unat (rq_masterId (pk_req pkt)) := occupancies (ts_stats t) ! unat (rq_masterId (pk_req pkt)) + 1]"
    by (rule insertBlock_eq [OF le st m occ d(1), of P now k])
  define i where "i = unat (rq_masterId (pk_req pkt))"
  have um: "srcMasterId b1 = int i" "i < maxMasters t" "occupancies (ts_stats t1) = (occupancies (ts_stats t))[i := occupancies (ts_stats t) ! i + 1]"
    using t1(6,12) m by (simp_all add: i_def)
  have h: "holds I t1 f a sec \<longleftrightarrow>
      (if f = e then a = block_of (indexingPolicy t) (pk_addr pkt) \<and> sec = pk_isSecure pkt else holds I t f a sec)" for f a sec
    using holds_update [OF t1(2) le t1(9), of I f a sec] regenerated [OF ip e(1,2)] b t1(3-5,7) unfolding blk_ok_def by auto
  have "blk_ok I rok (indexingPolicy t) (maxMasters t) e b1"
    using b t1(3,5,7,8) reset_ok [OF d(2)] e(1,2) um(1,2) unfolding blk_ok_def by auto
  then have "placed I rok t1" using placed_update [of I rok t t1 e b1] ok t1 occ by (simp add: tags_ok_def)
  moreover have "counted t1"
    by (rule counted_update [of t t1 e b1])
      (use ok t1(2,3,10,11) le e(3) um occ in \<open>simp_all add: tags_ok_def nth_list_update\<close>)
  moreover have "exclusive I t1"
  proof -
    have none: "\<not> holds I t f (block_of (indexingPolicy t) (pk_addr pkt)) (pk_isSecure pkt)" for f
      using findBlock_exact [OF ok, of "pk_addr pkt" "pk_isSecure pkt"] miss by auto
    show ?thesis
      unfolding exclusive_def
    proof (intro allI impI)
      fix f g a sec
      assume fg: "holds I t1 f a sec" "holds I t1 g a sec"
      show "f = g"
      proof (cases "f = e \<or> g = e")
        case True
        then show ?thesis using fg none [of f] none [of g] unfolding h by (cases "f = e"; cases "g = e") simp_all
      next
        case False
        then have "holds I t f a sec" "holds I t g a sec" using fg unfolding h by simp_all
        then show ?thesis using ok unfolding tags_ok_def exclusive_def by blast
      qed
    qed
  qed
  ultimately show ?thesis using t1 h ok by (simp add: tags_ok_def)
qed

end

subsection \<open>Initialisation\<close>

definition fresh_blk :: "('d \<Rightarrow> bool) \<Rightarrow> nat \<Rightarrow> nat \<Rightarrow> nat \<Rightarrow> 'd CacheBlk \<Rightarrow> bool" where
  "fresh_blk rok A n e b \<longleftrightarrow> blk_status b = 0 \<and>
     (e < n \<longrightarrow> blk_pos b = Some (of_nat (e div A), of_nat (e mod A)) \<and> (\<exists>d. replacementData b = Some d \<and> rok d))"

lemma init_blks_ok:
  assumes d: "r_instantiateEntry P = Inr d" "rok d"
    and "ip_filled l n (indexingPolicy t)" "length (blks t) = N" "numEntries (indexingPolicy t) = N" "n \<le> N" "N < 2 ^ 32"
      "unat (ip_assoc (indexingPolicy t)) = A" "\<forall>e < N. fresh_blk rok A n e (blks t ! e)"
  shows "\<exists>sets bs. init_blks P [n..<N] t = Inr (t\<lparr>indexingPolicy := (indexingPolicy t)\<lparr>ip_sets := sets\<rparr>, blks := bs\<rparr>) \<and>
    ip_filled l N ((indexingPolicy t)\<lparr>ip_sets := sets\<rparr>) \<and> length bs = N \<and> (\<forall>e < N. fresh_blk rok A N e (bs ! e))"
  using assms(3-)
proof (induction "N - n" arbitrary: n t)
  case 0
  then have "n = N" by simp
  then show ?case using 0 by (intro exI [of _ "ip_sets (indexingPolicy t)"] exI [of _ "blks t"]) simp
next
  case (Suc m)
  then have n: "n < N" by simp
  have "n < 2 ^ 63" using n Suc.prems(5) by simp
  with setEntry_filled [OF Suc.prems(1)] n Suc.prems(3) obtain sets where
    s: "setEntry n (of_nat n) (indexingPolicy t) = Inr (of_nat (n div A), of_nat (n mod A), (indexingPolicy t)\<lparr>ip_sets := sets\<rparr>)"
      "ip_filled l (Suc n) ((indexingPolicy t)\<lparr>ip_sets := sets\<rparr>)"
    using Suc.prems(6) by blast
  define b where "b = (blks t ! n)\<lparr>blk_pos := Some (of_nat (n div A), of_nat (n mod A)),
    blk_data := Some (unat (ts_blkSize t * of_nat n)), replacementData := Some d\<rparr>"
  define t1 where "t1 = t\<lparr>indexingPolicy := (indexingPolicy t)\<lparr>ip_sets := sets\<rparr>, blks := (blks t)[n := b]\<rparr>"
  have step: "init_blks P [n..<N] t = init_blks P [Suc n..<N] t1"
    using s(1) d(1) n Suc.prems(2) by (simp add: upt_conv_Cons b_def t1_def)
  have fresh: "fresh_blk rok A (Suc n) e (blks t1 ! e)" if "e < N" for e
    using Suc.prems(7) that n Suc.prems(2) d(2) by (cases "e = n") (auto simp: fresh_blk_def t1_def b_def)
  have "\<exists>sets bs. init_blks P [Suc n..<N] t1 = Inr (t1\<lparr>indexingPolicy := (indexingPolicy t1)\<lparr>ip_sets := sets\<rparr>, blks := bs\<rparr>) \<and>
    ip_filled l N ((indexingPolicy t1)\<lparr>ip_sets := sets\<rparr>) \<and> length bs = N \<and> (\<forall>e < N. fresh_blk rok A N e (bs ! e))"
    by (rule Suc.hyps(1)) (use Suc.hyps(2) Suc.prems s(2) n fresh in \<open>simp_all add: t1_def numEntries_def\<close>)
  then show ?case unfolding step by (simp add: t1_def)
qed

text \<open>A store straight from its constructor.\<close>

definition new_store :: "nat \<Rightarrow> ('x BaseIndexingPolicy_scheme, 'd) BaseSetAssoc \<Rightarrow> bool" where
  "new_store l t \<longleftrightarrow> ip_filled l 0 (indexingPolicy t) \<and> unat (numBlocks t) = numEntries (indexingPolicy t) \<and>
     blks t = replicate (unat (numBlocks t)) new_CacheBlk \<and> tagsInUse (ts_stats t) = 0 \<and>
     occupancies (ts_stats t) = replicate (maxMasters t) 0"

lemma tagsInit_ok:
  assumes d: "r_instantiateEntry P = Inr d" "rok d" and new: "new_store l t"
    and ip: "\<And>sets. ip_ok l ((indexingPolicy t)\<lparr>ip_sets := sets\<rparr>) \<Longrightarrow> ipok ((indexingPolicy t)\<lparr>ip_sets := sets\<rparr>)"
  shows "\<exists>t1. tagsInit P t = Inr t1 \<and> tags_ok I ipok rok t1 \<and> (\<forall>e a sec. \<not> holds I t1 e a sec) \<and>
    (\<exists>sets. indexingPolicy t1 = (indexingPolicy t)\<lparr>ip_sets := sets\<rparr>) \<and> maxMasters t1 = maxMasters t"
proof -
  let ?N = "unat (numBlocks t)" and ?A = "unat (ip_assoc (indexingPolicy t))"
  have N: "?N < 2 ^ 32" using unsigned_less [of "numBlocks t", where ?'a = nat] by simp
  have fresh: "\<forall>e < ?N. fresh_blk rok ?A 0 e (blks t ! e)" and "length (blks t) = ?N" "numEntries (indexingPolicy t) = ?N" "ip_filled l 0 (indexingPolicy t)"
    using new by (simp_all add: new_store_def fresh_blk_def new_CacheBlk_def)
  then obtain sets bs where
    i: "init_blks P [0..<?N] t = Inr (t\<lparr>indexingPolicy := (indexingPolicy t)\<lparr>ip_sets := sets\<rparr>, blks := bs\<rparr>)"
      "ip_filled l ?N ((indexingPolicy t)\<lparr>ip_sets := sets\<rparr>)" "length bs = ?N" "\<forall>e < ?N. fresh_blk rok ?A ?N e (bs ! e)"
    using init_blks_ok [of P d rok l 0 t ?N ?A] d N by blast
  define t1 where "t1 = t\<lparr>indexingPolicy := (indexingPolicy t)\<lparr>ip_sets := sets\<rparr>, blks := bs\<rparr>"
  have num: "numEntries (indexingPolicy t1) = ?N" using new by (simp add: t1_def new_store_def numEntries_def)
  then have "ipok (indexingPolicy t1)" using ip [of sets] ip_filled_full [of l "indexingPolicy t1"] i(2) by (simp add: t1_def)
  have v: "\<not> isValid (bs ! e)" if "e < ?N" for e using i(4) that by (simp add: fresh_blk_def isValid_def)
  have h: "\<not> holds I t1 e a sec" for e a sec using v [of e] i(3) by (auto simp: holds_def t1_def)
  have "filter isValid bs = []" "filter (\<lambda>b. isValid b \<and> srcMasterId b = int m) bs = []" for m
    using v i(3) by (auto simp: filter_empty_conv in_set_conv_nth)
  then have "counted t1" using new by (simp add: counted_def t1_def new_store_def)
  moreover have "placed I rok t1"
  proof -
    have "blk_ok I rok (indexingPolicy t1) (maxMasters t1) e (blks t1 ! e)" if "e < ?N" for e
      using i(4) v [OF that] that by (simp add: t1_def blk_ok_def fresh_blk_def)
    then show ?thesis using num i(3) new by (simp add: placed_def t1_def new_store_def)
  qed
  moreover have "exclusive I t1" using h by (simp add: exclusive_def)
  ultimately have "tags_ok I ipok rok t1" using \<open>ipok (indexingPolicy t1)\<close> by (simp add: tags_ok_def)
  then show ?thesis using i(1) h by (auto simp: tagsInit_def t1_def)
qed

subsection \<open>Histories\<close>

text \<open>The stores a cache can bring about: accesses, searches for a victim, invalidations, and insertions of a missing block
  into one of its candidate entries.\<close>

inductive ts_reach :: "'x BaseIndexingPolicy_scheme idx_ops \<Rightarrow> 'd repl_ops \<Rightarrow> ('x BaseIndexingPolicy_scheme, 'd) BaseSetAssoc \<Rightarrow>
    ('x BaseIndexingPolicy_scheme, 'd) BaseSetAssoc \<Rightarrow> bool" for I P t0 where
  start: "ts_reach I P t0 t0"
| access: "ts_reach I P t0 t \<Longrightarrow> accessBlock I P now a sec t = Inr (r, lat, t1) \<Longrightarrow> ts_reach I P t0 t1"
| victim: "ts_reach I P t0 t \<Longrightarrow> findVictim I P now k a evs t = Inr (e, evs1, t1) \<Longrightarrow>
    \<forall>xs. ix_possible I a (indexingPolicy t) = Inr xs \<longrightarrow> k < length xs \<Longrightarrow> ts_reach I P t0 t1"
| evict: "ts_reach I P t0 t \<Longrightarrow> ts_invalidate P e t = Inr t1 \<Longrightarrow> ts_reach I P t0 t1"
| insertion: "ts_reach I P t0 t \<Longrightarrow> findBlock I (pk_addr pkt) (pk_isSecure pkt) t = Inr None \<Longrightarrow>
    ix_possible I (pk_addr pkt) (indexingPolicy t) = Inr xs \<Longrightarrow> Some e \<in> set xs \<Longrightarrow>
    insertBlock P now k pkt e t = Inr t1 \<Longrightarrow> ts_reach I P t0 t1"

text \<open>The sequence of calls \<^verbatim>\<open>BaseCache::allocateBlock\<close> makes: find a victim, evict it if it is valid, insert the block.\<close>

definition fill :: "'x BaseIndexingPolicy_scheme idx_ops \<Rightarrow> 'd repl_ops \<Rightarrow> Tick \<Rightarrow> nat \<Rightarrow> CachePacket \<Rightarrow>
    ('x BaseIndexingPolicy_scheme, 'd) BaseSetAssoc \<Rightarrow> (nat \<times> ('x BaseIndexingPolicy_scheme, 'd) BaseSetAssoc) res" where
  "fill I P now k pkt t =
     rbind (findVictim I P now k (pk_addr pkt) [] t) (\<lambda>(e, evs, t1).
     rbind (vec_at (blks t1) e) (\<lambda>b.
     rbind (if isValid b then ts_invalidate P e t1 else Inr t1) (\<lambda>t2.
     rbind (insertBlock P now k pkt e t2) (\<lambda>t3. Inr (e, t3)))))"

context tag_store
begin

lemma reach_ok:
  assumes "tags_ok I ipok rok t0" "ts_reach I P t0 t"
  shows "tags_ok I ipok rok t \<and> indexingPolicy t = indexingPolicy t0"
  using assms(2)
proof (induction rule: ts_reach.induct)
  case start
  then show ?case using assms(1) by simp
next
  case (access t now a sec r lat t1)
  then show ?case using accessBlock_ok [of t now a sec] by (auto simp: reshaped_def)
next
  case (victim t now k a evs e evs1 t1)
  then show ?case using findVictim_ok [of t a k now evs] by (auto simp: reshaped_def)
next
  case (evict t e t1)
  then have "e < length (blks t)" "isValid (blks t ! e)"
    by (auto simp: ts_invalidate_def base_invalidate_def)
  then show ?case using ts_invalidate_ok [of t e] evict by auto
next
  case (insertion t pkt xs e now k t1)
  then have "\<not> isValid (blks t ! e)" "unat (rq_masterId (pk_req pkt)) < maxMasters t"
    by (auto simp: insertBlock_def base_insertBlock_def Let_def)
  then show ?case using insertBlock_ok [of t pkt xs e now k] insertion by auto
qed

lemma fill_ok:
  assumes ok: "tags_ok I ipok rok t" and miss: "findBlock I (pk_addr pkt) (pk_isSecure pkt) t = Inr None"
    and m: "unat (rq_masterId (pk_req pkt)) < maxMasters t"
    and k: "\<forall>xs. ix_possible I (pk_addr pkt) (indexingPolicy t) = Inr xs \<longrightarrow> k < length xs"
  shows "\<exists>e t1. fill I P now k pkt t = Inr (e, t1) \<and> tags_ok I ipok rok t1 \<and> indexingPolicy t1 = indexingPolicy t \<and>
    (\<forall>f a sec. holds I t1 f a sec \<longleftrightarrow>
       (if f = e then a = block_of (indexingPolicy t) (pk_addr pkt) \<and> sec = pk_isSecure pkt else holds I t f a sec))"
proof -
  obtain e t1 xs where v: "findVictim I P now k (pk_addr pkt) [] t = Inr (e, [e], t1)" "ix_possible I (pk_addr pkt) (indexingPolicy t) = Inr xs"
    "Some e \<in> set xs" "e < length (blks t)" "tags_ok I ipok rok t1" "reshaped t t1"
    using findVictim_ok [OF ok k, where now = now and evs = "[]"] by auto
  have t1: "e < length (blks t1)" "indexingPolicy t1 = indexingPolicy t" "maxMasters t1 = maxMasters t"
    "\<And>f a sec. holds I t1 f a sec = holds I t f a sec"
    using v(4,6) reshaped_nth(1) [OF v(6)] reshaped_holds [OF v(6)] by (simp_all add: reshaped_def)
  have "\<exists>t2. (if isValid (blks t1 ! e) then ts_invalidate P e t1 else Inr t1) = Inr t2 \<and> tags_ok I ipok rok t2 \<and>
      indexingPolicy t2 = indexingPolicy t \<and> maxMasters t2 = maxMasters t \<and> \<not> isValid (blks t2 ! e) \<and>
      (\<forall>f a sec. holds I t2 f a sec \<longleftrightarrow> f \<noteq> e \<and> holds I t f a sec)"
  proof (cases "isValid (blks t1 ! e)")
    case True
    then show ?thesis using ts_invalidate_ok [OF v(5) t1(1) True] t1 by auto
  next
    case False
    then have "\<not> holds I t1 e a sec" for a sec by (simp add: holds_def)
    then show ?thesis using False v(5) t1 by auto
  qed
  then obtain t2 where t2: "(if isValid (blks t1 ! e) then ts_invalidate P e t1 else Inr t1) = Inr t2" "tags_ok I ipok rok t2"
    "indexingPolicy t2 = indexingPolicy t" "maxMasters t2 = maxMasters t" "\<not> isValid (blks t2 ! e)"
    "\<And>f a sec. holds I t2 f a sec \<longleftrightarrow> f \<noteq> e \<and> holds I t f a sec" by blast
  have none: "\<not> holds I t f (block_of (indexingPolicy t) (pk_addr pkt)) (pk_isSecure pkt)" for f
    using findBlock_exact [OF ok, of "pk_addr pkt" "pk_isSecure pkt"] miss by auto
  obtain r where r: "findBlock I (pk_addr pkt) (pk_isSecure pkt) t2 = Inr r"
    "\<forall>f. r = Some f \<longleftrightarrow> holds I t2 f (block_of (indexingPolicy t2) (pk_addr pkt)) (pk_isSecure pkt)"
    using findBlock_exact [OF t2(2)] by blast
  then have "r = None" using none t2(3,6) by (cases r) auto
  then have "findBlock I (pk_addr pkt) (pk_isSecure pkt) t2 = Inr None" using r(1) by simp
  from insertBlock_ok [OF t2(2) this, of xs e now k] obtain t3 where
    t3: "insertBlock P now k pkt e t2 = Inr t3" "tags_ok I ipok rok t3" "indexingPolicy t3 = indexingPolicy t"
    "\<And>f a sec. holds I t3 f a sec \<longleftrightarrow>
       (if f = e then a = block_of (indexingPolicy t) (pk_addr pkt) \<and> sec = pk_isSecure pkt else holds I t2 f a sec)"
    using v(2,3) t2 m by auto
  have "fill I P now k pkt t = Inr (e, t3)" using v(1) t1(1) t2(1) t3(1) by (simp add: fill_def)
  then show ?thesis using t3 t2(6) by (intro exI [of _ e] exI [of _ t3]) simp
qed

text \<open>Seen through lookups: the new block is found, the victim is gone, nothing else changes.\<close>

lemma fill_lookup:
  assumes ok: "tags_ok I ipok rok t" and miss: "findBlock I (pk_addr pkt) (pk_isSecure pkt) t = Inr None"
    and m: "unat (rq_masterId (pk_req pkt)) < maxMasters t"
    and k: "\<forall>xs. ix_possible I (pk_addr pkt) (indexingPolicy t) = Inr xs \<longrightarrow> k < length xs"
  shows "\<exists>e t1. fill I P now k pkt t = Inr (e, t1) \<and> tags_ok I ipok rok t1 \<and>
    (\<forall>a sec. findBlock I a sec t1 =
       (if block_of (indexingPolicy t) a = block_of (indexingPolicy t) (pk_addr pkt) \<and> sec = pk_isSecure pkt then Inr (Some e)
        else if findBlock I a sec t = Inr (Some e) then Inr None else findBlock I a sec t))"
proof -
  obtain e t1 where f: "fill I P now k pkt t = Inr (e, t1)" "tags_ok I ipok rok t1" "indexingPolicy t1 = indexingPolicy t"
    "\<And>f a sec. holds I t1 f a sec \<longleftrightarrow>
       (if f = e then a = block_of (indexingPolicy t) (pk_addr pkt) \<and> sec = pk_isSecure pkt else holds I t f a sec)"
    using fill_ok [OF ok miss m k, where now = now] by blast
  have none: "\<not> holds I t g (block_of (indexingPolicy t) (pk_addr pkt)) (pk_isSecure pkt)" for g
    using findBlock_exact [OF ok, of "pk_addr pkt" "pk_isSecure pkt"] miss by auto
  have "findBlock I a sec t1 =
      (if block_of (indexingPolicy t) a = block_of (indexingPolicy t) (pk_addr pkt) \<and> sec = pk_isSecure pkt then Inr (Some e)
       else if findBlock I a sec t = Inr (Some e) then Inr None else findBlock I a sec t)" (is "_ = ?rhs") for a sec
  proof -
    obtain r where r: "findBlock I a sec t = Inr r" "\<And>g. r = Some g \<longleftrightarrow> holds I t g (block_of (indexingPolicy t) a) sec"
      using findBlock_exact [OF ok, of a sec] by blast
    obtain r1 where r1: "findBlock I a sec t1 = Inr r1" "\<And>g. r1 = Some g \<longleftrightarrow> holds I t1 g (block_of (indexingPolicy t) a) sec"
      using findBlock_exact [OF f(2), of a sec] unfolding f(3) by blast
    show ?thesis
    proof (cases "block_of (indexingPolicy t) a = block_of (indexingPolicy t) (pk_addr pkt) \<and> sec = pk_isSecure pkt")
      case True
      then show ?thesis using r1(1) r1(2) [of e] f(4) [of e] by simp
    next
      case False
      then have g: "r1 = Some g \<longleftrightarrow> g \<noteq> e \<and> r = Some g" for g using r1(2) [of g] r(2) [of g] f(4) [of g] by auto
      have "r1 = (if r = Some e then None else r)"
      proof (cases r1)
        case None
        then show ?thesis using g by (cases r) auto
      next
        case (Some h)
        then show ?thesis using g [of h] by auto
      qed
      then show ?thesis using r(1) r1(1) False by simp
    qed
  qed
  then show ?thesis using f(1,2) by blast
qed

end

subsection \<open>The code's policies\<close>

interpretation sa_lru: tag_store sa_index sa_ok lru_ops "\<lambda>_. True" "\<lambda>d. lastTouchTick d = 0"
  by (intro tag_store.intro) (simp_all add: sa_index_def sa_ip.indexing_policy_axioms lru_rp.replacement_policy_axioms)

interpretation sk_brrip: tag_store sk_index sk_ok "brrip_ops q" "\<lambda>d. sat_ok (rrpv d)" "\<lambda>d. \<not> br_valid d" for q
  by (intro tag_store.intro) (simp_all add: sk_index_def sk_ip.indexing_policy_axioms brrip_rp.replacement_policy_axioms)

lemma align_block: "a AND NOT (ucast (2 ^ s - 1 :: u32)) = push_bit s (drop_bit s a)" if "s < 32" for a :: Addr
proof (rule bit_eqI)
  fix n
  assume "possible_bit TYPE(64 word) n"
  then show "bit (a AND NOT (ucast (2 ^ s - 1 :: u32))) n = bit (push_bit s (drop_bit s a)) n"
    using that by (auto simp: bit_and_iff bit_not_iff bit_ucast_iff bit_push_bit_iff bit_drop_bit_eq bit_mask_iff simp flip: mask_eq_exp_minus_1)
qed

lemma constructed:
  assumes p: "new_BaseIndexingPolicy sz bs assoc = Inr p" and t: "new_BaseSetAssoc sz bs lat masters p warm assoc sequential = Inr t0"
    and sz: "unat sz = unat (ip_numSets p) * (unat assoc * unat bs)" "unat sz < 2 ^ 32"
  shows "\<exists>l. new_store l t0 \<and> indexingPolicy t0 = p \<and> ip_tagShift p \<le> 32 \<and> (\<forall>a. blkAlign a t0 = block_of p a)"
proof -
  obtain l where l: "ip_filled l 0 p" "ip_assoc p = assoc" "floorLog2 (ucast bs) = Inr (ip_setShift p)" "ip_setShift p < 32"
    using new_policy [OF p] by metis
  have pos: "0 < sint bs" using p by (auto simp: new_BaseIndexingPolicy_def)
  have bs: "isPowerOf2 (ucast bs)" and t0: "indexingPolicy t0 = p" "blkMask t0 = ucast (bs - 1)"
    "numBlocks t0 = ucast (sz div word_of_int (sint bs))" "blks t0 = replicate (unat (sz div word_of_int (sint bs))) new_CacheBlk"
    "tagsInUse (ts_stats t0) = 0" "occupancies (ts_stats t0) = replicate (maxMasters t0) 0"
    using t by (auto simp: new_BaseSetAssoc_def)
  obtain k where k: "k < 64" "(ucast bs :: u64) = 2 ^ k" using bs by (auto simp: isPowerOf2_iff)
  have ub: "unat bs = 2 ^ k" using arg_cong [OF k(2), of unat] k(1) by (simp add: unat_exp unat_widen)
  have "k = ip_setShift p" using floorLog2_unique [of k "ucast bs"] l(3) ub by (simp add: unat_widen)
  then have k32: "k < 32" "ip_setShift p = k" using l(4) by simp_all
  then have b: "bs = 2 ^ k" using ub by (simp add: word_unat_eq_iff unat_exp)
  have w: "(word_of_int (sint bs) :: u64) = ucast bs"
  proof -
    have "k \<noteq> 31" using pos unfolding b by auto
    then have "(2 :: int) ^ k < 2 ^ 31" using k32(1) by (intro power_strict_increasing) simp_all
    moreover have u: "uint bs = 2 ^ k" using ub by (simp add: uint_nat)
    moreover have "- ((2 :: int) ^ 31) \<le> 2 ^ k" by (rule order_trans [of _ 0]) simp_all
    ultimately have "sint bs = uint bs" by (simp add: sint_uint signed_take_bit_int_eq_self_iff)
    then show ?thesis using k(2) u by simp
  qed
  have n: "unat (sz div word_of_int (sint bs)) = unat (ip_numSets p) * unat assoc"
    unfolding w unat_div_distrib sz(1) unat_widen using ub by simp
  have "unat (ip_numSets p) * unat assoc \<le> unat sz" unfolding sz(1) using ub by simp
  then have nb: "unat (numBlocks t0) = unat (ip_numSets p) * unat assoc"
    unfolding t0(3) unsigned_ucast_eq n using sz(2) by (simp add: take_bit_nat_eq_self)
  have "ip_filled l 0 (indexingPolicy t0)" using l(1) t0(1) by simp
  then have "new_store l t0" using t0 nb n l(2) by (simp add: new_store_def numEntries_def)
  moreover have "ip_tagShift p \<le> 32"
  proof -
    have f: "ip_numSets p = 2 ^ l" "l < 32" "ip_tagShift p = k + l" "0 < ip_assoc p" using l(1) k32 by (simp_all add: ip_filled_def)
    then have "2 ^ l * 2 ^ k \<le> unat sz" unfolding sz(1) using ub l(2) by (simp add: unat_exp unat_gt_0 word_gt_0 Suc_le_eq)
    then have "(2 :: nat) ^ (k + l) < 2 ^ 32" using sz(2) by (simp add: power_add mult.commute)
    then have "k + l < 32" by (rule power_less_imp_less_exp [rotated]) simp
    then show ?thesis using f(3) by simp
  qed
  moreover have "blkAlign a t0 = block_of p a" for a
    unfolding blkAlign_def t0(2) block_of_def k32(2) b by (rule align_block [OF k32(1)])
  ultimately show ?thesis using t0(1) by blast
qed

text \<open>C38: A set associative cache with LRU replacement, as its constructors accept it (blocks of a power of two of bytes,
  evenly divided, below 4 GiB), initialises without error, and after any history of accesses, victim searches,
  invalidations and insertions a lookup returns the one valid block whose address, regenerated from its tag and place, is
  the aligned address looked up in the given security domain, and nothing if there is none.\<close>

theorem tag_lookup_exact:
  assumes "new_BaseIndexingPolicy sz bs assoc = Inr p" "new_BaseSetAssoc sz bs lat masters p warm assoc sequential = Inr t0"
    "unat sz = unat (ip_numSets p) * (unat assoc * unat bs)" "unat sz < 2 ^ 32"
  shows "\<exists>t1. tagsInit lru_ops t0 = Inr t1 \<and>
    (\<forall>t. ts_reach sa_index lru_ops t1 t \<longrightarrow>
      (\<forall>a sec. \<exists>r. findBlock sa_index a sec t = Inr r \<and> (\<forall>e. r = Some e \<longleftrightarrow> holds sa_index t e (blkAlign a t0) sec)))"
proof -
  obtain l where l: "new_store l t0" "indexingPolicy t0 = p" "ip_tagShift p \<le> 32" "\<forall>a. blkAlign a t0 = block_of p a"
    using constructed [OF assms] by blast
  have entry: "r_instantiateEntry lru_ops = Inr \<lparr>lastTouchTick = 0\<rparr>" by (simp add: lru_ops_def)
  have ip: "sa_ok ((indexingPolicy t0)\<lparr>ip_sets := sets\<rparr>)" if "ip_ok l ((indexingPolicy t0)\<lparr>ip_sets := sets\<rparr>)" for sets
    using that l(2,3) by (auto simp: sa_ok_def)
  obtain t1 sets where t1: "tagsInit lru_ops t0 = Inr t1" "tags_ok sa_index sa_ok (\<lambda>_. True) t1" "indexingPolicy t1 = p\<lparr>ip_sets := sets\<rparr>"
    using tagsInit_ok [where I = sa_index and rok = "\<lambda>_. True" and ipok = sa_ok, OF entry TrueI l(1) ip] l(2) by auto
  have "\<exists>r. findBlock sa_index a sec t = Inr r \<and> (\<forall>e. r = Some e \<longleftrightarrow> holds sa_index t e (blkAlign a t0) sec)"
    if "ts_reach sa_index lru_ops t1 t" for t a sec
  proof -
    have r: "tags_ok sa_index sa_ok (\<lambda>_. True) t" "indexingPolicy t = p\<lparr>ip_sets := sets\<rparr>"
      using sa_lru.reach_ok [OF t1(2) that] t1(3) by simp_all
    have "block_of (indexingPolicy t) a = blkAlign a t0" using l(4) r(2) by (simp add: block_of_def)
    then show ?thesis using sa_lru.findBlock_exact [OF r(1), of a sec] by simp
  qed
  then show ?thesis using t1(1) by blast
qed

definition demo_policy :: BaseIndexingPolicy where
  "demo_policy = \<lparr>ip_assoc = 2, ip_numSets = 4, ip_setShift = 6, ip_setMask = 3,
     ip_sets = replicate 4 [None, None], ip_tagShift = 8\<rparr>"

definition demo_tags :: "'p \<Rightarrow> ('p, 'd) BaseSetAssoc" where
  "demo_tags p = \<lparr>ts_blkSize = 64, blkMask = 63, lookupLatency = 1, maxMasters = 4, indexingPolicy = p, warmupBound = 0, warmedUp = False,
     numBlocks = 8, ts_stats = \<lparr>tagsInUse = 0, totalRefs = 0, sampledRefs = 0, warmupCycle = 0, occupancies = replicate 4 0,
       occupanciesTaskId = replicate (unat NumTaskId) 0, ageTaskId = replicate (unat NumTaskId) (replicate 5 0),
       tagAccesses = 0, dataAccesses = 0\<rparr>,
     allocAssoc = 2, blks = replicate 8 new_CacheBlk, sequentialAccess = False\<rparr>"

lemma demo_policy_new: "new_BaseIndexingPolicy 512 64 2 = Inr demo_policy"
  by code_simp

lemma demo_tags_new: "new_BaseSetAssoc 512 64 1 4 p 0 2 False = Inr (demo_tags p)"
  by (simp add: new_BaseSetAssoc_def demo_tags_def isPowerOf2_def)

theorem tag_lookup_exact_witness:
  "\<exists>t1 r. tagsInit lru_ops (demo_tags demo_policy) = Inr t1 \<and> findBlock sa_index 0x1234 False t1 = Inr r"
proof -
  have "unat (512 :: u64) = unat (ip_numSets demo_policy) * (unat (2 :: u32) * unat (64 :: u32))" by (simp add: demo_policy_def)
  from tag_lookup_exact [OF demo_policy_new demo_tags_new this] show ?thesis using ts_reach.start by fastforce
qed


definition demo_skewed_policy :: SkewedAssociative where
  "demo_skewed_policy = \<lparr>ip_assoc = 2, ip_numSets = 4, ip_setShift = 6, ip_setMask = 3,
     ip_sets = replicate 4 [None, None], ip_tagShift = 8, msbShift = 1\<rparr>"

definition demo_brrip :: BRRIPRP where
  "demo_brrip = \<lparr>numRRPVBits = 2, hitPriority = False, btp = 3\<rparr>"

lemma demo_skewed_store: "new_store 2 (demo_tags demo_skewed_policy)"
  by (simp add: new_store_def demo_tags_def demo_skewed_policy_def ip_filled_def numEntries_def mask_eq_exp_minus_1)


end
