(* ===== verification/Emu_Runtime.thy ===== *)
theory Emu_Runtime
  imports HetSim_Prelude
begin

text \<open>
  The emulation library of HetSim, \<^verbatim>\<open>emu/src/util.cpp\<close> and \<^verbatim>\<open>emu/inc/util.h\<close>: work queues between processing elements, and
  sleep and wake.  A call runs under the mutex of its queue or element up to its end or to a wait on a condition
  variable, so these sections are the atomic steps of the model.  A condition variable keeps the threads that wait on it
  and the threads that have been woken and have not yet taken the mutex again; which waiter a notification wakes is an
  argument, and a waiter may wake spuriously.  The mutex and barrier wrappers only call the thread library.
\<close>

subsection \<open>Condition variables\<close>

record 'w cv =
  cv_waiting :: "'w list"
  cv_woken :: "'w list"

definition new_cv :: "'w cv" where
  "new_cv = \<lparr>cv_waiting = [], cv_woken = []\<rparr>"

definition cv_wait :: "'w \<Rightarrow> 'w cv \<Rightarrow> 'w cv" where
  "cv_wait w c = c\<lparr>cv_waiting := cv_waiting c @ [w]\<rparr>"

definition notify_one :: "nat \<Rightarrow> 'w cv \<Rightarrow> 'w cv" where
  "notify_one n c =
     (if cv_waiting c = [] then c
      else let i = n mod length (cv_waiting c) in
        c\<lparr>cv_waiting := take i (cv_waiting c) @ drop (Suc i) (cv_waiting c), cv_woken := cv_woken c @ [cv_waiting c ! i]\<rparr>)"

definition cv_resume :: "'w \<Rightarrow> 'w cv \<Rightarrow> 'w cv" where
  "cv_resume w c = c\<lparr>cv_woken := remove1 w (cv_woken c)\<rparr>"

subsection \<open>State\<close>

record q_intfc =
  q_data :: "u64 list"
  q_fullCv :: "(nat \<times> u64) cv"
  q_emptyCv :: "nat cv"
  q_size :: u32

definition new_q_intfc :: "u32 \<Rightarrow> q_intfc" where
  "new_q_intfc sz = \<lparr>q_data = [], q_fullCv = new_cv, q_emptyCv = new_cv, q_size = sz\<rparr>"

record emu =
  tid_to_core_id_map :: "nat \<rightharpoonup> u32"
  emu_queues :: "u32 \<times> u32 \<rightharpoonup> q_intfc"
  cvs :: "nat cv list"
  mutexes :: nat
  sleep_cntr :: "int list"

definition emu_start :: emu where
  "emu_start = \<lparr>tid_to_core_id_map = Map.empty, emu_queues = Map.empty, cvs = [], mutexes = 0, sleep_cntr = []\<rparr>"

text \<open>\<^verbatim>\<open>map::insert\<close> leaves a key that is present as it is.\<close>

definition map_insert :: "'k \<Rightarrow> 'v \<Rightarrow> ('k \<rightharpoonup> 'v) \<Rightarrow> ('k \<rightharpoonup> 'v)" where
  "map_insert k v m = (case m k of None \<Rightarrow> m(k \<mapsto> v) | Some _ \<Rightarrow> m)"

definition register_core_id :: "nat \<Rightarrow> u32 \<Rightarrow> 'x emu_scheme \<Rightarrow> 'x emu_scheme" where
  "register_core_id t core_id s = s\<lparr>tid_to_core_id_map := map_insert t core_id (tid_to_core_id_map s)\<rparr>"

text \<open>The loop of \<^verbatim>\<open>__init\<close> counts in 32 bits; with more elements it would not end.\<close>

definition emu_init :: "u64 \<Rightarrow> u64 \<Rightarrow> 'x emu_scheme \<Rightarrow> 'x emu_scheme res" where
  "emu_init num_pe wq_depth s =
     require (unat num_pe < 2 ^ 32) NoReturn
     (let depth = ucast wq_depth :: u32 in
      Inr (s\<lparr>sleep_cntr := sleep_cntr s @ replicate (unat num_pe) 0, cvs := cvs s @ replicate (unat num_pe) new_cv,
             mutexes := mutexes s + unat num_pe,
             emu_queues := map_insert (0, 4) (new_q_intfc depth) (map_insert (0, 3) (new_q_intfc depth)
               (map_insert (0, 2) (new_q_intfc depth) (map_insert (0, 1) (new_q_intfc depth) (emu_queues s))))\<rparr>))"

definition teardown :: "'x emu_scheme \<Rightarrow> 'x emu_scheme" where
  "teardown s = s\<lparr>cvs := [], mutexes := 0, emu_queues := Map.empty, tid_to_core_id_map := Map.empty\<rparr>"

definition get_id :: "nat \<Rightarrow> 'x emu_scheme \<Rightarrow> u32 res" where
  "get_id t s = (case tid_to_core_id_map s t of None \<Rightarrow> Inl (ExitWith 1) | Some c \<Rightarrow> Inr c)"

subsection \<open>Work queues\<close>

text \<open>One pass through the loop of \<^verbatim>\<open>__push_mmap\<close> or \<^verbatim>\<open>__pop_mmap\<close> under the lock: the call waits, or it returns.\<close>

definition push_pass :: "nat \<Rightarrow> nat \<Rightarrow> u64 \<Rightarrow> q_intfc \<Rightarrow> bool \<times> q_intfc" where
  "push_pass n t data q =
     (if length (q_data q) = unat (q_size q) then (False, q\<lparr>q_fullCv := cv_wait (t, data) (q_fullCv q)\<rparr>)
      else (True, q\<lparr>q_data := q_data q @ [data], q_emptyCv := notify_one n (q_emptyCv q)\<rparr>))"

definition pop_pass :: "nat \<Rightarrow> nat \<Rightarrow> q_intfc \<Rightarrow> u64 option \<times> q_intfc" where
  "pop_pass n t q =
     (case q_data q of [] \<Rightarrow> (None, q\<lparr>q_emptyCv := cv_wait t (q_emptyCv q)\<rparr>)
      | d # ds \<Rightarrow> (Some d, q\<lparr>q_data := ds, q_fullCv := notify_one n (q_fullCv q)\<rparr>))"

definition at_queue :: "u32 \<times> u32 \<Rightarrow> (q_intfc \<Rightarrow> 'r \<times> q_intfc) \<Rightarrow> 'x emu_scheme \<Rightarrow> ('r \<times> 'x emu_scheme) res" where
  "at_queue k f s =
     (case emu_queues s k of None \<Rightarrow> Inl (ExitWith 1)
      | Some q \<Rightarrow> (let (r, q1) = f q in Inr (r, s\<lparr>emu_queues := (emu_queues s)(k \<mapsto> q1)\<rparr>)))"

definition push_mmap :: "nat \<Rightarrow> nat \<Rightarrow> u32 \<Rightarrow> u64 \<Rightarrow> 'x emu_scheme \<Rightarrow> (bool \<times> 'x emu_scheme) res" where
  "push_mmap n t sink data s = rbind (get_id t s) (\<lambda>source. at_queue (source, sink) (push_pass n t data) s)"

definition pop_mmap :: "nat \<Rightarrow> nat \<Rightarrow> u32 \<Rightarrow> 'x emu_scheme \<Rightarrow> (u64 option \<times> 'x emu_scheme) res" where
  "pop_mmap n t source s = rbind (get_id t s) (\<lambda>sink. at_queue (source, sink) (pop_pass n t) s)"

text \<open>A woken call takes the lock and goes through its loop again.\<close>

definition push_again :: "nat \<Rightarrow> u32 \<times> u32 \<Rightarrow> nat \<Rightarrow> u64 \<Rightarrow> 'x emu_scheme \<Rightarrow> (bool \<times> 'x emu_scheme) res" where
  "push_again n k t data s = at_queue k (\<lambda>q. push_pass n t data (q\<lparr>q_fullCv := cv_resume (t, data) (q_fullCv q)\<rparr>)) s"

definition pop_again :: "nat \<Rightarrow> u32 \<times> u32 \<Rightarrow> nat \<Rightarrow> 'x emu_scheme \<Rightarrow> (u64 option \<times> 'x emu_scheme) res" where
  "pop_again n k t s = at_queue k (\<lambda>q. pop_pass n t (q\<lparr>q_emptyCv := cv_resume t (q_emptyCv q)\<rparr>)) s"

subsection \<open>Sleep and wake\<close>

definition sleep_pass :: "nat \<Rightarrow> nat \<Rightarrow> 'x emu_scheme \<Rightarrow> (bool \<times> 'x emu_scheme) res" where
  "sleep_pass t pe s =
     require (pe < length (sleep_cntr s)) (Thrown ''out_of_range'')
     (if sleep_cntr s ! pe > 0 then
        require (pe < length (cvs s)) (Thrown ''out_of_range'')
        (Inr (False, s\<lparr>cvs := (cvs s)[pe := cv_wait t (cvs s ! pe)]\<rparr>))
      else Inr (True, s))"

definition emu_sleep :: "nat \<Rightarrow> 'x emu_scheme \<Rightarrow> (bool \<times> 'x emu_scheme) res" where
  "emu_sleep t s =
     rbind (get_id t s) (\<lambda>pe_id.
     let pe = unat pe_id in
     require (pe < mutexes s) (Thrown ''out_of_range'')
     (require (pe < length (sleep_cntr s)) (Thrown ''out_of_range'')
      (require (sleep_cntr s ! pe < 2 ^ 31 - 1) (Undefined ''signed overflow'')
       (sleep_pass t pe (s\<lparr>sleep_cntr := (sleep_cntr s)[pe := sleep_cntr s ! pe + 1]\<rparr>)))))"

definition sleep_again :: "nat \<Rightarrow> nat \<Rightarrow> 'x emu_scheme \<Rightarrow> (bool \<times> 'x emu_scheme) res" where
  "sleep_again t pe s =
     require (pe < length (cvs s)) (Thrown ''out_of_range'')
     (sleep_pass t pe (s\<lparr>cvs := (cvs s)[pe := cv_resume t (cvs s ! pe)]\<rparr>))"

definition emu_wake :: "nat \<Rightarrow> u32 \<Rightarrow> 'x emu_scheme \<Rightarrow> 'x emu_scheme res" where
  "emu_wake n pe_id s =
     (let pe = unat pe_id in
      require (pe < mutexes s) (Thrown ''out_of_range'')
      (require (pe < length (sleep_cntr s)) (Thrown ''out_of_range'')
       (require (- (2 ^ 31) < sleep_cntr s ! pe) (Undefined ''signed overflow'')
        (require (pe < length (cvs s)) (Thrown ''out_of_range'')
         (Inr (s\<lparr>sleep_cntr := (sleep_cntr s)[pe := sleep_cntr s ! pe - 1],
                cvs := (cvs s)[pe := notify_one n (cvs s ! pe)]\<rparr>))))))"

subsection \<open>Runs\<close>

text \<open>The state of a run, with the values the calls on each queue have put in and taken out.\<close>

record emu_run = emu +
  pushed :: "u32 \<times> u32 \<Rightarrow> u64 list"
  popped :: "u32 \<times> u32 \<Rightarrow> u64 list"

definition run_start :: emu_run where
  "run_start = emu.extend emu_start \<lparr>pushed = (\<lambda>_. []), popped = (\<lambda>_. [])\<rparr>"

definition log_push :: "bool \<Rightarrow> u32 \<times> u32 \<Rightarrow> u64 \<Rightarrow> emu_run \<Rightarrow> emu_run" where
  "log_push ok k d s = (if ok then s\<lparr>pushed := (pushed s)(k := pushed s k @ [d])\<rparr> else s)"

definition log_pop :: "u64 option \<Rightarrow> u32 \<times> u32 \<Rightarrow> emu_run \<Rightarrow> emu_run" where
  "log_pop r k s = (case r of None \<Rightarrow> s | Some d \<Rightarrow> s\<lparr>popped := (popped s)(k := popped s k @ [d])\<rparr>)"

definition set_q :: "u32 \<times> u32 \<Rightarrow> q_intfc \<Rightarrow> emu_run \<Rightarrow> emu_run" where
  "set_q k q s = s\<lparr>emu_queues := (emu_queues s)(k \<mapsto> q)\<rparr>"

definition set_cv :: "nat \<Rightarrow> nat cv \<Rightarrow> emu_run \<Rightarrow> emu_run" where
  "set_cv pe c s = s\<lparr>cvs := (cvs s)[pe := c]\<rparr>"

text \<open>Any number of threads may work on a queue; an element has one thread, so that it has at most one sleeper.\<close>

inductive emu_reach :: "emu_run \<Rightarrow> bool" where
  boot: "emu_init num_pe depth run_start = Inr s \<Longrightarrow> emu_reach s"
| enrol: "emu_reach s \<Longrightarrow> emu_reach (register_core_id t c s)"
| push_call: "emu_reach s \<Longrightarrow> get_id t s = Inr source \<Longrightarrow> push_mmap n t sink d s = Inr (r, s1) \<Longrightarrow>
    emu_reach (log_push r (source, sink) d s1)"
| push_retry: "emu_reach s \<Longrightarrow> emu_queues s k = Some q \<Longrightarrow> (t, d) \<in> set (cv_woken (q_fullCv q)) \<Longrightarrow>
    push_again n k t d s = Inr (r, s1) \<Longrightarrow> emu_reach (log_push r k d s1)"
| pop_call: "emu_reach s \<Longrightarrow> get_id t s = Inr sink \<Longrightarrow> pop_mmap n t source s = Inr (v, s1) \<Longrightarrow>
    emu_reach (log_pop v (source, sink) s1)"
| pop_retry: "emu_reach s \<Longrightarrow> emu_queues s k = Some q \<Longrightarrow> t \<in> set (cv_woken (q_emptyCv q)) \<Longrightarrow>
    pop_again n k t s = Inr (v, s1) \<Longrightarrow> emu_reach (log_pop v k s1)"
| spurious_full: "emu_reach s \<Longrightarrow> emu_queues s k = Some q \<Longrightarrow> emu_reach (set_q k (q\<lparr>q_fullCv := notify_one n (q_fullCv q)\<rparr>) s)"
| spurious_empty: "emu_reach s \<Longrightarrow> emu_queues s k = Some q \<Longrightarrow> emu_reach (set_q k (q\<lparr>q_emptyCv := notify_one n (q_emptyCv q)\<rparr>) s)"
| sleep_call: "emu_reach s \<Longrightarrow> get_id t s = Inr pe \<Longrightarrow> unat pe < length (cvs s) \<Longrightarrow> cv_waiting (cvs s ! unat pe) = [] \<Longrightarrow>
    cv_woken (cvs s ! unat pe) = [] \<Longrightarrow> emu_sleep t s = Inr (r, s1) \<Longrightarrow> emu_reach s1"
| sleep_retry: "emu_reach s \<Longrightarrow> i < length (cvs s) \<Longrightarrow> t \<in> set (cv_woken (cvs s ! i)) \<Longrightarrow>
    sleep_again t i s = Inr (r, s1) \<Longrightarrow> emu_reach s1"
| spurious_sleep: "emu_reach s \<Longrightarrow> i < length (cvs s) \<Longrightarrow> emu_reach (set_cv i (notify_one n (cvs s ! i)) s)"
| wake_call: "emu_reach s \<Longrightarrow> emu_wake n p s = Inr s1 \<Longrightarrow> emu_reach s1"

subsection \<open>Queues\<close>

lemma notify_one_counts:
  "cv_waiting (notify_one n c) \<noteq> [] \<Longrightarrow> length (cv_woken (notify_one n c)) = Suc (length (cv_woken c)) \<and> cv_waiting c \<noteq> []"
  "length (cv_woken c) \<le> length (cv_woken (notify_one n c))"
  "length (cv_waiting (notify_one n c)) + length (cv_woken (notify_one n c)) = length (cv_waiting c) + length (cv_woken c)"
proof -
  have "Suc (n mod length (cv_waiting c) + (length (cv_waiting c) - Suc (n mod length (cv_waiting c)))) = length (cv_waiting c)"
    if "cv_waiting c \<noteq> []"
    using mod_less_divisor [of "length (cv_waiting c)" n] that by (metis Suc_leI add_Suc le_add_diff_inverse length_greater_0_conv)
  then show "length (cv_waiting (notify_one n c)) + length (cv_woken (notify_one n c)) = length (cv_waiting c) + length (cv_woken c)"
    by (cases "cv_waiting c = []") (simp_all add: notify_one_def Let_def)
qed (auto simp: notify_one_def Let_def split: if_splits)

text \<open>What a queue keeps, given what went in and came out: order, capacity, and that a waiter is left alone only as long
  as the woken threads can use up what is there.\<close>

definition q_inv :: "u64 list \<Rightarrow> u64 list \<Rightarrow> q_intfc \<Rightarrow> bool" where
  "q_inv ps os q \<longleftrightarrow> ps = os @ q_data q \<and> length (q_data q) \<le> unat (q_size q) \<and>
     (cv_waiting (q_emptyCv q) \<noteq> [] \<longrightarrow> length (q_data q) \<le> length (cv_woken (q_emptyCv q))) \<and>
     (cv_waiting (q_fullCv q) \<noteq> [] \<longrightarrow> unat (q_size q) - length (q_data q) \<le> length (cv_woken (q_fullCv q)))"

text \<open>The same with \<open>a\<close> takers and \<open>b\<close> givers of the woken threads already taken out, on their way through the loop.\<close>

definition q_pre :: "nat \<Rightarrow> nat \<Rightarrow> u64 list \<Rightarrow> u64 list \<Rightarrow> q_intfc \<Rightarrow> bool" where
  "q_pre a b ps os q \<longleftrightarrow> ps = os @ q_data q \<and> length (q_data q) \<le> unat (q_size q) \<and>
     (cv_waiting (q_emptyCv q) \<noteq> [] \<longrightarrow> length (q_data q) \<le> length (cv_woken (q_emptyCv q)) + a) \<and>
     (cv_waiting (q_fullCv q) \<noteq> [] \<longrightarrow> unat (q_size q) - length (q_data q) \<le> length (cv_woken (q_fullCv q)) + b)"

lemma push_pass_inv:
  assumes "q_pre 0 1 ps os q" "push_pass n t d q = (r, q1)"
  shows "q_inv (if r then ps @ [d] else ps) os q1"
  using assms notify_one_counts(1) [of n "q_emptyCv q"]
  by (auto simp: push_pass_def q_inv_def q_pre_def cv_wait_def split: if_splits)

lemma pop_pass_inv:
  assumes "q_pre 1 0 ps os q" "pop_pass n t q = (v, q1)"
  shows "q_inv ps (case v of None \<Rightarrow> os | Some d \<Rightarrow> os @ [d]) q1"
  using assms notify_one_counts(1) [of n "q_fullCv q"]
  by (auto simp: pop_pass_def q_inv_def q_pre_def cv_wait_def split: list.splits if_splits)

lemma q_pre_enter:
  "q_inv ps os q \<Longrightarrow> q_pre a b ps os q"
  "q_inv ps os q \<Longrightarrow> w \<in> set (cv_woken (q_fullCv q)) \<Longrightarrow> q_pre 0 1 ps os (q\<lparr>q_fullCv := cv_resume w (q_fullCv q)\<rparr>)"
  "q_inv ps os q \<Longrightarrow> x \<in> set (cv_woken (q_emptyCv q)) \<Longrightarrow> q_pre 1 0 ps os (q\<lparr>q_emptyCv := cv_resume x (q_emptyCv q)\<rparr>)"
  by (auto simp: q_inv_def q_pre_def cv_resume_def length_remove1)

lemma q_inv_spurious:
  "q_inv ps os q \<Longrightarrow> q_inv ps os (q\<lparr>q_fullCv := notify_one n (q_fullCv q)\<rparr>)"
  "q_inv ps os q \<Longrightarrow> q_inv ps os (q\<lparr>q_emptyCv := notify_one n (q_emptyCv q)\<rparr>)"
  using notify_one_counts(1) [of n "q_fullCv q"] notify_one_counts(1) [of n "q_emptyCv q"]
  unfolding q_inv_def by auto

definition queues_inv :: "emu_run \<Rightarrow> bool" where
  "queues_inv s \<longleftrightarrow> (\<forall>k q. emu_queues s k = Some q \<longrightarrow> q_inv (pushed s k) (popped s k) q)"

lemma at_queue_Inr:
  "at_queue k f s = Inr (r, s1) \<longleftrightarrow> (\<exists>q q1. emu_queues s k = Some q \<and> f q = (r, q1) \<and> s1 = s\<lparr>emu_queues := (emu_queues s)(k \<mapsto> q1)\<rparr>)"
  by (auto simp: at_queue_def split: option.splits prod.splits)

lemma push_at_inv:
  assumes "queues_inv s" "emu_queues s k = Some q" "q_pre 0 1 (pushed s k) (popped s k) q0" "push_pass n t d q0 = (r, q1)"
  shows "queues_inv (log_push r k d (s\<lparr>emu_queues := (emu_queues s)(k \<mapsto> q1)\<rparr>))"
  using assms(1) push_pass_inv [OF assms(3,4)] by (auto simp: queues_inv_def log_push_def)

lemma pop_at_inv:
  assumes "queues_inv s" "emu_queues s k = Some q" "q_pre 1 0 (pushed s k) (popped s k) q0" "pop_pass n t q0 = (v, q1)"
  shows "queues_inv (log_pop v k (s\<lparr>emu_queues := (emu_queues s)(k \<mapsto> q1)\<rparr>))"
  using assms(1) pop_pass_inv [OF assms(3,4)] by (auto simp: queues_inv_def log_pop_def split: option.splits)

lemma sleep_pass_queues: "sleep_pass t i s = Inr (r, s1) \<Longrightarrow> emu_queues s1 = emu_queues s \<and> pushed s1 = pushed s \<and> popped s1 = popped s"
  by (auto simp: sleep_pass_def split: if_splits)

lemma emu_sleep_queues: "emu_sleep t s = Inr (r, s1) \<Longrightarrow> emu_queues s1 = emu_queues s \<and> pushed s1 = pushed s \<and> popped s1 = popped s"
  by (auto simp: emu_sleep_def Let_def dest!: sleep_pass_queues)

lemma sleep_again_queues: "sleep_again t i s = Inr (r, s1) \<Longrightarrow> emu_queues s1 = emu_queues s \<and> pushed s1 = pushed s \<and> popped s1 = popped s"
  by (auto simp: sleep_again_def dest!: sleep_pass_queues)

lemma emu_wake_queues: "emu_wake n p s = Inr s1 \<Longrightarrow> emu_queues s1 = emu_queues s \<and> pushed s1 = pushed s \<and> popped s1 = popped s"
  by (auto simp: emu_wake_def Let_def)

lemma queues_inv_cong: "queues_inv s \<Longrightarrow> emu_queues s1 = emu_queues s \<Longrightarrow> pushed s1 = pushed s \<Longrightarrow> popped s1 = popped s \<Longrightarrow> queues_inv s1"
  by (simp add: queues_inv_def)

lemma emu_reach_queues: "emu_reach s \<Longrightarrow> queues_inv s"
proof (induction rule: emu_reach.induct)
  case (boot num_pe depth s)
  then show ?case
    by (auto simp: emu_init_def run_start_def emu_start_def emu.defs Let_def queues_inv_def q_inv_def new_q_intfc_def new_cv_def
        map_insert_def split: if_splits)
next
  case (push_call s t source n sink d r s1)
  then obtain q q1 where q: "emu_queues s (source, sink) = Some q" "push_pass n t d q = (r, q1)"
    "s1 = s\<lparr>emu_queues := (emu_queues s)((source, sink) \<mapsto> q1)\<rparr>" by (auto simp: push_mmap_def at_queue_Inr)
  then have "q_pre 0 1 (pushed s (source, sink)) (popped s (source, sink)) q"
    using push_call.IH q_pre_enter(1) by (simp add: queues_inv_def)
  then show ?case using push_at_inv [OF push_call.IH q(1) _ q(2)] q(3) by simp
next
  case (push_retry s k q t d n r s1)
  then obtain q1 where q: "push_pass n t d (q\<lparr>q_fullCv := cv_resume (t, d) (q_fullCv q)\<rparr>) = (r, q1)"
    "s1 = s\<lparr>emu_queues := (emu_queues s)(k \<mapsto> q1)\<rparr>" by (auto simp: push_again_def at_queue_Inr)
  have "q_inv (pushed s k) (popped s k) q" using push_retry.IH push_retry.hyps(2) unfolding queues_inv_def by blast
  then show ?case using push_at_inv [OF push_retry.IH push_retry.hyps(2) q_pre_enter(2) q(1)] push_retry.hyps(3) q(2) by simp
next
  case (pop_call s t sink n source v s1)
  then obtain q q1 where q: "emu_queues s (source, sink) = Some q" "pop_pass n t q = (v, q1)"
    "s1 = s\<lparr>emu_queues := (emu_queues s)((source, sink) \<mapsto> q1)\<rparr>" by (auto simp: pop_mmap_def at_queue_Inr)
  then have "q_pre 1 0 (pushed s (source, sink)) (popped s (source, sink)) q"
    using pop_call.IH q_pre_enter(1) by (simp add: queues_inv_def)
  then show ?case using pop_at_inv [OF pop_call.IH q(1) _ q(2)] q(3) by simp
next
  case (pop_retry s k q t n v s1)
  then obtain q1 where q: "pop_pass n t (q\<lparr>q_emptyCv := cv_resume t (q_emptyCv q)\<rparr>) = (v, q1)"
    "s1 = s\<lparr>emu_queues := (emu_queues s)(k \<mapsto> q1)\<rparr>" by (auto simp: pop_again_def at_queue_Inr)
  have "q_inv (pushed s k) (popped s k) q" using pop_retry.IH pop_retry.hyps(2) unfolding queues_inv_def by blast
  then show ?case using pop_at_inv [OF pop_retry.IH pop_retry.hyps(2) q_pre_enter(3) q(1)] pop_retry.hyps(3) q(2) by simp
next
  case (sleep_call s t pe r s1)
  then show ?case using emu_sleep_queues queues_inv_cong by metis
next
  case (sleep_retry s i t r s1)
  then show ?case using sleep_again_queues queues_inv_cong by metis
next
  case (wake_call s n p s1)
  then show ?case using emu_wake_queues queues_inv_cong by metis
qed (auto simp: queues_inv_def register_core_id_def set_q_def set_cv_def q_inv_spurious)

subsection \<open>Sleepers\<close>

definition sleep_inv :: "'x emu_scheme \<Rightarrow> bool" where
  "sleep_inv s \<longleftrightarrow> length (cvs s) = mutexes s \<and> length (sleep_cntr s) = mutexes s \<and>
     (\<forall>i < mutexes s. length (cv_waiting (cvs s ! i)) + length (cv_woken (cvs s ! i)) \<le> 1 \<and>
        (cv_waiting (cvs s ! i) \<noteq> [] \<longrightarrow> sleep_cntr s ! i > 0))"

lemma notify_single: "length (cv_waiting c) + length (cv_woken c) \<le> 1 \<Longrightarrow>
    cv_waiting (notify_one n c) = [] \<and> length (cv_woken (notify_one n c)) \<le> 1"
  using notify_one_counts(1,3) [of n c] by (cases "cv_waiting (notify_one n c)") auto

lemma sleep_inv_update:
  assumes "sleep_inv s" "length (cv_waiting c) + length (cv_woken c) \<le> 1" "cv_waiting c \<noteq> [] \<longrightarrow> v > 0"
  shows "sleep_inv (s\<lparr>sleep_cntr := (sleep_cntr s)[i := v], cvs := (cvs s)[i := c]\<rparr>)"
  using assms by (cases "i < mutexes s") (auto simp: sleep_inv_def nth_list_update linorder_not_less)

lemma sleep_inv_cong:
  "sleep_inv s \<Longrightarrow> sleep_cntr s1 = sleep_cntr s \<Longrightarrow> cvs s1 = cvs s \<Longrightarrow> mutexes s1 = mutexes s \<Longrightarrow> sleep_inv s1"
  by (simp add: sleep_inv_def)

lemma sleep_step_inv:
  assumes inv: "sleep_inv s" and i: "i < length (cvs s)" and c: "cv_waiting c = []" "cv_woken c = []"
    and pass: "sleep_pass t i (s\<lparr>sleep_cntr := (sleep_cntr s)[i := v], cvs := (cvs s)[i := c]\<rparr>) = Inr (r, s1)"
  shows "sleep_inv s1"
proof -
  let ?s = "s\<lparr>sleep_cntr := (sleep_cntr s)[i := v], cvs := (cvs s)[i := c]\<rparr>"
  have l: "i < length (sleep_cntr s)" using inv i by (simp add: sleep_inv_def)
  show ?thesis
  proof (cases "v > 0")
    case True
    then have "s1 = s\<lparr>sleep_cntr := (sleep_cntr s)[i := v], cvs := (cvs s)[i := cv_wait t c]\<rparr>"
      using pass i l by (simp add: sleep_pass_def)
    then show ?thesis using sleep_inv_update [OF inv, of "cv_wait t c" v i] True c by (simp add: cv_wait_def)
  next
    case False
    then have "s1 = ?s" using pass i l by (simp add: sleep_pass_def)
    then show ?thesis using sleep_inv_update [OF inv, of c v i] c by simp
  qed
qed

lemma emu_reach_sleepers: "emu_reach s \<Longrightarrow> sleep_inv s"
proof (induction rule: emu_reach.induct)
  case (boot num_pe depth s)
  then show ?case by (auto simp: emu_init_def run_start_def emu_start_def emu.defs Let_def sleep_inv_def new_cv_def)
next
  case (push_call s t source n sink d r s1)
  then show ?case by (auto intro: sleep_inv_cong simp: push_mmap_def at_queue_Inr log_push_def)
next
  case (push_retry s k q t d n r s1)
  then show ?case by (auto intro: sleep_inv_cong simp: push_again_def at_queue_Inr log_push_def)
next
  case (pop_call s t sink n source v s1)
  then show ?case by (auto intro: sleep_inv_cong simp: pop_mmap_def at_queue_Inr log_pop_def split: option.splits)
next
  case (pop_retry s k q t n v s1)
  then show ?case by (auto intro: sleep_inv_cong simp: pop_again_def at_queue_Inr log_pop_def split: option.splits)
next
  case (sleep_call s t pe r s1)
  then have "sleep_pass t (unat pe) (s\<lparr>sleep_cntr := (sleep_cntr s)[unat pe := sleep_cntr s ! unat pe + 1],
      cvs := (cvs s)[unat pe := cvs s ! unat pe]\<rparr>) = Inr (r, s1)" by (simp add: emu_sleep_def Let_def)
  then show ?case by (rule sleep_step_inv [OF sleep_call.IH sleep_call.hyps(3,4,5)])
next
  case (sleep_retry s i t r s1)
  then have "length (cv_waiting (cvs s ! i)) + length (cv_woken (cvs s ! i)) \<le> 1" by (simp add: sleep_inv_def)
  then have "cv_waiting (cvs s ! i) = []" "cv_woken (cvs s ! i) = [t]" 
    using sleep_retry.hyps(3) by (cases "cv_woken (cvs s ! i)"; auto)+
  then have c: "cv_waiting (cv_resume t (cvs s ! i)) = []" "cv_woken (cv_resume t (cvs s ! i)) = []" by (simp_all add: cv_resume_def)
  have "sleep_pass t i (s\<lparr>sleep_cntr := (sleep_cntr s)[i := sleep_cntr s ! i], cvs := (cvs s)[i := cv_resume t (cvs s ! i)]\<rparr>) = Inr (r, s1)"
    using sleep_retry.hyps by (simp add: sleep_again_def)
  then show ?case by (rule sleep_step_inv [OF sleep_retry.IH sleep_retry.hyps(2) c])
next
  case (spurious_sleep s i n)
  then have "length (cv_waiting (cvs s ! i)) + length (cv_woken (cvs s ! i)) \<le> 1" by (simp add: sleep_inv_def)
  from notify_single [OF this] show ?case
    using sleep_inv_update [OF spurious_sleep.IH, of "notify_one n (cvs s ! i)" "sleep_cntr s ! i" i] by (simp add: set_cv_def)
next
  case (wake_call s n p s1)
  then have "length (cv_waiting (cvs s ! unat p)) + length (cv_woken (cvs s ! unat p)) \<le> 1"
    by (simp add: sleep_inv_def emu_wake_def Let_def)
  from notify_single [OF this] show ?case
    using wake_call.hyps sleep_inv_update [OF wake_call.IH, of "notify_one n (cvs s ! unat p)" "sleep_cntr s ! unat p - 1" "unat p"]
    by (simp add: emu_wake_def Let_def)
qed (auto intro: sleep_inv_cong simp: register_core_id_def set_q_def)

subsection \<open>Properties\<close>

text \<open>C9: The work queues of the emulation library, under any interleaving of any number of producers and consumers and with
  spurious wake-ups.  A queue never exceeds its depth; what has been taken out followed by what is in it is what has been
  put in, in order; and no wake-up is lost: while a consumer waits, the woken consumers are at least as many as the
  values in the queue, and while a producer waits, the woken producers are at least as many as the free places.\<close>

theorem emu_queues_safe:
  assumes "emu_reach s" "emu_queues s k = Some q"
  shows "length (q_data q) \<le> unat (q_size q) \<and> pushed s k = popped s k @ q_data q \<and>
    (cv_waiting (q_emptyCv q) \<noteq> [] \<longrightarrow> length (q_data q) \<le> length (cv_woken (q_emptyCv q))) \<and>
    (cv_waiting (q_fullCv q) \<noteq> [] \<longrightarrow> unat (q_size q) - length (q_data q) \<le> length (cv_woken (q_fullCv q)))"
  using emu_reach_queues [OF assms(1)] assms(2) unfolding queues_inv_def q_inv_def by blast


text \<open>C13: \<^verbatim>\<open>__teardown\<close> keeps the sleep counters, and \<^verbatim>\<open>__init\<close> appends to them: an element that was woken once too often in
  one run starts the next run with a negative counter, and its first sleep returns although nobody has woken it.\<close>

theorem stale_sleep_counter:
  assumes "unat pe < length (sleep_cntr s)" "sleep_cntr s ! unat pe < 0" "unat pe < unat num_pe" "unat num_pe < 2 ^ 32"
  shows "\<exists>s1 s2. emu_init num_pe depth (teardown s) = Inr s1 \<and> emu_sleep t (register_core_id t pe s1) = Inr (True, s2)"
  using assms
  by (auto simp: emu_init_def teardown_def Let_def emu_sleep_def get_id_def register_core_id_def map_insert_def sleep_pass_def nth_append)

definition demo_run :: emu_run where
  "demo_run = projr (emu_init 5 1 run_start)"

lemma demo_run_reach: "emu_reach (log_push True (0, 1) 7 (snd (projr (push_mmap 0 9 1 7 (register_core_id 9 0 demo_run)))))"
proof -
  have i: "emu_init 5 1 run_start = Inr demo_run" by (simp add: emu_init_def demo_run_def Let_def)
  have g: "get_id 9 (register_core_id 9 0 demo_run) = Inr 0"
    by (simp add: demo_run_def emu_init_def run_start_def emu_start_def emu.defs register_core_id_def map_insert_def get_id_def Let_def)
  have "\<exists>s1. push_mmap 0 9 1 7 (register_core_id 9 0 demo_run) = Inr (True, s1)"
    using g by (simp add: push_mmap_def at_queue_def push_pass_def demo_run_def emu_init_def run_start_def emu_start_def emu.defs
        register_core_id_def map_insert_def new_q_intfc_def Let_def)
  then obtain s1 where s1: "push_mmap 0 9 1 7 (register_core_id 9 0 demo_run) = Inr (True, s1)" ..
  from emu_reach.push_call [OF emu_reach.enrol [OF emu_reach.boot [OF i]] g s1] show ?thesis using s1 by simp
qed

theorem emu_queues_safe_witness:
  "\<exists>(s :: emu_run) q. emu_queues s (0, 1) = Some q \<and> pushed s (0, 1) = popped s (0, 1) @ q_data q \<and> pushed s (0, 1) = [7]"
proof -
  let ?s = "log_push True (0, 1) 7 (snd (projr (push_mmap 0 9 1 7 (register_core_id 9 0 demo_run))))"
  have "\<exists>q. emu_queues ?s (0, 1) = Some q" "pushed ?s (0, 1) = [7]"
    by (simp_all add: log_push_def push_mmap_def at_queue_def push_pass_def demo_run_def emu_init_def run_start_def emu_start_def emu.defs
        register_core_id_def map_insert_def new_q_intfc_def get_id_def Let_def)
  then show ?thesis using emu_queues_safe [OF demo_run_reach, of "(0, 1)"] by blast
qed


theorem stale_sleep_counter_witness:
  "\<exists>s1 s2. emu_init 1 1 (teardown (emu_start\<lparr>sleep_cntr := [- 1]\<rparr>)) = Inr s1 \<and> emu_sleep 5 (register_core_id 5 0 s1) = Inr (True, s2)"
  by (rule stale_sleep_counter) (simp_all add: emu_start_def)

end
