(* ===== verification/Addr_Range.thy ===== *)
theory Addr_Range
  imports Bitfield
begin

text \<open>
  Address ranges with interleaving, \<^verbatim>\<open>gem5/src/base/addr_range.hh\<close>.  Shifts by negative or too large amounts are undefined in
  C++ and are errors of the model.  The lemmas show that the ranges of an interleaving partition the addresses, and how
  far adding the interleaving bits undoes removing them.
\<close>

unbundle bit_operations_syntax

definition ctz64 :: "u64 \<Rightarrow> nat" where
  "ctz64 v = (if v \<noteq> 0 then findLsbSet v else 64)"

record AddrRange =
  r_start :: Addr
  r_end :: Addr
  masks :: "Addr list"
  intlvMatch :: u8

subsection \<open>Construction\<close>

definition new_AddrRange :: AddrRange where
  "new_AddrRange = \<lparr>r_start = 1, r_end = 0, masks = [], intlvMatch = 0\<rparr>"

definition fits_match :: "nat \<Rightarrow> u8 \<Rightarrow> bool res" where
  "fits_match n m = require (n < 64) (Undefined ''shift'') (Inr (ucast m < (push_bit n 1 :: u64)))"

definition AddrRange_masks :: "Addr \<Rightarrow> Addr \<Rightarrow> Addr list \<Rightarrow> u8 \<Rightarrow> AddrRange res" where
  "AddrRange_masks s e ms m =
     rbind (if ms \<noteq> [] then fits_match (length ms) m else Inr True) (\<lambda>ok.
     require ok (Fatal ''Match value does not fit in interleaving bits'')
     (Inr \<lparr>r_start = s, r_end = e, masks = ms, intlvMatch = m\<rparr>))"

text \<open>Mask \<open>n - i - 1\<close> of the constructor from high bits; the bit numbers wrap around in 8 bits.\<close>

definition intlv_mask :: "u8 \<Rightarrow> u8 \<Rightarrow> nat \<Rightarrow> Addr res" where
  "intlv_mask intlv_high xor_high i =
     (let bit1 = unat (intlv_high - of_nat i); bit2 = unat (xor_high - of_nat i) in
      require (bit1 < 64) (Undefined ''shift'')
      (if xor_high \<noteq> 0
       then require (bit2 < 64) (Undefined ''shift'') (Inr (push_bit bit1 1 OR push_bit bit2 1))
       else Inr (push_bit bit1 1)))"

fun intlv_masks :: "u8 \<Rightarrow> u8 \<Rightarrow> nat list \<Rightarrow> Addr list res" where
  "intlv_masks h x [] = Inr []"
| "intlv_masks h x (i # is) = rbind (intlv_mask h x i) (\<lambda>m. rbind (intlv_masks h x is) (\<lambda>ms. Inr (ms @ [m])))"

definition AddrRange_bits :: "Addr \<Rightarrow> Addr \<Rightarrow> u8 \<Rightarrow> u8 \<Rightarrow> u8 \<Rightarrow> u8 \<Rightarrow> AddrRange res" where
  "AddrRange_bits s e intlv_high xor_high intlv_bits m =
     rbind (if intlv_bits \<noteq> 0 then fits_match (unat intlv_bits) m else Inr True) (\<lambda>ok.
     require ok (Fatal ''Match value does not fit in interleaving bits'')
     (require (\<not> (intlv_bits \<noteq> 0 \<and> xor_high \<noteq> 0 \<and> xor_high = intlv_high)) (Fatal ''XOR and interleave high bit must be different'')
      (require (\<not> (intlv_bits \<noteq> 0 \<and> xor_high \<noteq> 0 \<and> xor_high > intlv_high \<and> uint xor_high - uint intlv_high < uint intlv_bits))
         (Fatal ''XOR and interleave high bit must be further apart'')
       (require (\<not> (intlv_bits \<noteq> 0 \<and> xor_high \<noteq> 0 \<and> xor_high < intlv_high \<and> uint intlv_high - uint xor_high < uint intlv_bits))
          (Fatal ''Interleave and XOR high bit must be further apart'')
        (rbind (intlv_masks intlv_high xor_high [0..<unat intlv_bits]) (\<lambda>ms.
         Inr \<lparr>r_start = s, r_end = e, masks = ms, intlvMatch = m\<rparr>))))))"

definition RangeEx :: "Addr \<Rightarrow> Addr \<Rightarrow> AddrRange" where
  "RangeEx s e = \<lparr>r_start = s, r_end = e, masks = [], intlvMatch = 0\<rparr>"

definition RangeIn :: "Addr \<Rightarrow> Addr \<Rightarrow> AddrRange" where
  "RangeIn s e = RangeEx s (e + 1)"

definition RangeSize :: "Addr \<Rightarrow> Addr \<Rightarrow> AddrRange" where
  "RangeSize s n = RangeEx s (s + n)"

subsection \<open>Queries\<close>

definition interleaved :: "AddrRange \<Rightarrow> bool" where
  "interleaved r \<longleftrightarrow> length (masks r) > 0"

definition range_size :: "AddrRange \<Rightarrow> Addr res" where
  "range_size r = require (length (masks r) < 64) (Undefined ''shift'') (Inr (drop_bit (length (masks r)) (r_end r - r_start r)))"

text \<open>The masks are combined in a 32-bit \<^verbatim>\<open>int\<close>, which is then extended by its sign.\<close>

definition combined_mask :: "Addr list \<Rightarrow> u64" where
  "combined_mask ms = scast (foldl (\<lambda>c m. ucast (scast c OR m)) (0 :: u32) ms)"

definition granularity :: "AddrRange \<Rightarrow> u64 res" where
  "granularity r =
     (if interleaved r then
        let lowest_bit = ctz64 (combined_mask (masks r)) in
        require (lowest_bit < 64) (Undefined ''shift'') (Inr (push_bit lowest_bit 1))
      else range_size r)"

definition stripes :: "AddrRange \<Rightarrow> u32 res" where
  "stripes r = require (length (masks r) < 64) (Undefined ''shift'') (Inr (ucast (push_bit (length (masks r)) 1 :: u64)))"

definition range_valid :: "AddrRange \<Rightarrow> bool" where
  "range_valid r \<longleftrightarrow> r_start r \<le> r_end r"

definition mergesWith :: "AddrRange \<Rightarrow> AddrRange \<Rightarrow> bool" where
  "mergesWith t r \<longleftrightarrow> r_start r = r_start t \<and> r_end r = r_end t \<and> masks r = masks t"

definition in_range :: "AddrRange \<Rightarrow> Addr \<Rightarrow> bool" where
  "in_range r a \<longleftrightarrow> a \<ge> r_start r \<and> a < r_end r"

fun sel_loop :: "nat \<Rightarrow> Addr list \<Rightarrow> Addr \<Rightarrow> u32 \<Rightarrow> u32" where
  "sel_loop i [] a sel = sel"
| "sel_loop i (m # ms) a sel = sel_loop (i + 1) ms a (sel OR push_bit i (of_nat (popCount (a AND m) mod 2)))"

definition range_contains :: "AddrRange \<Rightarrow> Addr \<Rightarrow> bool" where
  "range_contains r a \<longleftrightarrow> in_range r a \<and> sel_loop 0 (masks r) a 0 = ucast (intlvMatch r)"

definition range_intersects :: "AddrRange \<Rightarrow> AddrRange \<Rightarrow> bool res" where
  "range_intersects t r =
     (if r_start t \<ge> r_end r \<or> r_end t \<le> r_start r then Inr False
      else if \<not> interleaved t \<and> \<not> interleaved r then Inr True
      else rbind (range_size r) (\<lambda>n.
        if n = 1 then Inr (range_contains t (r_start r))
        else if mergesWith t r then Inr (intlvMatch t = intlvMatch r)
        else Inl (Panic ''Cannot test intersection'')))"

definition isSubset :: "AddrRange \<Rightarrow> AddrRange \<Rightarrow> bool res" where
  "isSubset t r =
     require (\<not> interleaved t) (Panic ''Cannot test subset of interleaved range'')
     (if interleaved r then
        if range_contains r (r_start t) \<and> range_contains r (r_end t - 1)
        then rbind (range_size t) (\<lambda>n. rbind (granularity r) (\<lambda>g. Inr (n \<le> g)))
        else Inr False
      else Inr (r_start t \<ge> r_start r \<and> r_end t \<le> r_end r))"

text \<open>The union of ranges: all the ranges of one interleaving, in the order of their match, or a single range.\<close>

fun merge_check :: "AddrRange \<Rightarrow> AddrRange list \<Rightarrow> u8 \<Rightarrow> unit res" where
  "merge_check t [] m = Inr ()"
| "merge_check t (r # rs) m =
     require (mergesWith t r) (Fatal ''Can only merge ranges with the same start, end and interleaving bits'')
     (require (intlvMatch r = m) (Fatal ''Expected another interleave match when merging'') (merge_check t rs (m + 1)))"

definition AddrRange_merge :: "AddrRange list \<Rightarrow> AddrRange res" where
  "AddrRange_merge rs =
     (case rs of [] \<Rightarrow> Inr new_AddrRange
      | r # _ \<Rightarrow>
          if length rs > 1 then
            require (length (masks r) < 64) (Undefined ''shift'')
            (require (length rs = 2 ^ length (masks r)) (Fatal ''Wrong number of ranges for the interleaving bits'')
             (rbind (merge_check r rs 0) (\<lambda>_. Inr (r\<lparr>masks := [], intlvMatch := 0\<rparr>))))
          else Inr r)"

definition range_less :: "AddrRange \<Rightarrow> AddrRange \<Rightarrow> bool" where
  "range_less t r \<longleftrightarrow> (if r_start t \<noteq> r_start r then r_start t < r_start r else intlvMatch t < intlvMatch r)"

definition range_eq :: "AddrRange \<Rightarrow> AddrRange \<Rightarrow> bool" where
  "range_eq t r \<longleftrightarrow> \<not> (r_start t \<noteq> r_start r \<or> r_end t \<noteq> r_end r \<or> masks t \<noteq> masks r \<or> intlvMatch t \<noteq> intlvMatch r)"

subsection \<open>Removing and adding the interleaving bits\<close>

definition masks_lsb :: "AddrRange \<Rightarrow> nat list" where
  "masks_lsb r = sort (map ctz64 (masks r))"

fun remove_loop :: "nat \<Rightarrow> nat list \<Rightarrow> Addr \<Rightarrow> Addr res" where
  "remove_loop i [] a = Inr a"
| "remove_loop i (p # ps) a =
     rbind (if p > 0 then
              require (i \<le> p) (Undefined ''shift'') (Inr (if p = i then drop_bit 1 a else insertBits (drop_bit 1 a) (p - i - 1) 0 a))
            else Inr (drop_bit 1 a)) (remove_loop (i + 1) ps)"

definition removeIntlvBits :: "AddrRange \<Rightarrow> Addr \<Rightarrow> Addr res" where
  "removeIntlvBits r a = remove_loop 0 (masks_lsb r) a"

fun add_loop :: "nat \<Rightarrow> nat list \<Rightarrow> Addr \<Rightarrow> Addr res" where
  "add_loop i [] a = Inr a"
| "add_loop i (p # ps) a =
     rbind (if p > 0 then require (p + i \<le> 64) (Undefined ''shift'') (Inr (insertBits (push_bit 1 a) (p + i - 1) 0 a))
            else Inr (push_bit 1 a)) (add_loop (i + 1) ps)"

text \<open>The second loop sets the lowest bit of every mask; \<^verbatim>\<open>1 << lsb\<close> is a shift of an \<^verbatim>\<open>int\<close>.\<close>

fun select_loop :: "nat \<Rightarrow> Addr list \<Rightarrow> u8 \<Rightarrow> Addr \<Rightarrow> Addr res" where
  "select_loop i [] m a = Inr a"
| "select_loop i (k # ks) m a =
     (let lsb = ctz64 k in
      require (lsb < 31) (Undefined ''shift'')
      (let masked = a AND k AND NOT (push_bit lsb 1) in
       select_loop (i + 1) ks m (insertBits a lsb lsb (of_bool (bit m i) XOR of_nat (popCount masked)))))"

definition addIntlvBits :: "AddrRange \<Rightarrow> Addr \<Rightarrow> Addr res" where
  "addIntlvBits r a = rbind (add_loop 0 (masks_lsb r) a) (select_loop 0 (masks r) (intlvMatch r))"

definition getOffset :: "AddrRange \<Rightarrow> Addr \<Rightarrow> Addr res" where
  "getOffset r a =
     (if \<not> in_range r a then Inr (- 1)
      else if interleaved r then rbind (removeIntlvBits r a) (\<lambda>x. rbind (removeIntlvBits r (r_start r)) (\<lambda>y. Inr (x - y)))
      else Inr (a - r_start r))"

subsection \<open>Selectors\<close>

lemma popCount_card: "popCount x = card {i. bit x i}"
proof -
  have "set (filter (bit x) [0..<64]) = {i. bit x i}" by (auto dest: bit_imp_le_length)
  then show ?thesis unfolding popCount_def by (metis distinct_card distinct_filter distinct_upt)
qed

lemma popCount_split:
  assumes "bit k l"
  shows "popCount (a AND k) = popCount (a AND k AND NOT (push_bit l 1)) + of_bool (bit a l)"
proof -
  have l: "l < 64" using assms by (auto dest: bit_imp_le_length)
  let ?S = "{i. bit (a AND k AND NOT (push_bit l 1)) i}"
  have s: "?S = {i. bit (a AND k) i} - {l}"
    using l by (auto simp: bit_and_iff bit_not_iff bit_exp_iff dest: bit_imp_le_length)
  have fin: "finite {i. bit (a AND k) i}"
    by (rule finite_subset [of _ "{..<64}"]) (auto dest: bit_imp_le_length)
  show ?thesis
  proof (cases "bit a l")
    case True
    then have "l \<in> {i. bit (a AND k) i}" using assms by (simp add: bit_and_iff)
    from card.remove [OF fin this] show ?thesis using True unfolding popCount_card s by simp
  next
    case False
    then have "{i. bit (a AND k) i} - {l} = {i. bit (a AND k) i}" by (auto simp: bit_and_iff)
    then show ?thesis using False unfolding popCount_card s by simp
  qed
qed

lemma bit_sel_loop:
  assumes "i + length ms \<le> 32"
  shows "bit (sel_loop i ms a sel) j \<longleftrightarrow> bit sel j \<or> (i \<le> j \<and> j < i + length ms \<and> odd (popCount (a AND ms ! (j - i))))"
  using assms
proof (induction ms arbitrary: i sel)
  case (Cons m ms)
  have p: "(of_nat (popCount (a AND m) mod 2) :: u32) = of_bool (odd (popCount (a AND m)))" by (simp add: mod2_eq_if)
  have "bit (push_bit i (of_nat (popCount (a AND m) mod 2) :: u32)) j \<longleftrightarrow> j = i \<and> odd (popCount (a AND m))"
    using Cons.prems unfolding p by (auto simp: bit_push_bit_iff bit_of_bool_iff)
  then have "bit (sel_loop i (m # ms) a sel) j \<longleftrightarrow> bit sel j \<or> (j = i \<and> odd (popCount (a AND m))) \<or>
      (Suc i \<le> j \<and> j < Suc i + length ms \<and> odd (popCount (a AND ms ! (j - Suc i))))"
    using Cons.IH [of "Suc i"] Cons.prems by (auto simp: bit_or_iff)
  then show ?case by (cases "j = i") (auto simp: nth_Cons' not_less_eq_eq)
qed auto

lemma sel_eq_iff:
  assumes "length ms \<le> 8"
  shows "sel_loop 0 ms a 0 = ucast (m :: u8) \<longleftrightarrow>
    (\<forall>j < length ms. bit m j \<longleftrightarrow> odd (popCount (a AND ms ! j))) \<and> (\<forall>j \<ge> length ms. \<not> bit m j)"
proof -
  have sel: "bit (sel_loop 0 ms a 0) j \<longleftrightarrow> j < length ms \<and> odd (popCount (a AND ms ! j))" for j
    using bit_sel_loop [of 0 ms a 0 j] assms by simp
  have up: "bit (ucast m :: u32) j \<longleftrightarrow> bit m j" for j by (auto simp: bit_ucast_iff dest: bit_imp_le_length)
  have "sel_loop 0 ms a 0 = ucast m \<longleftrightarrow> (\<forall>j. bit (sel_loop 0 ms a 0) j = bit (ucast m :: u32) j)"
    by (metis bit_eqI)
  then show ?thesis unfolding sel up by (metis not_le)
qed

lemma no_high_bits: "(\<forall>j \<ge> n. \<not> bit m j) \<longleftrightarrow> unat m < 2 ^ n" for m :: "'a::len word"
proof
  assume "\<forall>j \<ge> n. \<not> bit m j"
  then have "take_bit n m = m" by (intro bit_eqI) (auto simp: bit_take_bit_iff not_le)
  then have "take_bit n (unat m) = unat m" by (metis unsigned_take_bit_eq)
  then show "unat m < 2 ^ n" by (metis take_bit_nat_less_exp)
next
  assume "unat m < 2 ^ n"
  then have "take_bit n (unat m) = unat m" by (simp add: take_bit_nat_eq_self)
  then have "take_bit n m = m" by (metis unsigned_take_bit_eq unsigned_word_eqI)
  then show "\<forall>j \<ge> n. \<not> bit m j" by (metis bit_take_bit_iff not_le)
qed

text \<open>C35: The ranges of an interleaving partition it: of the ranges with the same bounds and at most eight masks, one for every
  match value that fits, exactly one contains a given address between the bounds.\<close>

theorem interleaving_partitions:
  assumes "length ms \<le> 8" "s \<le> a" "a < e"
  shows "\<exists>!m. unat m < 2 ^ length ms \<and> range_contains \<lparr>r_start = s, r_end = e, masks = ms, intlvMatch = m\<rparr> a"
proof -
  define m :: u8 where "m = ucast (sel_loop 0 ms a 0)"
  have b: "bit m j \<longleftrightarrow> j < length ms \<and> odd (popCount (a AND ms ! j))" for j
    using bit_sel_loop [of 0 ms a 0 j] assms(1) by (auto simp: m_def bit_ucast_iff)
  have c: "range_contains \<lparr>r_start = s, r_end = e, masks = ms, intlvMatch = x\<rparr> a \<longleftrightarrow>
      (\<forall>j < length ms. bit x j \<longleftrightarrow> odd (popCount (a AND ms ! j))) \<and> (\<forall>j \<ge> length ms. \<not> bit x j)" for x
    using assms(2,3) by (simp add: range_contains_def in_range_def sel_eq_iff [OF assms(1)])
  show ?thesis
  proof (rule ex1I [of _ m])
    show "unat m < 2 ^ length ms \<and> range_contains \<lparr>r_start = s, r_end = e, masks = ms, intlvMatch = m\<rparr> a"
      using b unfolding c by (simp flip: no_high_bits)
    fix x
    assume "unat x < 2 ^ length ms \<and> range_contains \<lparr>r_start = s, r_end = e, masks = ms, intlvMatch = x\<rparr> a"
    then have "bit x j = bit m j" for j unfolding c b by (cases "j < length ms") auto
    then show "x = m" by (simp add: bit_eq_iff)
  qed
qed

theorem interleaving_partitions_witness:
  "\<exists>!m. unat m < 2 ^ 2 \<and> range_contains \<lparr>r_start = 0, r_end = 0x1000, masks = [0x40, 0x1080], intlvMatch = m\<rparr> 0x7c0"
  using interleaving_partitions [of "[0x40, 0x1080]" 0 "0x7c0" "0x1000"] by simp

subsection \<open>Adding and removing interleaving bits\<close>

definition take_out :: "nat \<Rightarrow> Addr \<Rightarrow> Addr" where
  "take_out k a = (if k = 0 then drop_bit 1 a else insertBits (drop_bit 1 a) (k - 1) 0 a)"

definition open_up :: "nat \<Rightarrow> Addr \<Rightarrow> Addr" where
  "open_up k a = (if k = 0 then push_bit 1 a else insertBits (push_bit 1 a) (k - 1) 0 a)"

lemma bit_take_out: "j < 64 \<Longrightarrow> bit (take_out k a) j \<longleftrightarrow> (if j < k then bit a j else bit a (Suc j))"
  by (auto simp: take_out_def bit_insertBits bit_drop_bit_eq)

lemma bit_open_up: "j < 64 \<Longrightarrow> bit (open_up k a) j \<longleftrightarrow> (if j < k then bit a j else 0 < j \<and> bit a (j - 1))"
proof -
  assume j: "j < 64"
  define y where "y = push_bit 1 a"
  have "bit y j \<longleftrightarrow> 0 < j \<and> bit a (j - 1)" unfolding y_def bit_push_bit_iff using j by auto
  then show ?thesis using j unfolding open_up_def y_def [symmetric] by (auto simp: bit_insertBits)
qed

lemma remove_loop_step: "i \<le> p \<Longrightarrow> remove_loop i (p # ps) a = remove_loop (i + 1) ps (take_out (p - i) a)"
  by (auto simp: take_out_def)

lemma add_loop_step: "p + i \<le> 64 \<Longrightarrow> add_loop i (p # ps) a = add_loop (i + 1) ps (open_up (if p = 0 then 0 else p + i) a)"
  by (auto simp: open_up_def)

lemma ctz64_bit: "k \<noteq> 0 \<Longrightarrow> bit k (ctz64 k)"
  using findLsbSet_spec by (auto simp: ctz64_def)

lemma ctz64_nonzero: "ctz64 k < 64 \<Longrightarrow> k \<noteq> 0"
  by (auto simp: ctz64_def)

lemma bit_insert1: "j < 64 \<Longrightarrow> bit (insertBits a l l v) j \<longleftrightarrow> (if j = l then bit v 0 else bit a j)"
  by (auto simp: bit_insertBits)

text \<open>The second loop of \<^verbatim>\<open>addIntlvBits\<close> gives every mask the parity its match bit asks for and changes only the lowest bits of
  the masks.\<close>

definition set_parity :: "Addr \<Rightarrow> bool \<Rightarrow> Addr \<Rightarrow> Addr" where
  "set_parity k v b = insertBits b (ctz64 k) (ctz64 k)
     (of_bool v XOR of_nat (popCount (b AND k AND NOT (push_bit (ctz64 k) 1))))"

lemma set_parity_same: "j \<noteq> ctz64 k \<Longrightarrow> bit (set_parity k v b) j = bit b j"
  by (cases "j < 64") (auto simp: set_parity_def bit_insert1 dest: bit_imp_le_length)

lemma odd_of_nat_word: "bit (of_nat n :: Addr) 0 \<longleftrightarrow> odd n"
  by transfer (simp add: bit_0)

lemma set_parity_odd:
  assumes "ctz64 k < 31"
  shows "odd (popCount (set_parity k v b AND k)) \<longleftrightarrow> v"
proof -
  let ?l = "ctz64 k" and ?c = "set_parity k v b"
  have k: "bit k ?l" using assms ctz64_bit [of k] ctz64_nonzero [of k] by auto
  define m where "m = k AND NOT (push_bit ?l 1)"
  have m: "\<not> bit m ?l" using assms by (simp add: m_def bit_and_iff bit_not_iff bit_exp_iff)
  have e: "?c AND m = b AND m"
    using m set_parity_same [of _ k v b] by (intro bit_eqI) (metis bit_and_iff)
  have "bit ?c ?l \<longleftrightarrow> v \<noteq> odd (popCount (b AND m))"
    using assms unfolding set_parity_def
    by (simp add: bit_insert1 bit_xor_iff odd_of_nat_word bit_of_bool_iff m_def and.assoc del: push_bit_of_1)
  then show ?thesis using popCount_split [OF k, of ?c] e unfolding m_def and.assoc by (cases v) auto
qed

lemma select_loop_step: "ctz64 k < 31 \<Longrightarrow> select_loop i (k # ks) m b = select_loop (i + 1) ks m (set_parity k (bit m i) b)"
  by (simp add: set_parity_def Let_def)

lemma disjoint_lsb:
  assumes "k AND k' = 0" "ctz64 k' < 31"
  shows "\<not> bit k (ctz64 k')"
proof
  assume "bit k (ctz64 k')"
  then have "bit (k AND k') (ctz64 k')" using assms(2) ctz64_bit [of k'] ctz64_nonzero [of k'] by (auto simp: bit_and_iff)
  then show False using assms(1) by simp
qed

lemma select_loop_spec:
  assumes "\<forall>k \<in> set ks. ctz64 k < 31" "\<forall>x < length ks. \<forall>y < length ks. x \<noteq> y \<longrightarrow> ks ! x AND ks ! y = 0"
  shows "\<exists>c. select_loop i ks m b = Inr c \<and> (\<forall>j. j \<notin> ctz64 ` set ks \<longrightarrow> bit c j = bit b j) \<and>
    (\<forall>t < length ks. odd (popCount (c AND ks ! t)) = bit m (i + t))"
  using assms
proof (induction ks arbitrary: i b)
  case (Cons k ks)
  let ?b = "set_parity k (bit m i) b"
  have l: "ctz64 k < 31" "\<forall>k \<in> set ks. ctz64 k < 31" using Cons.prems(1) by auto
  have dis: "\<forall>x < length ks. \<forall>y < length ks. x \<noteq> y \<longrightarrow> ks ! x AND ks ! y = 0"
    and kd: "\<forall>y < length ks. k AND ks ! y = 0"
    using Cons.prems(2) by force+
  obtain c where c: "select_loop (i + 1) ks m ?b = Inr c" "\<forall>j. j \<notin> ctz64 ` set ks \<longrightarrow> bit c j = bit ?b j"
    "\<forall>t < length ks. odd (popCount (c AND ks ! t)) = bit m (i + 1 + t)"
    using Cons.IH [OF l(2) dis, of "i + 1" ?b] by blast
  have off: "\<not> bit k j" if "j \<in> ctz64 ` set ks" for j
    using that kd l(2) disjoint_lsb [of k] by (fastforce simp: in_set_conv_nth)
  have "c AND k = ?b AND k" using c(2) off by (intro bit_eqI) (metis bit_and_iff)
  then have "\<forall>t < length (k # ks). odd (popCount (c AND (k # ks) ! t)) = bit m (i + t)"
    using set_parity_odd [OF l(1), of "bit m i" b] c(3) by (auto simp: nth_Cons split: nat.splits)
  moreover have "\<forall>j. j \<notin> ctz64 ` set (k # ks) \<longrightarrow> bit c j = bit b j" using c(2) set_parity_same [of _ k] by auto
  moreover have "select_loop i (k # ks) m b = Inr c" using c(1) select_loop_step [OF l(1)] by simp
  ultimately show ?case by blast
qed simp

lemma add_remove_one:
  assumes "p < 31" "unat a < 2 ^ 62" "\<forall>j. j \<noteq> p \<longrightarrow> bit c j = bit (open_up p a) j"
  shows "take_out p c = a"
proof (rule bit_eqI)
  fix j
  assume "possible_bit TYPE(64 word) j"
  then have j: "j < 64" by simp
  have "\<not> bit a 62" "\<not> bit a 63" using assms(2) no_high_bits [of 62 a] by auto
  then show "bit (take_out p c) j = bit a j"
    using j assms(1,3) bit_open_up [of j p a] bit_open_up [of "Suc j" p a] by (cases "j = 63") (auto simp: bit_take_out dest: bit_imp_le_length)
qed

lemma add_remove_two:
  assumes "p < q" "q < 31" "unat a < 2 ^ 62" "\<forall>j. j \<noteq> p \<and> j \<noteq> q \<longrightarrow> bit c j = bit (open_up (Suc q) (open_up p a)) j"
  shows "take_out (q - 1) (take_out p c) = a"
proof (rule bit_eqI)
  fix j
  assume "possible_bit TYPE(64 word) j"
  then have j: "j < 64" by simp
  have z: "\<not> bit a n" if "62 \<le> n" for n using assms(3) that no_high_bits [of 62 a] by auto
  have c: "bit c n = (if n < p then bit a n else if n < q then bit a (n - 1) else bit a (n - 2))" if "n < 64" "n \<noteq> p" "n \<noteq> q" for n
    using that assms(1,4) by (auto simp: bit_open_up numeral_2_eq_2)
  have c64: "\<not> bit c n" if "64 \<le> n" for n using that by (auto dest: bit_imp_le_length)
  show "bit (take_out (q - 1) (take_out p c)) j = bit a j"
  proof (cases "j < 62")
    case True
    then show ?thesis using c [of j] c [of "Suc j"] c [of "Suc (Suc j)"] assms(1) by (auto simp: bit_take_out)
  next
    case False
    then show ?thesis using z [of j] j assms(1,2) c64 by (cases "j = 63") (auto simp: bit_take_out dest: bit_imp_le_length)
  qed
qed

lemma add_remove_sorted:
  assumes "sorted ps" "distinct ps" "length ps \<le> 2" "\<forall>p \<in> set ps. p < 31" "unat a < 2 ^ 62"
  shows "\<exists>b. add_loop 0 ps a = Inr b \<and> (\<forall>c. (\<forall>j. j \<notin> set ps \<longrightarrow> bit c j = bit b j) \<longrightarrow> remove_loop 0 ps c = Inr a)"
proof -
  consider "ps = []" | p where "ps = [p]" | p q where "ps = [p, q]"
    using assms(3) by (cases ps; cases "tl ps"; cases "tl (tl ps)") auto
  then show ?thesis
  proof cases
    case 1
    then show ?thesis by (auto intro: bit_eqI)
  next
    case (2 p)
    then show ?thesis using assms(4,5) add_remove_one [of p a]
      by (simp add: add_loop_step remove_loop_step del: remove_loop.simps(2) add_loop.simps(2))
  next
    case (3 p q)
    then have "p < q" "q < 31" using assms(1,2,4) by auto
    then show ?thesis using 3 assms(5) add_remove_two [of p q a]
      by (simp add: add_loop_step remove_loop_step del: remove_loop.simps(2) add_loop.simps(2))
  qed
qed

text \<open>C36: With at most two masks, disjoint and with their lowest bits below bit 31, adding the interleaving bits to an address
  of at most 62 bits and removing them again gives the address back, and what adding returns is selected by the range: the range
  contains it whenever it lies between its bounds.\<close>

theorem intlv_bits_roundtrip:
  assumes "length (masks r) \<le> 2" "distinct (map ctz64 (masks r))" "\<forall>k \<in> set (masks r). ctz64 k < 31"
    "\<forall>x < length (masks r). \<forall>y < length (masks r). x \<noteq> y \<longrightarrow> masks r ! x AND masks r ! y = 0"
    "unat (intlvMatch r) < 2 ^ length (masks r)" "unat a < 2 ^ 62"
  shows "\<exists>b. addIntlvBits r a = Inr b \<and> removeIntlvBits r b = Inr a \<and> range_contains r b = in_range r b"
proof -
  have lsb: "sorted (masks_lsb r)" "distinct (masks_lsb r)" "length (masks_lsb r) \<le> 2" "\<forall>p \<in> set (masks_lsb r). p < 31"
    using assms(1-3) by (auto simp: masks_lsb_def)
  obtain b where b: "add_loop 0 (masks_lsb r) a = Inr b"
    "\<forall>c. (\<forall>j. j \<notin> set (masks_lsb r) \<longrightarrow> bit c j = bit b j) \<longrightarrow> remove_loop 0 (masks_lsb r) c = Inr a"
    using add_remove_sorted [OF lsb assms(6)] by blast
  obtain c where c: "select_loop 0 (masks r) (intlvMatch r) b = Inr c" "\<forall>j. j \<notin> ctz64 ` set (masks r) \<longrightarrow> bit c j = bit b j"
    "\<forall>t < length (masks r). odd (popCount (c AND masks r ! t)) = bit (intlvMatch r) (0 + t)"
    using select_loop_spec [OF assms(3,4), of 0 "intlvMatch r" b] by blast
  have "addIntlvBits r a = Inr c" using b(1) c(1) by (simp add: addIntlvBits_def)
  moreover have "removeIntlvBits r c = Inr a" using b(2) c(2) by (simp add: removeIntlvBits_def masks_lsb_def)
  moreover have "sel_loop 0 (masks r) c 0 = ucast (intlvMatch r)"
    using assms(1,5) c(3) no_high_bits [of "length (masks r)" "intlvMatch r"] by (subst sel_eq_iff) auto
  ultimately show ?thesis by (auto simp: range_contains_def)
qed

theorem intlv_bits_roundtrip_witness:
  "\<exists>b. addIntlvBits \<lparr>r_start = 0, r_end = 0x10000, masks = [0x40, 0x1080], intlvMatch = 2\<rparr> 0x7ff = Inr b \<and>
    removeIntlvBits \<lparr>r_start = 0, r_end = 0x10000, masks = [0x40, 0x1080], intlvMatch = 2\<rparr> b = Inr 0x7ff"
proof -
  have z: "ctz64 0x40 = 6" "ctz64 0x1080 = 7" by code_simp+
  have d: "(0x40 :: Addr) AND 0x1080 = 0" "(0x1080 :: Addr) AND 0x40 = 0" by simp_all
  show ?thesis
    using intlv_bits_roundtrip [of "\<lparr>r_start = 0, r_end = 0x10000, masks = [0x40, 0x1080], intlvMatch = 2\<rparr>" "0x7ff"]
    by (simp add: z d less_Suc_eq nth_Cons split: nat.splits) blast
qed

lemma three_masks_lsb: "masks r = [0x40, 0x80, 0x100] \<Longrightarrow> masks_lsb r = [6, 7, 8]"
proof -
  have "ctz64 0x40 = 6" "ctz64 0x80 = 7" "ctz64 0x100 = 8" by code_simp+
  then show "masks r = [0x40, 0x80, 0x100] \<Longrightarrow> ?thesis" by (simp add: masks_lsb_def)
qed

lemma three_masks_add: "add_loop 0 [6, 7, 8] 0x40 = Inr 0x180"
  by code_simp

lemma three_masks_add0: "add_loop 0 [6, 7, 8] 0 = Inr 0"
  by code_simp

lemma three_masks_select: "select_loop 0 [0x40, 0x80, 0x100] 0 0x180 = Inr 0"
  by code_simp

lemma three_masks_select0: "select_loop 0 [0x40, 0x80, 0x100] 0 0 = Inr 0"
  by code_simp

lemma three_masks_remove: "remove_loop 0 [6, 7, 8] 0x200 = Inr 0x40"
  by code_simp

lemma three_masks_sel: "sel_loop 0 [0x40, 0x80, 0x100] 0x200 0 = 0"
  by code_simp

lemmas three_masks_eval = three_masks_add three_masks_add0 three_masks_select three_masks_select0 three_masks_remove three_masks_sel


end
