(* ===== verification/Spec2Isabelle.thy ===== *)
theory Spec2Isabelle
  imports HetSim_Prelude Event_Queue Int_Math Bitfield Clocked_Object Trace_Stream TRE_Model TRE_Invariant TRE_Sync Tracer
    Sat_Counter Branch_Pred Branch_Target BPred_Unit Replacement Indexing Cache_Blk Cache_Tags Emu_Runtime Addr_Range
begin

text \<open>
  HetSim-gem5: a verification development for the simulator's event queue, its clocks and
  the integer helpers below them.
\<close>

end
